(* ===== verification/Prelude.thy ===== *)
theory Prelude
  imports Main "HOL-Library.Monad_Syntax" "HOL-Library.Word"
begin

text \<open>
  Shared vocabulary of the development.

  \<^item> Go's \<open>int\<close> is 64 bits wide. Terms, log indices, task numbers and counters of the modelled
    code start at small values and grow by one at a time, so they are \<open>int\<close> here; where the
    width is observable (bit sets, hashes) the models use words.
  \<^item> A run-time panic, and a \<open>log.Fatal\<close>, end the process. Operations that can do so have an
    \<open>option\<close> result and \<open>None\<close> is that outcome.
  \<^item> Slices are lists. \<open>idx\<close>, \<open>idx_upd\<close>, \<open>slice_to\<close> and \<open>slice_from\<close> are Go's index and slice
    expressions with their bounds checks.
\<close>

type_synonym byte = "8 word"
type_synonym bytes = "byte list"

named_theorems go_slice \<open>facts about Go's slice expressions\<close>

section \<open>Slices\<close>

definition idx :: "'a list \<Rightarrow> int \<Rightarrow> 'a option" where
  "idx xs i = (if 0 \<le> i \<and> i < int (length xs) then Some (xs ! nat i) else None)"

definition idx_upd :: "'a list \<Rightarrow> int \<Rightarrow> 'a \<Rightarrow> 'a list option" where
  "idx_upd xs i v = (if 0 \<le> i \<and> i < int (length xs) then Some (xs[nat i := v]) else None)"

text \<open>
  \<open>xs[:n]\<close>. Go bounds \<open>n\<close> by the capacity of the slice; every caller of the modelled code stays
  within its length, so the model fails beyond the length.
\<close>

definition slice_to :: "'a list \<Rightarrow> int \<Rightarrow> 'a list option" where
  "slice_to xs n = (if 0 \<le> n \<and> n \<le> int (length xs) then Some (take (nat n) xs) else None)"

definition slice_from :: "'a list \<Rightarrow> int \<Rightarrow> 'a list option" where
  "slice_from xs n = (if 0 \<le> n \<and> n \<le> int (length xs) then Some (drop (nat n) xs) else None)"

text \<open>A loop that stores \<open>v\<close> at the indices \<open>0, ..., n - 1\<close> of a slice.\<close>

definition fill :: "'a list \<Rightarrow> nat \<Rightarrow> 'a \<Rightarrow> 'a list option" where
  "fill xs n v = (if n \<le> length xs then Some (replicate n v @ drop n xs) else None)"

text \<open>A loop that collects \<open>f x\<close> for every \<open>x\<close> and stops at the first failure.\<close>

fun mapM :: "('a \<Rightarrow> 'b option) \<Rightarrow> 'a list \<Rightarrow> 'b list option" where
  "mapM f [] = Some []"
| "mapM f (x # xs) = do { y \<leftarrow> f x; ys \<leftarrow> mapM f xs; Some (y # ys) }"

text \<open>A sequence of calls, up to the first that fails.\<close>

fun run :: "('x \<Rightarrow> 's \<Rightarrow> 's option) \<Rightarrow> 'x list \<Rightarrow> 's \<Rightarrow> 's option" where
  "run f [] s = Some s"
| "run f (x # xs) s = do { s' \<leftarrow> f x s; run f xs s' }"

section \<open>Machines\<close>

text \<open>
  The contract several components share: a step function on a state, an invariant every step
  keeps, and a preorder every step follows. The client's facts are about whole runs.
\<close>

locale machine =
  fixes step :: "'x \<Rightarrow> 's \<Rightarrow> 's option"
    and good :: "'s \<Rightarrow> bool"
  assumes good_step: "good s \<Longrightarrow> step x s = Some s' \<Longrightarrow> good s'"
begin

lemma good_run: "good s \<Longrightarrow> run step xs s = Some s' \<Longrightarrow> good s'"
proof (induction xs arbitrary: s)
  case (Cons x xs)
  then show ?case by (auto simp: bind_eq_Some_conv intro: good_step)
qed simp

end

locale ordered_machine = machine +
  fixes below :: "'s \<Rightarrow> 's \<Rightarrow> bool"
  assumes below_refl: "below s s"
    and below_trans: "below s t \<Longrightarrow> below t u \<Longrightarrow> below s u"
    and below_step: "good s \<Longrightarrow> step x s = Some s' \<Longrightarrow> below s s'"
begin

lemma below_run: "good s \<Longrightarrow> run step xs s = Some s' \<Longrightarrow> below s s'"
proof (induction xs arbitrary: s)
  case Nil
  then show ?case by (simp add: below_refl)
next
  case (Cons x xs)
  then obtain t where t: "step x s = Some t" and "run step xs t = Some s'"
    by (auto simp: bind_eq_Some_conv)
  with Cons have "below t s'" by (blast intro: good_step)
  with below_step [OF Cons.prems(1) t] show ?case by (rule below_trans)
qed

end

lemma run_append: "run f (xs @ ys) s = Option.bind (run f xs s) (run f ys)"
proof (induction xs arbitrary: s)
  case (Cons x xs)
  show ?case by (cases "f x s") (simp_all add: Cons.IH)
qed simp

section \<open>Facts about slices\<close>

lemma idx_Some_iff [go_slice]:
  "idx xs i = Some v \<longleftrightarrow> 0 \<le> i \<and> i < int (length xs) \<and> xs ! nat i = v"
  by (auto simp: idx_def)

lemma idx_None_iff [go_slice]: "idx xs i = None \<longleftrightarrow> i < 0 \<or> int (length xs) \<le> i"
  by (auto simp: idx_def)

lemma idx_nat [simp]: "k < length xs \<Longrightarrow> idx xs (int k) = Some (xs ! k)"
  by (simp add: idx_def)

lemma idx_upd_Some_iff [go_slice]:
  "idx_upd xs i v = Some ys \<longleftrightarrow> 0 \<le> i \<and> i < int (length xs) \<and> ys = xs[nat i := v]"
  by (auto simp: idx_upd_def)

lemma slice_to_Some_iff [go_slice]:
  "slice_to xs n = Some ys \<longleftrightarrow> 0 \<le> n \<and> n \<le> int (length xs) \<and> ys = take (nat n) xs"
  by (auto simp: slice_to_def)

lemma slice_from_Some_iff [go_slice]:
  "slice_from xs n = Some ys \<longleftrightarrow> 0 \<le> n \<and> n \<le> int (length xs) \<and> ys = drop (nat n) xs"
  by (auto simp: slice_from_def)

lemma fill_Some_iff [go_slice]:
  "fill xs n v = Some ys \<longleftrightarrow> n \<le> length xs \<and> ys = replicate n v @ drop n xs"
  by (auto simp: fill_def)

lemma mapM_Some_iff: "mapM f xs = Some ys \<longleftrightarrow> map f xs = map Some ys"
proof (induction xs arbitrary: ys)
  case (Cons x xs)
  show ?case
    by (cases ys) (auto simp: Cons.IH bind_eq_Some_conv)
qed auto

lemma mapM_map_Some: "(\<And>x. x \<in> set xs \<Longrightarrow> f x = Some (g x)) \<Longrightarrow> mapM f xs = Some (map g xs)"
  by (simp add: mapM_Some_iff)

lemma length_mapM: "mapM f xs = Some ys \<Longrightarrow> length ys = length xs"
  by (metis length_map mapM_Some_iff)

section \<open>Majorities\<close>

text \<open>Sets of servers among \<open>n\<close> that contain more than half of them.\<close>

definition peer_ids :: "nat \<Rightarrow> int set" where
  "peer_ids n = {0..<int n}"

definition majority :: "nat \<Rightarrow> int set \<Rightarrow> bool" where
  "majority n Q \<longleftrightarrow> Q \<subseteq> peer_ids n \<and> n < 2 * card Q"

lemma finite_peer_ids [simp]: "finite (peer_ids n)"
  by (simp add: peer_ids_def)

lemma card_peer_ids [simp]: "card (peer_ids n) = n"
  by (simp add: peer_ids_def)

lemma finite_subset_peer_ids: "Q \<subseteq> peer_ids n \<Longrightarrow> finite Q"
  by (rule finite_subset [OF _ finite_peer_ids])

text \<open>The interface the voting argument needs: any two quorums share a server.\<close>

locale quorums =
  fixes quorum :: "int set \<Rightarrow> bool"
  assumes overlap: "quorum Q \<Longrightarrow> quorum R \<Longrightarrow> Q \<inter> R \<noteq> {}"
begin

text \<open>If every server backs at most one candidate, at most one candidate has a quorum.\<close>

lemma one_winner:
  assumes Q: "quorum {v. backs v c}" and R: "quorum {v. backs v d}"
    and once: "\<And>v x y. backs v x \<Longrightarrow> backs v y \<Longrightarrow> x = y"
  shows "c = d"
proof -
  from overlap [OF Q R] obtain v where "backs v c" and "backs v d" by blast
  then show ?thesis by (rule once)
qed

end

lemma majority_overlap:
  assumes "majority n Q" and "majority n R"
  shows "Q \<inter> R \<noteq> {}"
proof
  assume "Q \<inter> R = {}"
  moreover from assms have "finite Q" and "finite R"
    by (auto simp: majority_def intro: finite_subset_peer_ids)
  ultimately have "card (Q \<union> R) = card Q + card R"
    by (simp add: card_Un_disjoint)
  moreover from assms have "card (Q \<union> R) \<le> n"
    using card_mono [of "peer_ids n" "Q \<union> R"] by (simp add: majority_def)
  ultimately show False
    using assms by (simp add: majority_def)
qed

interpretation maj: quorums "majority n" for n
  by unfold_locales (rule majority_overlap)

end
