(* ===== verification/RaftLog.thy ===== *)
theory RaftLog
  imports Prelude
begin

text \<open>
  The log of a Raft server: \<open>src/src/raft/log.go\<close>. A log keeps a window of entries; \<open>Index0\<close> is
  the log index of the first entry it still holds (entries below it were given up to a snapshot).
\<close>

section \<open>Data\<close>

text \<open>
  \<open>interface{}\<close> commands: \<open>nil\<close> (the entry that stands for a snapshot), an \<open>int\<close> (the entry at
  index 0 is \<open>Entry{-1, 0, 0}\<close>) or a command of the service.
\<close>

datatype 'c command = NilCmd | IntCmd int | Cmd 'c

record 'c Entry =
  Command :: "'c command"
  Term :: int
  Index :: int

record 'c Log =
  Entries :: "'c Entry list"
  Index0 :: int

section \<open>Operations\<close>

definition makeEmptyLog :: "'c Log" where
  "makeEmptyLog = \<lparr>Entries = [], Index0 = 0\<rparr>"

definition log_at :: "'c Log \<Rightarrow> int \<Rightarrow> 'c Entry option" where
  "log_at l i = idx (Entries l) (i - Index0 l)"

definition log_append :: "'c Log \<Rightarrow> 'c Entry list \<Rightarrow> 'c Log" where
  "log_append l es = l\<lparr>Entries := Entries l @ es\<rparr>"

definition log_truncate :: "'c Log \<Rightarrow> int \<Rightarrow> 'c Log option" where
  "log_truncate l i = do { es \<leftarrow> slice_to (Entries l) (i - Index0 l); Some (l\<lparr>Entries := es\<rparr>) }"

definition Tail :: "'c Log \<Rightarrow> int \<Rightarrow> 'c Entry list option" where
  "Tail l i = slice_from (Entries l) (i - Index0 l)"

definition Len :: "'c Log \<Rightarrow> int" where
  "Len l = int (length (Entries l)) + Index0 l"

definition LastLog :: "'c Log \<Rightarrow> 'c Entry option" where
  "LastLog l = log_at l (Len l - 1)"

section \<open>Well-formed logs\<close>

text \<open>A log holds at least one entry, and every entry carries the index of its place.\<close>

definition wf_entries :: "int \<Rightarrow> 'c Entry list \<Rightarrow> bool" where
  "wf_entries i es \<longleftrightarrow> (\<forall>k < length es. Index (es ! k) = i + int k)"

definition wf_log :: "'c Log \<Rightarrow> bool" where
  "wf_log l \<longleftrightarrow> Entries l \<noteq> [] \<and> 0 \<le> Index0 l \<and> wf_entries (Index0 l) (Entries l)"

text \<open>The index of the last entry of a well-formed log.\<close>

abbreviation last_index :: "'c Log \<Rightarrow> int" where
  "last_index l \<equiv> Len l - 1"

lemma wf_entries_Nil [simp]: "wf_entries i []"
  by (simp add: wf_entries_def)

lemma wf_entries_Cons [simp]:
  "wf_entries i (e # es) \<longleftrightarrow> Index e = i \<and> wf_entries (i + 1) es"
  by (auto simp: wf_entries_def nth_Cons less_Suc_eq_0_disj)

lemma wf_entries_append:
  "wf_entries i (xs @ ys) \<longleftrightarrow> wf_entries i xs \<and> wf_entries (i + int (length xs)) ys"
  by (induction xs arbitrary: i) (auto simp: algebra_simps)

lemma wf_entries_take: "wf_entries i es \<Longrightarrow> wf_entries i (take n es)"
  by (simp add: wf_entries_def)

lemma wf_entries_drop: "wf_entries i es \<Longrightarrow> n \<le> length es \<Longrightarrow> wf_entries (i + int n) (drop n es)"
  by (auto simp: wf_entries_def algebra_simps)

lemma LastLog_last: "LastLog l = (if Entries l = [] then None else Some (last (Entries l)))"
  by (auto simp: LastLog_def log_at_def Len_def idx_def last_conv_nth nat_diff_distrib'
      intro!: arg_cong [where f = "(!) (Entries l)"])

lemma Index_last: "wf_log l \<Longrightarrow> Index (last (Entries l)) = last_index l"
  by (cases "Entries l") (auto simp: wf_log_def wf_entries_def Len_def last_conv_nth)

lemma LastLog_wf: "wf_log l \<Longrightarrow> LastLog l = Some (last (Entries l))"
  by (simp add: LastLog_last wf_log_def)

lemma log_at_wf:
  "wf_log l \<Longrightarrow> log_at l i = Some e \<Longrightarrow> Index e = i \<and> Index0 l \<le> i \<and> i \<le> last_index l"
  by (auto simp: log_at_def wf_log_def wf_entries_def Len_def idx_Some_iff)

lemma log_at_Some: "Index0 l \<le> i \<Longrightarrow> i \<le> last_index l \<Longrightarrow> \<exists>e. log_at l i = Some e"
  by (auto simp: log_at_def idx_def Len_def)

lemma log_at_defined: "(\<exists>e. log_at l i = Some e) \<longleftrightarrow> Index0 l \<le> i \<and> i \<le> last_index l"
  by (auto simp: log_at_def idx_def Len_def)

lemma wf_log_last_ge: "wf_log l \<Longrightarrow> Index0 l \<le> last_index l"
  by (cases "Entries l") (auto simp: wf_log_def Len_def)

section \<open>The interface of the log\<close>

text \<open>
  What the Raft code relies on: reading after appending and after truncating, and that
  well-formedness is kept. \<open>contents\<close> is the specification view of a log, the partial function
  from indices to entries.
\<close>

locale log_store =
  fixes lookup :: "'l \<Rightarrow> int \<Rightarrow> 'e option"
    and extend :: "'l \<Rightarrow> 'e list \<Rightarrow> 'l"
    and cut :: "'l \<Rightarrow> int \<Rightarrow> 'l option"
    and first :: "'l \<Rightarrow> int"
    and final :: "'l \<Rightarrow> int"
  assumes lookup_extend: "i \<le> final l \<Longrightarrow> lookup (extend l es) i = lookup l i"
    and lookup_extend_new:
      "k < length es \<Longrightarrow> first l \<le> final l \<Longrightarrow> lookup (extend l es) (final l + 1 + int k) = Some (es ! k)"
    and cut_defined: "first l \<le> i \<Longrightarrow> i \<le> final l + 1 \<Longrightarrow> \<exists>l'. cut l i = Some l'"
    and lookup_cut: "cut l i = Some l' \<Longrightarrow> lookup l' j = (if j < i then lookup l j else None)"
    and final_cut: "cut l i = Some l' \<Longrightarrow> final l' = i - 1"
    and lookup_beyond: "final l < i \<Longrightarrow> lookup l i = None"
    and final_extend: "final (extend l es) = final l + int (length es)"
begin

text \<open>Overwriting the log from index \<open>i\<close> on: what is below stays, what is above is new.\<close>

lemma lookup_replace:
  assumes "cut l i = Some l'" and "first l' < i"
  shows "lookup (extend l' es) j =
    (if j < i then lookup l j else if j < i + int (length es) then Some (es ! nat (j - i))
     else None)"
proof -
  have f: "final l' = i - 1" using assms(1) by (rule final_cut)
  consider (below) "j < i" | (new) "i \<le> j" "j < i + int (length es)" | (above) "i + int (length es) \<le> j"
    by linarith
  then show ?thesis
  proof cases
    case below
    then show ?thesis using f lookup_extend [of j l' es] lookup_cut [OF assms(1), of j] by simp
  next
    case new
    then show ?thesis
      using f assms(2) lookup_extend_new [of "nat (j - i)" es l'] by simp
  next
    case above
    then show ?thesis using f by (simp add: lookup_beyond final_extend)
  qed
qed

end

lemma log_at_append:
  "log_at (log_append l es) i =
     (if i \<le> last_index l then log_at l i else idx es (i - Len l))"
  by (auto simp: log_at_def log_append_def idx_def Len_def nth_append nat_less_iff
      intro!: arg_cong [where f = "(!) es"])

lemma log_truncate_Some_iff:
  "log_truncate l i = Some l' \<longleftrightarrow>
     Index0 l \<le> i \<and> i \<le> Len l \<and> l' = l\<lparr>Entries := take (nat (i - Index0 l)) (Entries l)\<rparr>"
  by (auto simp: log_truncate_def slice_to_Some_iff bind_eq_Some_conv Len_def)

lemma log_at_truncate:
  "log_truncate l i = Some l' \<Longrightarrow> log_at l' j = (if j < i then log_at l j else None)"
  by (auto simp: log_truncate_Some_iff log_at_def idx_def Len_def)

lemma Len_truncate: "log_truncate l i = Some l' \<Longrightarrow> Len l' = i"
  by (auto simp: log_truncate_Some_iff Len_def)

lemma Len_append [simp]: "Len (log_append l es) = Len l + int (length es)"
  by (simp add: Len_def log_append_def)

interpretation raftlog: log_store log_at log_append log_truncate Index0 last_index
proof unfold_locales
  fix i and l :: "'a Log" and es
  assume "i \<le> last_index l"
  then show "log_at (log_append l es) i = log_at l i" by (simp add: log_at_append)
next
  fix k and es :: "'a Entry list" and l
  assume "k < length es"
  then show "log_at (log_append l es) (last_index l + 1 + int k) = Some (es ! k)"
    by (simp add: log_at_append)
next
  fix l :: "'a Log" and i
  assume "Index0 l \<le> i" and "i \<le> last_index l + 1"
  then show "\<exists>l'. log_truncate l i = Some l'" by (simp add: log_truncate_Some_iff)
next
  fix l :: "'a Log" and i l' j
  assume "log_truncate l i = Some l'"
  then show "log_at l' j = (if j < i then log_at l j else None)" by (rule log_at_truncate)
next
  fix l :: "'a Log" and i l'
  assume "log_truncate l i = Some l'"
  then show "last_index l' = i - 1" by (simp add: Len_truncate)
next
  fix l :: "'a Log" and i
  assume "last_index l < i"
  then show "log_at l i = None" by (simp add: log_at_def idx_def Len_def)
next
  fix l :: "'a Log" and es
  show "last_index (log_append l es) = last_index l + int (length es)" by simp
qed

lemma Index0_append [simp]: "Index0 (log_append l es) = Index0 l"
  by (simp add: log_append_def)

lemma Index0_truncate: "log_truncate l i = Some l' \<Longrightarrow> Index0 l' = Index0 l"
  by (auto simp: log_truncate_Some_iff)

lemma wf_log_append: "wf_log l \<Longrightarrow> wf_entries (Len l) es \<Longrightarrow> wf_log (log_append l es)"
  by (auto simp: wf_log_def log_append_def wf_entries_append Len_def algebra_simps)

lemma wf_log_truncate: "wf_log l \<Longrightarrow> log_truncate l i = Some l' \<Longrightarrow> Index0 l < i \<Longrightarrow> wf_log l'"
  by (auto simp: log_truncate_Some_iff wf_log_def wf_entries_take)

end
