(* ===== verification/Persister.thy ===== *)
theory Persister
  imports RaftLog
begin

text \<open>
  Stable storage of a Raft server, \<open>src/src/raft/persister.go\<close>, and the serialisation that the
  persisted state goes through. A \<open>Persister\<close> holds the bytes of the Raft state and of the service
  snapshot; \<open>clone\<close> copies a byte slice, so values saved or read are never shared.
\<close>

section \<open>persister.go\<close>

record Persister =
  raftstate :: bytes
  snapshot :: bytes

definition MakePersister :: Persister where
  "MakePersister = \<lparr>raftstate = [], snapshot = []\<rparr>"

text \<open>\<open>make\<close> a slice of the same length and copy every element.\<close>

definition clone :: "bytes \<Rightarrow> bytes" where
  "clone orig = take (length orig) orig @ drop (length orig) (replicate (length orig) 0)"

definition Persister_Copy :: "Persister \<Rightarrow> Persister" where
  "Persister_Copy ps = MakePersister\<lparr>raftstate := raftstate ps, snapshot := snapshot ps\<rparr>"

definition SaveRaftState :: "bytes \<Rightarrow> Persister \<Rightarrow> Persister" where
  "SaveRaftState st ps = ps\<lparr>raftstate := clone st\<rparr>"

definition ReadRaftState :: "Persister \<Rightarrow> bytes" where
  "ReadRaftState ps = clone (raftstate ps)"

definition RaftStateSize :: "Persister \<Rightarrow> nat" where
  "RaftStateSize ps = length (raftstate ps)"

definition SaveStateAndSnapshot :: "bytes \<Rightarrow> bytes \<Rightarrow> Persister \<Rightarrow> Persister" where
  "SaveStateAndSnapshot st sn ps = ps\<lparr>raftstate := clone st, snapshot := clone sn\<rparr>"

definition ReadSnapshot :: "Persister \<Rightarrow> bytes" where
  "ReadSnapshot ps = clone (snapshot ps)"

definition SnapshotSize :: "Persister \<Rightarrow> nat" where
  "SnapshotSize ps = length (snapshot ps)"

section \<open>Serialisation\<close>

text \<open>
  \<open>labgob\<close> hands values to \<open>encoding/gob\<close>. What one encoder writes for a sequence of \<open>Encode\<close>
  calls, and the sequence of values a decoder finds in a byte buffer, are the two functions of a
  \<open>codec\<close>. \<open>codec_ok\<close> is what the documentation of \<open>encoding/gob\<close> promises and the Raft code
  relies on: a decoder reads back the encoded values in order, and encoding something produces
  bytes.
\<close>

datatype 'c gobval = GInt int | GLog "'c Log"

record 'c codec =
  gob :: "'c gobval list \<Rightarrow> bytes"
  ungob :: "bytes \<Rightarrow> 'c gobval list"

definition codec_ok :: "'c codec \<Rightarrow> bool" where
  "codec_ok C \<longleftrightarrow> (\<forall>vs. ungob C (gob C vs) = vs) \<and> (\<forall>vs. vs \<noteq> [] \<longrightarrow> gob C vs \<noteq> [])"

section \<open>What was saved is read back\<close>

lemma clone_id [simp]: "clone xs = xs"
  by (simp add: clone_def)

lemma Persister_Copy_id [simp]: "Persister_Copy ps = ps"
  by (simp add: Persister_Copy_def MakePersister_def)

lemma Read_after_Save [simp]:
  "ReadRaftState (SaveRaftState st ps) = st"
  "ReadSnapshot (SaveRaftState st ps) = ReadSnapshot ps"
  "ReadRaftState (SaveStateAndSnapshot st sn ps) = st"
  "ReadSnapshot (SaveStateAndSnapshot st sn ps) = sn"
  by (simp_all add: ReadRaftState_def SaveRaftState_def SaveStateAndSnapshot_def ReadSnapshot_def)

lemma raftstate_Save [simp]:
  "raftstate (SaveRaftState st ps) = st" "snapshot (SaveRaftState st ps) = snapshot ps"
  "raftstate (SaveStateAndSnapshot st sn ps) = st"
  "snapshot (SaveStateAndSnapshot st sn ps) = sn"
  by (simp_all add: SaveRaftState_def SaveStateAndSnapshot_def)

lemma codec_okD:
  "codec_ok C \<Longrightarrow> ungob C (gob C vs) = vs"
  "codec_ok C \<Longrightarrow> vs \<noteq> [] \<Longrightarrow> gob C vs \<noteq> []"
  by (auto simp: codec_ok_def)

end
