(* ===== verification/Raft.thy ===== *)
theory Raft
  imports Persister
begin

text \<open>
  One Raft server: \<open>raft.go\<close>, \<open>vote.go\<close>, \<open>leaderElection.go\<close> and \<open>entry.go\<close> under
  \<open>src/src/raft\<close>. Every function that runs under \<open>rf.mu\<close> is one definition from the state of the
  server to its new state.

  \<^item> \<open>None\<close> is a run-time panic.
  \<^item> The clock and the random number a call of \<open>resetElectionTimer\<close> reads are the argument \<open>clk\<close>.
  \<^item> The serialisation (\<open>encoding/gob\<close>) is the argument \<open>C\<close>.
  \<^item> What a function starts or sends (goroutines, the condition variable, \<open>applyCh\<close>) is returned
    as a list of \<open>effect\<close>s. A goroutine that performs an RPC is split at the \<open>Call\<close>: the part
    before it computes the arguments, the part after it takes \<open>ok\<close> and the reply.
  \<^item> \<open>peers\<close> is the number of servers; of the \<open>ClientEnd\<close>s only \<open>Call\<close> is used.
  \<^item> \<open>DPrintf\<close> prints nothing (\<open>Debug\<close> is false) and is left out.
\<close>

section \<open>State and messages\<close>

datatype RaftState = Follower | Candidate | Leader

record 'c ApplyMsg =
  CommandValid :: bool
  amCommand :: "'c command"
  CommandIndex :: int
  SnapshotValid :: bool
  amSnapshot :: bytes
  SnapshotTerm :: int
  SnapshotIndex :: int

record 'c Raft =
  peers :: nat
  persister :: Persister
  me :: int
  dead :: int
  LeaderID :: int
  LastIndex :: int
  LastTerm :: int
  state :: RaftState
  currentTerm :: int
  votedFor :: int
  commitIndex :: int
  lastApplied :: int
  nextIndex :: "int list"
  matchIndex :: "int list"
  rlog :: "'c Log"
  electionTime :: int
  heartBeat :: int

record RequestVoteArgs =
  rvTerm :: int
  CandidateId :: int
  LastLogIndex :: int
  LastLogTerm :: int

record RequestVoteReply =
  rvrTerm :: int
  VoteGranted :: bool

record 'c AppendEntriesArgs =
  aeTerm :: int
  LeaderId :: int
  PrevLogIndex :: int
  PrevLogTerm :: int
  aeEntries :: "'c Entry list"
  LeaderCommit :: int

record AppendEntriesReply =
  aerTerm :: int
  Success :: bool
  Conflict :: bool
  XTerm :: int
  XIndex :: int
  XLen :: int

record SnapShotArgs =
  ssTerm :: int
  ssLeaderID :: int
  LastIncludedIndex :: int
  LastIncludedTerm :: int
  ssSnapShot :: bytes
  Offset :: int
  Done :: bool

record SnapShotReply =
  ssrTerm :: int

datatype 'c effect =
    GoCandidateRequest int RequestVoteArgs
  | GoLeaderSendEntries int "'c AppendEntriesArgs"
  | GoSendSnapshot int
  | Broadcast
  | SendApply "'c ApplyMsg"

text \<open>The time a call reads and the value \<open>rand.Intn(150)\<close> returns to it.\<close>

record clock =
  now :: int
  rnd :: int

text \<open>\<open>range rf.peers\<close>.\<close>

definition peer_range :: "'c Raft \<Rightarrow> int list" where
  "peer_range rf = [0..int (peers rf) - 1]"

definition max_int :: "int \<Rightarrow> int \<Rightarrow> int" where
  "max_int a b = (if a > b then a else b)"

definition min_int :: "int \<Rightarrow> int \<Rightarrow> int" where
  "min_int a b = (if a > b then b else a)"

section \<open>Persistence (raft.go)\<close>

definition GetState :: "'c Raft \<Rightarrow> int \<times> bool" where
  "GetState rf = (currentTerm rf, state rf = Leader)"

definition persistData :: "'c codec \<Rightarrow> 'c Raft \<Rightarrow> bytes" where
  "persistData C rf = gob C [GInt (currentTerm rf), GInt (votedFor rf), GLog (rlog rf)]"

definition persist :: "'c codec \<Rightarrow> 'c Raft \<Rightarrow> 'c Raft" where
  "persist C rf = rf\<lparr>persister := SaveRaftState (persistData C rf) (persister rf)\<rparr>"

definition readPersist :: "'c codec \<Rightarrow> bytes \<Rightarrow> 'c Raft \<Rightarrow> 'c Raft option" where
  "readPersist C data rf =
     (if length data < 1 then Some rf
      else case ungob C data of
        GInt ct # GInt vf # GLog l # _ \<Rightarrow>
          Some (rf\<lparr>currentTerm := ct, votedFor := vf, rlog := l,
                   lastApplied := Index0 l, commitIndex := Index0 l\<rparr>)
      | _ \<Rightarrow> None)"

section \<open>Elections (vote.go, leaderElection.go)\<close>

definition resetElectionTimer :: "clock \<Rightarrow> 'c Raft \<Rightarrow> 'c Raft" where
  "resetElectionTimer clk rf = rf\<lparr>electionTime := now clk + (150 + rnd clk)\<rparr>"

definition setNewTerm :: "'c codec \<Rightarrow> int \<Rightarrow> 'c Raft \<Rightarrow> 'c Raft" where
  "setNewTerm C t rf =
     (if t > currentTerm rf \<or> currentTerm rf = 0
      then persist C (rf\<lparr>state := Follower, currentTerm := t, votedFor := -1\<rparr>)
      else rf)"

definition RequestVote ::
  "'c codec \<Rightarrow> clock \<Rightarrow> RequestVoteArgs \<Rightarrow> 'c Raft \<Rightarrow> ('c Raft \<times> RequestVoteReply) option" where
  "RequestVote C clk args rf =
     (if rvTerm args < currentTerm rf
      then Some (rf, \<lparr>rvrTerm = currentTerm rf, VoteGranted = False\<rparr>)
      else do {
        let rf = (if rvTerm args > currentTerm rf then setNewTerm C (rvTerm args) rf else rf);
        lastLog \<leftarrow> LastLog (rlog rf);
        let valid = (LastLogTerm args > Term lastLog \<or>
          (LastLogTerm args = Term lastLog \<and> LastLogIndex args \<ge> Index lastLog));
        if (votedFor rf = -1 \<or> votedFor rf = CandidateId args) \<and> valid
        then do {
          let rf = resetElectionTimer clk (persist C (rf\<lparr>votedFor := CandidateId args\<rparr>));
          Some (rf, \<lparr>rvrTerm = currentTerm rf, VoteGranted = True\<rparr>)
        }
        else Some (rf, \<lparr>rvrTerm = currentTerm rf, VoteGranted = False\<rparr>)
      })"

text \<open>
  The variables one call of \<open>leaderElection\<close> shares with the goroutines it starts: the two
  counters and whether \<open>becomeLeader\<close> has run.
\<close>

record election =
  votecount :: int
  servercount :: int
  becomeLeader :: bool

definition leaderElection ::
  "'c codec \<Rightarrow> clock \<Rightarrow> 'c Raft \<Rightarrow> ('c Raft \<times> election \<times> 'c effect list) option" where
  "leaderElection C clk rf = do {
     let rf = rf\<lparr>currentTerm := currentTerm rf + 1\<rparr>;
     let rf = persist C (rf\<lparr>state := Candidate, votedFor := me rf\<rparr>);
     let rf = resetElectionTimer clk rf;
     lg \<leftarrow> LastLog (rlog rf);
     let args = \<lparr>rvTerm = currentTerm rf, CandidateId = me rf,
                 LastLogIndex = Index lg, LastLogTerm = Term lg\<rparr>;
     Some (rf, \<lparr>votecount = 1, servercount = 1, becomeLeader = False\<rparr>,
       [GoCandidateRequest p args. p \<leftarrow> peer_range rf, p \<noteq> me rf])
   }"

section \<open>Replication, leader side (entry.go)\<close>

text \<open>\<open>make\<close> a slice of \<open>m\<close> zero entries and \<open>copy\<close> into it.\<close>

definition copy_entries :: "nat \<Rightarrow> 'c Entry list \<Rightarrow> 'c Entry list" where
  "copy_entries m es =
     take m es @ replicate (m - length es) \<lparr>Command = NilCmd, Term = 0, Index = 0\<rparr>"

definition appendEntries_peer ::
  "bool \<Rightarrow> 'c Entry \<Rightarrow> int \<Rightarrow> 'c Raft \<Rightarrow> 'c effect list option" where
  "appendEntries_peer HeartBeat lastLog peer rf = do {
     ni \<leftarrow> idx (nextIndex rf) peer;
     if Index lastLog \<ge> ni \<or> HeartBeat
     then do {
       let ni = (if ni \<le> 0 then 1 else ni);
       let ni = (if Index lastLog + 1 < ni then Index lastLog else ni);
       if ni > Index0 (rlog rf)
       then do {
         prevLog \<leftarrow> log_at (rlog rf) (ni - 1);
         tail \<leftarrow> Tail (rlog rf) ni;
         (if Index lastLog - ni + 1 < 0 then None
          else Some [GoLeaderSendEntries peer
            \<lparr>aeTerm = currentTerm rf, LeaderId = me rf, PrevLogIndex = Index prevLog,
             PrevLogTerm = Term prevLog,
             aeEntries = copy_entries (nat (Index lastLog - ni + 1)) tail,
             LeaderCommit = commitIndex rf\<rparr>])
       }
       else Some [GoSendSnapshot peer]
     }
     else Some []
   }"

fun appendEntries_loop ::
  "clock \<Rightarrow> bool \<Rightarrow> 'c Entry \<Rightarrow> int list \<Rightarrow> 'c Raft \<Rightarrow> ('c Raft \<times> 'c effect list) option" where
  "appendEntries_loop clk HeartBeat lastLog [] rf = Some (rf, [])"
| "appendEntries_loop clk HeartBeat lastLog (peer # ps) rf =
     (if peer = me rf then appendEntries_loop clk HeartBeat lastLog ps (resetElectionTimer clk rf)
      else do {
        acts \<leftarrow> appendEntries_peer HeartBeat lastLog peer rf;
        (rf', acts') \<leftarrow> appendEntries_loop clk HeartBeat lastLog ps rf;
        Some (rf', acts @ acts')
      })"

definition appendEntries ::
  "clock \<Rightarrow> bool \<Rightarrow> 'c Raft \<Rightarrow> ('c Raft \<times> 'c effect list) option" where
  "appendEntries clk HeartBeat rf = do {
     lastLog \<leftarrow> LastLog (rlog rf);
     appendEntries_loop clk HeartBeat lastLog (peer_range rf) rf
   }"

text \<open>\<open>candidateRequest\<close> (vote.go) from the return of the RPC on; \<open>el\<close> holds the shared counters.\<close>

definition becomeLeader_do ::
  "'c codec \<Rightarrow> clock \<Rightarrow> 'c Raft \<Rightarrow> ('c Raft \<times> 'c effect list) option" where
  "becomeLeader_do C clk rf = do {
     let rf = persist C (rf\<lparr>state := Leader\<rparr>);
     lg \<leftarrow> LastLog (rlog rf);
     ni \<leftarrow> fill (nextIndex rf) (peers rf) (Index lg + 1);
     mi \<leftarrow> fill (matchIndex rf) (peers rf) 0;
     appendEntries clk True (rf\<lparr>nextIndex := ni, matchIndex := mi\<rparr>)
   }"

definition candidateRequest ::
  "'c codec \<Rightarrow> clock \<Rightarrow> bool \<Rightarrow> RequestVoteArgs \<Rightarrow> RequestVoteReply \<Rightarrow> election \<Rightarrow> 'c Raft
     \<Rightarrow> (election \<times> 'c Raft \<times> 'c effect list) option" where
  "candidateRequest C clk ok args reply el rf =
     (if \<not> ok then Some (el, rf, [])
      else let el = el\<lparr>servercount := servercount el + 1\<rparr> in
      if VoteGranted reply = False \<and> rvrTerm reply > currentTerm rf
      then Some (el, setNewTerm C (rvrTerm reply) rf, [])
      else if VoteGranted reply
      then let el = el\<lparr>votecount := votecount el + 1\<rparr> in
        if 2 * votecount el > int (peers rf) \<and> currentTerm rf = rvTerm args \<and> state rf = Candidate
           \<and> \<not> becomeLeader el
        then do {
          (rf', acts) \<leftarrow> becomeLeader_do C clk rf;
          Some (el\<lparr>becomeLeader := True\<rparr>, rf', acts)
        }
        else Some (el, rf, [])
      else Some (el, rf, []))"

definition SendSnapshot_args :: "'c Raft \<Rightarrow> SnapShotArgs" where
  "SendSnapshot_args rf =
     \<lparr>ssTerm = currentTerm rf, ssLeaderID = LeaderID rf, LastIncludedIndex = LastIndex rf,
      LastIncludedTerm = LastTerm rf, ssSnapShot = snapshot (persister rf), Offset = 0,
      Done = True\<rparr>"

definition SendSnapshot_reply ::
  "'c codec \<Rightarrow> bool \<Rightarrow> SnapShotReply \<Rightarrow> int \<Rightarrow> 'c Raft \<Rightarrow> 'c Raft option" where
  "SendSnapshot_reply C ok reply peer rf =
     (if \<not> ok then Some rf
      else if ssrTerm reply > currentTerm rf then Some (setNewTerm C (ssrTerm reply) rf)
      else if state rf = Leader
      then do {
        ni \<leftarrow> idx_upd (nextIndex rf) peer (LastIndex rf + 1);
        mi \<leftarrow> idx_upd (matchIndex rf) peer (LastIndex rf);
        Some (rf\<lparr>nextIndex := ni, matchIndex := mi\<rparr>)
      }
      else Some rf)"

text \<open>
  \<open>findLastLogInTerm\<close>: the loop counts \<open>i\<close> down from the last index while it is positive.
\<close>

fun findLastLogInTerm_loop :: "'c Log \<Rightarrow> int \<Rightarrow> nat \<Rightarrow> int option" where
  "findLastLogInTerm_loop l x 0 = Some (-1)"
| "findLastLogInTerm_loop l x (Suc i) = do {
     e \<leftarrow> log_at l (int (Suc i));
     if Term e = x then Some (int (Suc i))
     else if Term e < x then Some (-1)
     else findLastLogInTerm_loop l x i
   }"

definition findLastLogInTerm :: "int \<Rightarrow> 'c Raft \<Rightarrow> int option" where
  "findLastLogInTerm x rf = do {
     lg \<leftarrow> LastLog (rlog rf);
     findLastLogInTerm_loop (rlog rf) x (nat (Index lg))
   }"

text \<open>\<open>Commit\<close>: the inner loop counts servers and leaves as soon as there is a majority.\<close>

fun Commit_count :: "int \<Rightarrow> int list \<Rightarrow> int \<Rightarrow> int \<Rightarrow> int list \<Rightarrow> int \<Rightarrow> bool option" where
  "Commit_count self mi n half [] counter = Some False"
| "Commit_count self mi n half (serverId # ss) counter = do {
     hit \<leftarrow> (if serverId \<noteq> self then map_option (\<lambda>m. m \<ge> n) (idx mi serverId) else Some False);
     let counter = (if hit then counter + 1 else counter);
     if counter > half then Some True else Commit_count self mi n half ss counter
   }"

fun Commit_loop :: "int list \<Rightarrow> 'c Raft \<Rightarrow> ('c Raft \<times> 'c effect list) option" where
  "Commit_loop [] rf = Some (rf, [])"
| "Commit_loop (n # ns) rf = do {
     e \<leftarrow> log_at (rlog rf) n;
     if Term e \<noteq> currentTerm rf then Commit_loop ns rf
     else do {
       maj \<leftarrow> Commit_count (me rf) (matchIndex rf) n (int (peers rf) div 2) (peer_range rf) 1;
       if maj then do {
         (rf', acts) \<leftarrow> Commit_loop ns (rf\<lparr>commitIndex := n\<rparr>);
         Some (rf', Broadcast # acts)
       }
       else Commit_loop ns rf
     }
   }"

definition Commit :: "'c Raft \<Rightarrow> ('c Raft \<times> 'c effect list) option" where
  "Commit rf =
     (if state rf \<noteq> Leader then Some (rf, [])
      else do {
        lg \<leftarrow> LastLog (rlog rf);
        Commit_loop [commitIndex rf + 1..Index lg] rf
      })"

text \<open>\<open>leaderSendEntries\<close> from the return of the RPC on.\<close>

definition leaderSendEntries_next ::
  "int \<Rightarrow> 'c AppendEntriesArgs \<Rightarrow> AppendEntriesReply \<Rightarrow> 'c Raft \<Rightarrow> 'c Raft option" where
  "leaderSendEntries_next peer args reply rf =
     (if Success reply
      then do {
        let match = PrevLogIndex args + int (length (aeEntries args));
        let next = match + 1;
        oni \<leftarrow> idx (nextIndex rf) peer;
        ni \<leftarrow> idx_upd (nextIndex rf) peer (max_int oni next);
        omi \<leftarrow> idx (matchIndex rf) peer;
        mi \<leftarrow> idx_upd (matchIndex rf) peer (max_int omi match);
        Some (rf\<lparr>nextIndex := ni, matchIndex := mi\<rparr>)
      }
      else if Conflict reply
      then
        if XTerm reply = -1
        then do {
          ni \<leftarrow> idx_upd (nextIndex rf) peer (XLen reply);
          Some (rf\<lparr>nextIndex := ni\<rparr>)
        }
        else do {
          lastLogInXTerm \<leftarrow> findLastLogInTerm (XTerm reply) rf;
          ni \<leftarrow> idx_upd (nextIndex rf) peer
            (if lastLogInXTerm > 0 then lastLogInXTerm else XIndex reply);
          Some (rf\<lparr>nextIndex := ni\<rparr>)
        }
      else Some rf)"

definition leaderSendEntries ::
  "'c codec \<Rightarrow> bool \<Rightarrow> int \<Rightarrow> 'c AppendEntriesArgs \<Rightarrow> AppendEntriesReply \<Rightarrow> 'c Raft
     \<Rightarrow> ('c Raft \<times> 'c effect list) option" where
  "leaderSendEntries C ok peer args reply rf =
     (if \<not> ok then Some (rf, [])
      else if aerTerm reply > currentTerm rf then Some (setNewTerm C (aerTerm reply) rf, [])
      else if state rf = Leader
      then do {
        rf \<leftarrow> leaderSendEntries_next peer args reply rf;
        Commit rf
      }
      else Some (rf, []))"

section \<open>Replication, follower side (entry.go)\<close>

text \<open>The loop of \<open>AppendEntries\<close> that looks for the first index of the conflicting term.\<close>

fun conflict_loop :: "'c Log \<Rightarrow> int \<Rightarrow> nat \<Rightarrow> int \<Rightarrow> int option" where
  "conflict_loop l xTerm 0 xi = Some xi"
| "conflict_loop l xTerm (Suc k) xi = do {
     e \<leftarrow> log_at l (int (Suc k) - 1);
     if Term e \<noteq> xTerm then Some (int (Suc k)) else conflict_loop l xTerm k xi
   }"

text \<open>
  The loop of \<open>AppendEntries\<close> over \<open>args.Entries\<close>; \<open>drop_conflict\<close> is the first \<open>if\<close> of its body.
\<close>

definition drop_conflict :: "'c codec \<Rightarrow> 'c Entry \<Rightarrow> 'c Raft \<Rightarrow> 'c Raft option" where
  "drop_conflict C entry rf = do {
     lg \<leftarrow> LastLog (rlog rf);
     if Index entry \<le> Index lg
     then do {
       e \<leftarrow> log_at (rlog rf) (Index entry);
       if Term e \<noteq> Term entry
       then do {
         l \<leftarrow> log_truncate (rlog rf) (Index entry);
         Some (persist C (rf\<lparr>rlog := l\<rparr>))
       }
       else Some rf
     }
     else Some rf
   }"

fun entries_loop :: "'c codec \<Rightarrow> 'c Entry list \<Rightarrow> 'c Raft \<Rightarrow> 'c Raft option" where
  "entries_loop C [] rf = Some rf"
| "entries_loop C (entry # rest) rf = do {
     rf \<leftarrow> drop_conflict C entry rf;
     lg \<leftarrow> LastLog (rlog rf);
     if Index entry > Index lg
     then Some (persist C (rf\<lparr>rlog := log_append (rlog rf) (entry # rest)\<rparr>))
     else entries_loop C rest rf
   }"

definition AppendEntries_commit ::
  "'c AppendEntriesArgs \<Rightarrow> 'c Raft \<Rightarrow> ('c Raft \<times> 'c effect list) option" where
  "AppendEntries_commit args rf =
     (if LeaderCommit args > commitIndex rf
      then do {
        lg \<leftarrow> LastLog (rlog rf);
        Some (rf\<lparr>commitIndex := min_int (LeaderCommit args) (Index lg)\<rparr>, [Broadcast])
      }
      else Some (rf, []))"

text \<open>\<open>AppendEntries\<close> once the term has been checked and the timer reset: match, then store.\<close>

definition AppendEntries_body ::
  "'c codec \<Rightarrow> 'c AppendEntriesArgs \<Rightarrow> AppendEntriesReply \<Rightarrow> 'c Raft
     \<Rightarrow> ('c Raft \<times> AppendEntriesReply \<times> 'c effect list) option" where
  "AppendEntries_body C args reply rf = do {
     lg \<leftarrow> LastLog (rlog rf);
     if Index lg < PrevLogIndex args
     then Some (rf, reply\<lparr>Conflict := True, XTerm := -1, XIndex := -1, XLen := Len (rlog rf)\<rparr>, [])
     else do {
       prev \<leftarrow> log_at (rlog rf) (PrevLogIndex args);
       if Term prev \<noteq> PrevLogTerm args
       then do {
         xi \<leftarrow> conflict_loop (rlog rf) (Term prev) (nat (PrevLogIndex args)) (XIndex reply);
         Some (rf, reply\<lparr>Conflict := True, XIndex := xi, XTerm := Term prev,
                         XLen := Len (rlog rf)\<rparr>, [])
       }
       else do {
         rf \<leftarrow> entries_loop C (aeEntries args) rf;
         (rf, acts) \<leftarrow> AppendEntries_commit args rf;
         Some (rf, reply\<lparr>Success := True\<rparr>, acts)
       }
     }
   }"

definition AppendEntries ::
  "'c codec \<Rightarrow> clock \<Rightarrow> 'c AppendEntriesArgs \<Rightarrow> 'c Raft
     \<Rightarrow> ('c Raft \<times> AppendEntriesReply \<times> 'c effect list) option" where
  "AppendEntries C clk args rf =
     (let reply = \<lparr>aerTerm = currentTerm rf, Success = False, Conflict = False,
                   XTerm = 0, XIndex = 0, XLen = 0\<rparr> in
      if aeTerm args < currentTerm rf then Some (rf, reply, [])
      else
        let rf = (if aeTerm args > currentTerm rf then setNewTerm C (aeTerm args) rf else rf) in
        if PrevLogIndex args < Index0 (rlog rf) then Some (rf, reply, [])
        else
          let rf = (if state rf = Candidate then persist C (rf\<lparr>state := Follower\<rparr>) else rf);
              rf = (resetElectionTimer clk rf)\<lparr>LeaderID := LeaderId args\<rparr> in
          AppendEntries_body C args reply rf)"

definition InstallSnapShot ::
  "'c codec \<Rightarrow> SnapShotArgs \<Rightarrow> 'c Raft \<Rightarrow> 'c Raft \<times> SnapShotReply \<times> 'c effect list" where
  "InstallSnapShot C args rf =
     (let reply = \<lparr>ssrTerm = currentTerm rf\<rparr> in
      if ssTerm args < currentTerm rf then (rf, reply, [])
      else
        let rf = (if ssTerm args > currentTerm rf then setNewTerm C (ssTerm args) rf else rf);
            rf = persist C (rf\<lparr>state := Follower, votedFor := ssLeaderID args\<rparr>) in
        if LastIncludedIndex args \<le> Index0 (rlog rf) then (rf, reply, [])
        else (rf, reply,
          [SendApply \<lparr>CommandValid = False, amCommand = NilCmd, CommandIndex = 0,
             SnapshotValid = True, amSnapshot = ssSnapShot args,
             SnapshotTerm = LastIncludedTerm args, SnapshotIndex = LastIncludedIndex args\<rparr>]))"

section \<open>Snapshots and the service interface (raft.go)\<close>

definition CondInstallSnapshot ::
  "'c codec \<Rightarrow> int \<Rightarrow> int \<Rightarrow> bytes \<Rightarrow> 'c Raft \<Rightarrow> ('c Raft \<times> bool) option" where
  "CondInstallSnapshot C lastIncludedTerm lastIncludedIndex snap rf =
     (if lastIncludedIndex \<le> commitIndex rf then Some (rf, False)
      else do {
        lg \<leftarrow> LastLog (rlog rf);
        keep \<leftarrow> (if lastIncludedIndex \<le> Index lg
          then map_option (\<lambda>e. Term e = lastIncludedTerm) (log_at (rlog rf) lastIncludedIndex)
          else Some False);
        tmpLog \<leftarrow> (if keep then Tail (rlog rf) lastIncludedIndex
          else Some [\<lparr>Command = NilCmd, Term = lastIncludedTerm, Index = lastIncludedIndex\<rparr>]);
        let rf = rf\<lparr>rlog := \<lparr>Entries = tmpLog, Index0 = lastIncludedIndex\<rparr>,
                    persister := (persister rf)\<lparr>snapshot := snap\<rparr>,
                    lastApplied := lastIncludedIndex, commitIndex := lastIncludedIndex\<rparr>;
        Some (rf\<lparr>persister := SaveStateAndSnapshot (persistData C rf) snap (persister rf)\<rparr>, True)
      })"

definition Snapshot :: "'c codec \<Rightarrow> int \<Rightarrow> bytes \<Rightarrow> 'c Raft \<Rightarrow> 'c Raft option" where
  "Snapshot C index snap rf = do {
     lg \<leftarrow> LastLog (rlog rf);
     if index \<ge> Index lg \<or> index < Index0 (rlog rf) then Some rf
     else if index > commitIndex rf then Some rf
     else do {
       e \<leftarrow> log_at (rlog rf) index;
       let rf = rf\<lparr>LastIndex := index, LastTerm := Term e\<rparr>;
       tmpLog \<leftarrow> mapM (log_at (rlog rf)) [index..Index lg];
       let rf = persist C (rf\<lparr>rlog := \<lparr>Entries = tmpLog, Index0 = index\<rparr>\<rparr>);
       Some (rf\<lparr>persister := SaveStateAndSnapshot (persistData C rf) snap (persister rf)\<rparr>)
     }
   }"

definition Start ::
  "'c codec \<Rightarrow> clock \<Rightarrow> 'c \<Rightarrow> 'c Raft \<Rightarrow> ('c Raft \<times> (int \<times> int \<times> bool) \<times> 'c effect list) option" where
  "Start C clk command rf =
     (if state rf \<noteq> Leader then Some (rf, (-1, currentTerm rf, False), [])
      else do {
        lg \<leftarrow> LastLog (rlog rf);
        let entry = \<lparr>Command = Cmd command, Term = currentTerm rf, Index = Index lg + 1\<rparr>;
        let rf = persist C (rf\<lparr>rlog := log_append (rlog rf) [entry]\<rparr>);
        (rf, acts) \<leftarrow> appendEntries clk False rf;
        Some (rf, (Index entry, Term entry, True), acts)
      })"

definition Kill :: "'c Raft \<Rightarrow> 'c Raft" where
  "Kill rf = rf\<lparr>dead := 1\<rparr>"

definition killed :: "'c Raft \<Rightarrow> bool" where
  "killed rf \<longleftrightarrow> dead rf = 1"

text \<open>
  One round of \<open>ticker\<close>, after the sleep: \<open>clk\<close> is what \<open>appendEntries\<close> reads, \<open>clk'\<close> is read by
  the comparison with \<open>electionTime\<close> and by \<open>leaderElection\<close>. The result also says which election
  was started.
\<close>

definition ticker_body ::
  "'c codec \<Rightarrow> clock \<Rightarrow> clock \<Rightarrow> 'c Raft \<Rightarrow> ('c Raft \<times> election option \<times> 'c effect list) option" where
  "ticker_body C clk clk' rf = do {
     (rf, acts) \<leftarrow> (if state rf = Leader then appendEntries clk True rf else Some (rf, []));
     if now clk' > electionTime rf
     then do {
       (rf, el, acts') \<leftarrow> leaderElection C clk' rf;
       Some (rf, Some el, acts @ acts')
     }
     else Some (rf, None, acts)
   }"

definition Make :: "'c codec \<Rightarrow> clock \<Rightarrow> nat \<Rightarrow> int \<Rightarrow> Persister \<Rightarrow> 'c Raft option" where
  "Make C clk n self ps = do {
     let rf = \<lparr>peers = n, persister = ps, me = self, dead = 0, LeaderID = 0, LastIndex = 0,
               LastTerm = 0, state = Follower, currentTerm = 0, votedFor = -1,
               commitIndex = 0, lastApplied = 0, nextIndex = replicate n 0,
               matchIndex = replicate n 0,
               rlog = log_append makeEmptyLog [\<lparr>Command = IntCmd (-1), Term = 0, Index = 0\<rparr>],
               electionTime = 0, heartBeat = 50\<rparr>;
     readPersist C (ReadRaftState ps) (resetElectionTimer clk rf)
   }"

text \<open>
  One round of the loop of \<open>LoopCommit\<close>: either a message for \<open>applyCh\<close> or, as \<open>None\<close> in the
  second component, a wait on the condition variable.
\<close>

definition LoopCommit_body :: "'c Raft \<Rightarrow> ('c Raft \<times> 'c ApplyMsg option) option" where
  "LoopCommit_body rf =
     (if commitIndex rf > lastApplied rf
      then do {
        lg \<leftarrow> LastLog (rlog rf);
        if Index lg > lastApplied rf
        then do {
          let rf = rf\<lparr>lastApplied := lastApplied rf + 1\<rparr>;
          e \<leftarrow> log_at (rlog rf) (lastApplied rf);
          Some (rf, Some \<lparr>CommandValid = True, amCommand = Command e,
            CommandIndex = lastApplied rf, SnapshotValid = False, amSnapshot = [],
            SnapshotTerm = 0, SnapshotIndex = 0\<rparr>)
        }
        else Some (rf, None)
      }
      else Some (rf, None))"

text \<open>
  \<open>LoopCommit\<close> until it waits, with no other goroutine taking the lock in between; it also stops
  when the server was killed. The fuel bounds the rounds.
\<close>

fun LoopCommit :: "nat \<Rightarrow> 'c Raft \<Rightarrow> ('c Raft \<times> 'c ApplyMsg list) option" where
  "LoopCommit 0 rf = None"
| "LoopCommit (Suc fuel) rf =
     (if killed rf then Some (rf, [])
      else do {
        (rf', m) \<leftarrow> LoopCommit_body rf;
        case m of
          None \<Rightarrow> Some (rf', [])
        | Some msg \<Rightarrow> do {
            (rf'', ms) \<leftarrow> LoopCommit fuel rf';
            Some (rf'', msg # ms)
          }
      })"

end
