(* ===== verification/RaftNode.thy ===== *)
theory RaftNode
  imports Raft
begin

text \<open>
  One server as a machine. A \<open>call\<close> is anything that runs under \<open>rf.mu\<close>: an RPC handler, the part
  of a goroutine after its RPC returned, a round of \<open>ticker\<close> or \<open>LoopCommit\<close>, or a call by the
  service. \<open>exec\<close> runs one. The theory shows what every sequence of calls keeps: the persisted
  state is always the current one, so a restart loses nothing of it, terms never decrease, and a
  server that does not receive snapshots votes once per term.
\<close>

section \<open>Calls\<close>

datatype 'c call =
    CRequestVote clock RequestVoteArgs
  | CAppendEntries clock "'c AppendEntriesArgs"
  | CInstallSnapShot SnapShotArgs
  | CCandidateRequest clock bool RequestVoteArgs RequestVoteReply election
  | CLeaderSendEntries bool int "'c AppendEntriesArgs" AppendEntriesReply
  | CSendSnapshot bool SnapShotReply int
  | CTicker clock clock
  | CLoopCommit
  | CStart clock 'c
  | CSnapshot int bytes
  | CCondInstallSnapshot int int bytes
  | CKill

fun exec :: "'c codec \<Rightarrow> 'c call \<Rightarrow> 'c Raft \<Rightarrow> 'c Raft option" where
  "exec C (CRequestVote clk args) rf = map_option fst (RequestVote C clk args rf)"
| "exec C (CAppendEntries clk args) rf = map_option fst (AppendEntries C clk args rf)"
| "exec C (CInstallSnapShot args) rf = Some (fst (InstallSnapShot C args rf))"
| "exec C (CCandidateRequest clk ok args reply el) rf =
     map_option (fst \<circ> snd) (candidateRequest C clk ok args reply el rf)"
| "exec C (CLeaderSendEntries ok peer args reply) rf =
     map_option fst (leaderSendEntries C ok peer args reply rf)"
| "exec C (CSendSnapshot ok reply peer) rf = SendSnapshot_reply C ok reply peer rf"
| "exec C (CTicker clk clk') rf = map_option fst (ticker_body C clk clk' rf)"
| "exec C CLoopCommit rf = map_option fst (LoopCommit_body rf)"
| "exec C (CStart clk c) rf = map_option fst (Start C clk c rf)"
| "exec C (CSnapshot i snap) rf = Snapshot C i snap rf"
| "exec C (CCondInstallSnapshot t i snap) rf = map_option fst (CondInstallSnapshot C t i snap rf)"
| "exec C CKill rf = Some (Kill rf)"

text \<open>A crash and a restart: the new instance gets a copy of the persister.\<close>

definition restart :: "'c codec \<Rightarrow> clock \<Rightarrow> 'c Raft \<Rightarrow> 'c Raft option" where
  "restart C clk rf = Make C clk (peers rf) (me rf) (Persister_Copy (persister rf))"

section \<open>What the persister holds\<close>

abbreviation initial_log :: "'c Log" where
  "initial_log \<equiv> log_append makeEmptyLog [\<lparr>Command = IntCmd (-1), Term = 0, Index = 0\<rparr>]"

definition durable :: "'c codec \<Rightarrow> 'c Raft \<Rightarrow> bool" where
  "durable C rf \<longleftrightarrow>
     raftstate (persister rf) = [] \<and> currentTerm rf = 0 \<and> votedFor rf = -1 \<and> rlog rf = initial_log
     \<or> raftstate (persister rf) = persistData C rf"

text \<open>The parts of a server that \<open>durable\<close> reads.\<close>

definition core :: "'c Raft \<Rightarrow> int \<times> int \<times> 'c Log \<times> bytes" where
  "core rf = (currentTerm rf, votedFor rf, rlog rf, raftstate (persister rf))"

lemma durable_core: "core rf = core rf' \<Longrightarrow> durable C rf = durable C rf'"
  by (simp add: durable_def core_def persistData_def)

lemma persist_simps [simp]:
  "peers (persist C rf) = peers rf" "me (persist C rf) = me rf" "dead (persist C rf) = dead rf"
  "state (persist C rf) = state rf" "currentTerm (persist C rf) = currentTerm rf"
  "votedFor (persist C rf) = votedFor rf" "commitIndex (persist C rf) = commitIndex rf"
  "lastApplied (persist C rf) = lastApplied rf" "nextIndex (persist C rf) = nextIndex rf"
  "matchIndex (persist C rf) = matchIndex rf" "rlog (persist C rf) = rlog rf"
  "LastIndex (persist C rf) = LastIndex rf" "LastTerm (persist C rf) = LastTerm rf"
  "LeaderID (persist C rf) = LeaderID rf" "electionTime (persist C rf) = electionTime rf"
  "raftstate (persister (persist C rf)) = persistData C rf"
  "snapshot (persister (persist C rf)) = snapshot (persister rf)"
  "persistData C (persist C rf) = persistData C rf"
  by (simp_all add: persist_def persistData_def)

lemma resetElectionTimer_simps [simp]:
  "peers (resetElectionTimer k rf) = peers rf" "me (resetElectionTimer k rf) = me rf"
  "dead (resetElectionTimer k rf) = dead rf" "state (resetElectionTimer k rf) = state rf"
  "currentTerm (resetElectionTimer k rf) = currentTerm rf"
  "votedFor (resetElectionTimer k rf) = votedFor rf"
  "commitIndex (resetElectionTimer k rf) = commitIndex rf"
  "lastApplied (resetElectionTimer k rf) = lastApplied rf"
  "nextIndex (resetElectionTimer k rf) = nextIndex rf"
  "matchIndex (resetElectionTimer k rf) = matchIndex rf"
  "rlog (resetElectionTimer k rf) = rlog rf" "persister (resetElectionTimer k rf) = persister rf"
  "LastIndex (resetElectionTimer k rf) = LastIndex rf"
  "LastTerm (resetElectionTimer k rf) = LastTerm rf"
  "LeaderID (resetElectionTimer k rf) = LeaderID rf"
  by (simp_all add: resetElectionTimer_def)

lemma durable_persist [simp]: "durable C (persist C rf)"
  by (simp add: durable_def)

lemma core_resetElectionTimer [simp]: "core (resetElectionTimer k rf) = core rf"
  by (simp add: core_def)

lemma durable_resetElectionTimer [simp]: "durable C (resetElectionTimer k rf) = durable C rf"
  by (rule durable_core) simp

lemma durable_upd [simp]:
  "durable C (rf\<lparr>state := s\<rparr>) = durable C rf"
  "durable C (rf\<lparr>LeaderID := i\<rparr>) = durable C rf"
  "durable C (rf\<lparr>commitIndex := i\<rparr>) = durable C rf"
  "durable C (rf\<lparr>lastApplied := i\<rparr>) = durable C rf"
  "durable C (rf\<lparr>nextIndex := xs\<rparr>) = durable C rf"
  "durable C (rf\<lparr>matchIndex := xs\<rparr>) = durable C rf"
  "durable C (rf\<lparr>dead := i\<rparr>) = durable C rf"
  "durable C (rf\<lparr>LastIndex := i\<rparr>) = durable C rf"
  "durable C (rf\<lparr>LastTerm := i\<rparr>) = durable C rf"
  by (rule durable_core; simp add: core_def)+

lemma durable_setNewTerm [simp]: "durable C rf \<Longrightarrow> durable C (setNewTerm C t rf)"
  by (simp add: setNewTerm_def)

text \<open>Operations that touch neither the persisted fields nor the persister.\<close>

lemma appendEntries_loop_core:
  "appendEntries_loop k hb lg ps rf = Some (rf', acts) \<Longrightarrow>
     rf' = rf \<or> rf' = resetElectionTimer k rf"
proof (induction ps arbitrary: rf acts)
  case (Cons p ps)
  then show ?case
    by (auto simp: bind_eq_Some_conv resetElectionTimer_def split: if_splits) fastforce+
qed simp

lemma appendEntries_result:
  "appendEntries k hb rf = Some (rf', acts) \<Longrightarrow> rf' = rf \<or> rf' = resetElectionTimer k rf"
  by (auto simp: appendEntries_def bind_eq_Some_conv dest: appendEntries_loop_core)

lemma Commit_loop_result:
  "Commit_loop ns rf = Some (rf', acts) \<Longrightarrow> \<exists>n. rf' = rf\<lparr>commitIndex := n\<rparr>"
proof (induction ns arbitrary: rf acts)
  case Nil
  then show ?case by (auto intro: exI [of _ "commitIndex rf"])
next
  case (Cons n ns)
  then consider "Commit_loop ns rf = Some (rf', acts)"
    | acts' where "Commit_loop ns (rf\<lparr>commitIndex := n\<rparr>) = Some (rf', acts')"
    by (auto simp: bind_eq_Some_conv split: if_splits)
  then show ?case by cases (auto dest!: Cons.IH)
qed

lemma Commit_result: "Commit rf = Some (rf', acts) \<Longrightarrow> \<exists>n. rf' = rf\<lparr>commitIndex := n\<rparr>"
  by (auto simp: Commit_def bind_eq_Some_conv dest: Commit_loop_result
      intro: exI [of _ "commitIndex rf"] split: if_splits)

section \<open>Every call keeps the persisted state current\<close>

text \<open>
  One round of the loop over \<open>args.Entries\<close>: after the optional truncation the server is \<open>rf1\<close>;
  then either everything left is appended or the loop goes on.
\<close>

lemma drop_conflict_shape:
  "drop_conflict C e rf = Some rf1 \<Longrightarrow> rf1 = rf \<or> (\<exists>l. rf1 = persist C (rf\<lparr>rlog := l\<rparr>))"
  by (auto simp: drop_conflict_def bind_eq_Some_conv split: if_splits)

lemma entries_loop_ConsE:
  assumes "entries_loop C (e # es) rf = Some rf'"
  obtains (stop) rf1 where "drop_conflict C e rf = Some rf1"
      "rf' = persist C (rf1\<lparr>rlog := log_append (rlog rf1) (e # es)\<rparr>)"
  | (again) rf1 where "drop_conflict C e rf = Some rf1" "entries_loop C es rf1 = Some rf'"
  using assms by (auto simp: bind_eq_Some_conv split: if_splits)

text \<open>The loop writes the log and the persister, nothing else.\<close>

definition log_only :: "'c Raft \<Rightarrow> 'c Raft \<Rightarrow> bool" where
  "log_only rf rf' \<longleftrightarrow> (\<exists>l ps. rf' = rf\<lparr>rlog := l, persister := ps\<rparr>)"

lemma log_onlyI: "rf' = rf\<lparr>rlog := l, persister := ps\<rparr> \<Longrightarrow> log_only rf rf'"
  by (auto simp: log_only_def)

lemma log_only_refl: "log_only rf rf"
  by (rule log_onlyI [where l = "rlog rf" and ps = "persister rf"]) simp

lemma log_only_persist: "log_only rf (persist C (rf\<lparr>rlog := l\<rparr>))"
  by (rule log_onlyI) (simp add: persist_def)

lemma log_only_trans:
  assumes "log_only a b" and "log_only b c"
  shows "log_only a c"
proof -
  from assms obtain l ps l' ps' where
    "b = a\<lparr>rlog := l, persister := ps\<rparr>" and "c = b\<lparr>rlog := l', persister := ps'\<rparr>"
    unfolding log_only_def by blast
  then show ?thesis by (intro log_onlyI [where l = l' and ps = ps']) simp
qed

lemma drop_conflict_log_only: "drop_conflict C e rf = Some rf1 \<Longrightarrow> log_only rf rf1"
  by (auto dest!: drop_conflict_shape intro: log_only_refl log_only_persist)

lemma entries_loop_shape: "entries_loop C es rf = Some rf' \<Longrightarrow> log_only rf rf'"
proof (induction es arbitrary: rf)
  case Nil
  then show ?case by (simp add: log_only_refl)
next
  case (Cons e es)
  from Cons.prems show ?case
    by (cases rule: entries_loop_ConsE)
      (blast intro: log_only_trans log_only_persist drop_conflict_log_only Cons.IH)+
qed

lemma log_onlyD:
  assumes "log_only rf rf'"
  shows "peers rf' = peers rf" "me rf' = me rf" "dead rf' = dead rf" "state rf' = state rf"
    "currentTerm rf' = currentTerm rf" "votedFor rf' = votedFor rf"
    "commitIndex rf' = commitIndex rf" "lastApplied rf' = lastApplied rf"
    "nextIndex rf' = nextIndex rf" "matchIndex rf' = matchIndex rf"
  using assms by (auto simp: log_only_def)

lemma entries_loop_durable: "durable C rf \<Longrightarrow> entries_loop C es rf = Some rf' \<Longrightarrow> durable C rf'"
proof (induction es arbitrary: rf)
  case (Cons e es)
  from Cons.prems(2) show ?case
  proof (cases rule: entries_loop_ConsE)
    case (again rf1)
    from drop_conflict_shape [OF again(1)] Cons.prems(1) have "durable C rf1" by auto
    then show ?thesis using again(2) by (rule Cons.IH)
  qed simp
qed simp

lemma RequestVote_durable:
  "durable C rf \<Longrightarrow> RequestVote C k args rf = Some (rf', reply) \<Longrightarrow> durable C rf'"
  by (auto simp: RequestVote_def Let_def bind_eq_Some_conv split: if_splits)

lemma AppendEntries_body_durable:
  assumes "durable C rf" and "AppendEntries_body C args r rf = Some (rf', reply, acts)"
  shows "durable C rf'"
  using assms
  by (auto simp: AppendEntries_body_def AppendEntries_commit_def bind_eq_Some_conv
      dest: entries_loop_durable split: if_splits)

lemma AppendEntries_durable:
  assumes "durable C rf" and "AppendEntries C k args rf = Some (rf', reply, acts)"
  shows "durable C rf'"
  using assms
  by (auto simp: AppendEntries_def Let_def split: if_splits elim!: AppendEntries_body_durable [rotated])

lemma becomeLeader_do_durable: "becomeLeader_do C k rf = Some (rf', acts) \<Longrightarrow> durable C rf'"
  by (auto simp: becomeLeader_do_def Let_def bind_eq_Some_conv dest!: appendEntries_result)

lemma candidateRequest_durable:
  "durable C rf \<Longrightarrow> candidateRequest C k ok args reply el rf = Some (el', rf', acts) \<Longrightarrow> durable C rf'"
  by (auto simp: candidateRequest_def Let_def bind_eq_Some_conv dest: becomeLeader_do_durable
      split: if_splits)

lemma leaderSendEntries_next_shape:
  "leaderSendEntries_next p args reply rf = Some rf' \<Longrightarrow>
     rf' = rf\<lparr>nextIndex := nextIndex rf', matchIndex := matchIndex rf'\<rparr>"
  by (auto simp: leaderSendEntries_next_def Let_def bind_eq_Some_conv split: if_splits)

lemma leaderSendEntries_shape:
  assumes "leaderSendEntries C ok p args reply rf = Some (rf', acts)"
  obtains "rf' = rf" | "aerTerm reply > currentTerm rf" "rf' = setNewTerm C (aerTerm reply) rf"
  | ni mi n where "rf' = rf\<lparr>nextIndex := ni, matchIndex := mi, commitIndex := n\<rparr>"
proof (cases "ok \<and> \<not> aerTerm reply > currentTerm rf \<and> state rf = Leader")
  case True
  with assms obtain rf1 where "leaderSendEntries_next p args reply rf = Some rf1"
    and "Commit rf1 = Some (rf', acts)"
    by (auto simp: leaderSendEntries_def bind_eq_Some_conv)
  then obtain n ni mi where "rf' = rf1\<lparr>commitIndex := n\<rparr>"
    and "rf1 = rf\<lparr>nextIndex := ni, matchIndex := mi\<rparr>"
    using leaderSendEntries_next_shape Commit_result by blast
  then have "rf' = rf\<lparr>nextIndex := ni, matchIndex := mi, commitIndex := n\<rparr>"
    by simp
  then show thesis by (rule that(3))
next
  case False
  with assms have
    "rf' = rf \<or> aerTerm reply > currentTerm rf \<and> rf' = setNewTerm C (aerTerm reply) rf"
    by (simp add: leaderSendEntries_def split: if_splits)
  with that(1,2) show thesis by blast
qed

lemma leaderSendEntries_durable:
  "durable C rf \<Longrightarrow> leaderSendEntries C ok p args reply rf = Some (rf', acts) \<Longrightarrow> durable C rf'"
  by (erule leaderSendEntries_shape) auto

lemma leaderElection_durable: "leaderElection C k rf = Some (rf', el, acts) \<Longrightarrow> durable C rf'"
  by (auto simp: leaderElection_def Let_def bind_eq_Some_conv)

lemma ticker_body_durable:
  "durable C rf \<Longrightarrow> ticker_body C k k' rf = Some (rf', el, acts) \<Longrightarrow> durable C rf'"
  by (auto simp: ticker_body_def bind_eq_Some_conv dest!: appendEntries_result
      dest: leaderElection_durable split: if_splits)

lemma Start_durable: "durable C rf \<Longrightarrow> Start C k c rf = Some (rf', r, acts) \<Longrightarrow> durable C rf'"
  by (auto simp: Start_def Let_def bind_eq_Some_conv dest!: appendEntries_result split: if_splits)

lemma Snapshot_durable: "durable C rf \<Longrightarrow> Snapshot C i snap rf = Some rf' \<Longrightarrow> durable C rf'"
  by (auto simp: Snapshot_def Let_def bind_eq_Some_conv durable_def persistData_def split: if_splits)

lemma CondInstallSnapshot_durable:
  "durable C rf \<Longrightarrow> CondInstallSnapshot C t i snap rf = Some (rf', b) \<Longrightarrow> durable C rf'"
  by (auto simp: CondInstallSnapshot_def Let_def bind_eq_Some_conv durable_def persistData_def
      split: if_splits)

lemma LoopCommit_body_durable:
  "durable C rf \<Longrightarrow> LoopCommit_body rf = Some (rf', m) \<Longrightarrow> durable C rf'"
  by (auto simp: LoopCommit_body_def Let_def bind_eq_Some_conv split: if_splits)

lemma SendSnapshot_reply_durable:
  "durable C rf \<Longrightarrow> SendSnapshot_reply C ok reply p rf = Some rf' \<Longrightarrow> durable C rf'"
  by (auto simp: SendSnapshot_reply_def bind_eq_Some_conv split: if_splits)

lemma InstallSnapShot_durable: "durable C rf \<Longrightarrow> durable C (fst (InstallSnapShot C args rf))"
  by (simp add: InstallSnapShot_def Let_def)

lemmas handler_durable = RequestVote_durable AppendEntries_durable candidateRequest_durable
  leaderSendEntries_durable ticker_body_durable Start_durable Snapshot_durable
  CondInstallSnapshot_durable LoopCommit_body_durable SendSnapshot_reply_durable

lemma exec_durable: "durable C rf \<Longrightarrow> exec C x rf = Some rf' \<Longrightarrow> durable C rf'"
  by (cases x) (auto dest: handler_durable [rotated] simp: InstallSnapShot_durable Kill_def)

section \<open>Terms and votes\<close>

text \<open>
  \<open>later rf rf'\<close>: the term of \<open>rf'\<close> is not smaller, and the identity of the server is the same.
  \<open>vote_kept rf rf'\<close>: within one term a vote that was cast is not changed.
\<close>

definition later :: "'c Raft \<Rightarrow> 'c Raft \<Rightarrow> bool" where
  "later rf rf' \<longleftrightarrow> currentTerm rf \<le> currentTerm rf' \<and> me rf' = me rf \<and> peers rf' = peers rf"

definition vote_kept :: "'c Raft \<Rightarrow> 'c Raft \<Rightarrow> bool" where
  "vote_kept rf rf' \<longleftrightarrow>
     (currentTerm rf' = currentTerm rf \<longrightarrow> votedFor rf = -1 \<or> votedFor rf' = votedFor rf)"

definition same_vote :: "'c Raft \<Rightarrow> 'c Raft \<Rightarrow> bool" where
  "same_vote rf rf' \<longleftrightarrow> currentTerm rf' = currentTerm rf \<and> votedFor rf' = votedFor rf
     \<and> me rf' = me rf \<and> peers rf' = peers rf"

lemma same_vote_ok: "same_vote rf rf' \<Longrightarrow> later rf rf' \<and> vote_kept rf rf'"
  by (simp add: same_vote_def later_def vote_kept_def)

lemma entries_loop_same: "entries_loop C es rf = Some rf' \<Longrightarrow> same_vote rf rf' \<and> state rf' = state rf"
  by (simp add: same_vote_def log_onlyD [OF entries_loop_shape])

lemma AppendEntries_body_same:
  "AppendEntries_body C args r rf = Some (rf', reply, acts) \<Longrightarrow> same_vote rf rf' \<and> state rf' = state rf"
  by (auto simp: AppendEntries_body_def AppendEntries_commit_def bind_eq_Some_conv same_vote_def
      dest!: entries_loop_same split: if_splits)

lemma AppendEntries_later:
  "AppendEntries C k args rf = Some (rf', reply, acts) \<Longrightarrow> later rf rf' \<and> vote_kept rf rf'"
  by (auto simp: AppendEntries_def Let_def setNewTerm_def later_def vote_kept_def same_vote_def
      dest!: AppendEntries_body_same split: if_splits)

lemma RequestVote_later:
  "RequestVote C k args rf = Some (rf', reply) \<Longrightarrow> later rf rf' \<and> vote_kept rf rf'"
  by (auto simp: RequestVote_def Let_def setNewTerm_def bind_eq_Some_conv later_def vote_kept_def
      split: if_splits)

lemma becomeLeader_do_same:
  "becomeLeader_do C k rf = Some (rf', acts) \<Longrightarrow> same_vote rf rf' \<and> state rf' = Leader"
  by (auto simp: becomeLeader_do_def Let_def bind_eq_Some_conv same_vote_def
      dest!: appendEntries_result)

lemma candidateRequest_later:
  "candidateRequest C k ok args reply el rf = Some (el', rf', acts) \<Longrightarrow> later rf rf' \<and> vote_kept rf rf'"
  by (auto simp: candidateRequest_def Let_def setNewTerm_def bind_eq_Some_conv later_def vote_kept_def
      same_vote_def dest!: becomeLeader_do_same split: if_splits)

lemma leaderSendEntries_later:
  "leaderSendEntries C ok p args reply rf = Some (rf', acts) \<Longrightarrow> later rf rf' \<and> vote_kept rf rf'"
  by (erule leaderSendEntries_shape) (auto simp: later_def vote_kept_def setNewTerm_def)

lemma ticker_body_later:
  "ticker_body C k k' rf = Some (rf', el, acts) \<Longrightarrow> later rf rf' \<and> vote_kept rf rf'"
  by (auto simp: ticker_body_def leaderElection_def Let_def bind_eq_Some_conv later_def vote_kept_def
      dest!: appendEntries_result split: if_splits)

lemma Start_later: "Start C k c rf = Some (rf', r, acts) \<Longrightarrow> later rf rf' \<and> vote_kept rf rf'"
  by (auto simp: Start_def Let_def bind_eq_Some_conv later_def vote_kept_def
      dest!: appendEntries_result split: if_splits)

lemma Snapshot_later: "Snapshot C i snap rf = Some rf' \<Longrightarrow> later rf rf' \<and> vote_kept rf rf'"
  by (auto simp: Snapshot_def Let_def bind_eq_Some_conv later_def vote_kept_def split: if_splits)

lemma CondInstallSnapshot_later:
  "CondInstallSnapshot C t i snap rf = Some (rf', b) \<Longrightarrow> later rf rf' \<and> vote_kept rf rf'"
  by (auto simp: CondInstallSnapshot_def Let_def bind_eq_Some_conv later_def vote_kept_def
      split: if_splits)

lemma LoopCommit_body_later: "LoopCommit_body rf = Some (rf', m) \<Longrightarrow> later rf rf' \<and> vote_kept rf rf'"
  by (auto simp: LoopCommit_body_def Let_def bind_eq_Some_conv later_def vote_kept_def split: if_splits)

lemma SendSnapshot_reply_later:
  "SendSnapshot_reply C ok reply p rf = Some rf' \<Longrightarrow> later rf rf' \<and> vote_kept rf rf'"
  by (auto simp: SendSnapshot_reply_def setNewTerm_def bind_eq_Some_conv later_def vote_kept_def
      split: if_splits)

lemma InstallSnapShot_later: "later rf (fst (InstallSnapShot C args rf))"
  by (auto simp: InstallSnapShot_def Let_def setNewTerm_def later_def)

lemma Kill_later: "later rf (Kill rf)" "vote_kept rf (Kill rf)"
  by (simp_all add: Kill_def later_def vote_kept_def)

lemmas handler_later = RequestVote_later AppendEntries_later candidateRequest_later
  leaderSendEntries_later ticker_body_later Start_later Snapshot_later CondInstallSnapshot_later
  LoopCommit_body_later SendSnapshot_reply_later

fun is_snapshot_rpc :: "'c call \<Rightarrow> bool" where
  "is_snapshot_rpc (CInstallSnapShot args) = True"
| "is_snapshot_rpc x = False"

lemma exec_later: "exec C x rf = Some rf' \<Longrightarrow> later rf rf'"
  by (cases x) (auto dest: handler_later simp: InstallSnapShot_later Kill_later)

lemma exec_vote_kept: "exec C x rf = Some rf' \<Longrightarrow> \<not> is_snapshot_rpc x \<Longrightarrow> vote_kept rf rf'"
  by (cases x) (auto dest: handler_later simp: Kill_later)

interpretation server: ordered_machine "exec C" "durable C" later for C
proof unfold_locales
  show "later s s" for s :: "'a Raft" by (simp add: later_def)
  show "later s t \<Longrightarrow> later t u \<Longrightarrow> later s u" for s t u :: "'a Raft" by (simp add: later_def)
qed (auto intro: exec_durable exec_later)

text \<open>Terms follow a whole run even without the invariant.\<close>

lemma exec_run_later: "run (exec C) xs rf = Some rf' \<Longrightarrow> later rf rf'"
proof (induction xs arbitrary: rf)
  case (Cons x xs)
  then obtain rf1 where "exec C x rf = Some rf1" and "run (exec C) xs rf1 = Some rf'"
    by (auto simp: bind_eq_Some_conv)
  then show ?case using exec_later Cons.IH unfolding later_def by fastforce
qed (simp add: later_def)

end
