(* ===== verification/SampleCodec.thy ===== *)
theory SampleCodec
  imports Persister
begin

text \<open>
  A concrete codec for integer commands, to show that the promise \<open>codec_ok\<close> can be kept and to
  evaluate examples: integers in unary with a sign byte, sequences with their length in front.
\<close>

fun enc_nat :: "nat \<Rightarrow> bytes" where
  "enc_nat n = replicate n 1 @ [0]"

fun dec_nat :: "bytes \<Rightarrow> (nat \<times> bytes) option" where
  "dec_nat [] = None"
| "dec_nat (b # bs) =
     (if b = 0 then Some (0, bs) else do { (n, r) \<leftarrow> dec_nat bs; Some (Suc n, r) })"

definition enc_int :: "int \<Rightarrow> bytes" where
  "enc_int i = (if i < 0 then 1 else 0) # enc_nat (nat \<bar>i\<bar>)"

fun dec_int :: "bytes \<Rightarrow> (int \<times> bytes) option" where
  "dec_int [] = None"
| "dec_int (b # bs) = do { (n, r) \<leftarrow> dec_nat bs; Some (if b = 0 then int n else - int n, r) }"

fun enc_cmd :: "int command \<Rightarrow> bytes" where
  "enc_cmd NilCmd = [0]"
| "enc_cmd (IntCmd i) = 1 # enc_int i"
| "enc_cmd (Cmd i) = 2 # enc_int i"

fun dec_cmd :: "bytes \<Rightarrow> (int command \<times> bytes) option" where
  "dec_cmd [] = None"
| "dec_cmd (b # bs) =
     (if b = 0 then Some (NilCmd, bs)
      else do { (i, r) \<leftarrow> dec_int bs; Some (if b = 1 then IntCmd i else Cmd i, r) })"

definition enc_entry :: "int Entry \<Rightarrow> bytes" where
  "enc_entry e = enc_cmd (Command e) @ enc_int (Term e) @ enc_int (Index e)"

definition dec_entry :: "bytes \<Rightarrow> (int Entry \<times> bytes) option" where
  "dec_entry bs = do {
     (c, r) \<leftarrow> dec_cmd bs; (t, r) \<leftarrow> dec_int r; (i, r) \<leftarrow> dec_int r;
     Some (\<lparr>Command = c, Term = t, Index = i\<rparr>, r)
   }"

fun dec_many :: "(bytes \<Rightarrow> ('a \<times> bytes) option) \<Rightarrow> nat \<Rightarrow> bytes \<Rightarrow> ('a list \<times> bytes) option" where
  "dec_many d 0 bs = Some ([], bs)"
| "dec_many d (Suc n) bs = do { (x, r) \<leftarrow> d bs; (xs, r) \<leftarrow> dec_many d n r; Some (x # xs, r) }"

definition enc_list :: "('a \<Rightarrow> bytes) \<Rightarrow> 'a list \<Rightarrow> bytes" where
  "enc_list e xs = enc_nat (length xs) @ concat (map e xs)"

definition dec_list :: "(bytes \<Rightarrow> ('a \<times> bytes) option) \<Rightarrow> bytes \<Rightarrow> ('a list \<times> bytes) option" where
  "dec_list d bs = do { (n, r) \<leftarrow> dec_nat bs; dec_many d n r }"

fun enc_val :: "int gobval \<Rightarrow> bytes" where
  "enc_val (GInt i) = 0 # enc_int i"
| "enc_val (GLog l) = 1 # enc_int (Index0 l) @ enc_list enc_entry (Entries l)"

fun dec_val :: "bytes \<Rightarrow> (int gobval \<times> bytes) option" where
  "dec_val [] = None"
| "dec_val (b # bs) =
     (if b = 0 then do { (i, r) \<leftarrow> dec_int bs; Some (GInt i, r) }
      else do {
        (i, r) \<leftarrow> dec_int bs; (es, r) \<leftarrow> dec_list dec_entry r;
        Some (GLog \<lparr>Entries = es, Index0 = i\<rparr>, r)
      })"

definition sample_codec :: "int codec" where
  "sample_codec =
     \<lparr>gob = enc_list enc_val,
      ungob = (\<lambda>bs. case dec_list dec_val bs of Some (vs, _) \<Rightarrow> vs | None \<Rightarrow> [])\<rparr>"

lemma dec_enc_nat: "dec_nat (enc_nat n @ r) = Some (n, r)"
  by (induction n) auto

declare enc_nat.simps [simp del]

lemma dec_enc_int: "dec_int (enc_int i @ r) = Some (i, r)"
  by (auto simp: enc_int_def dec_enc_nat)

lemma dec_enc_cmd: "dec_cmd (enc_cmd c @ r) = Some (c, r)"
  by (cases c) (auto simp: dec_enc_int)

lemma dec_enc_entry: "dec_entry (enc_entry e @ r) = Some (e, r)"
  by (simp add: enc_entry_def dec_entry_def dec_enc_cmd dec_enc_int)

lemma dec_enc_many:
  "(\<And>x r. d (e x @ r) = Some (x, r)) \<Longrightarrow> dec_many d (length xs) (concat (map e xs) @ r) = Some (xs, r)"
  by (induction xs) auto

lemma dec_enc_list:
  "(\<And>x r. d (e x @ r) = Some (x, r)) \<Longrightarrow> dec_list d (enc_list e xs @ r) = Some (xs, r)"
  by (simp add: dec_list_def enc_list_def dec_enc_nat dec_enc_many)

lemma dec_enc_val: "dec_val (enc_val v @ r) = Some (v, r)"
proof (cases v)
  case (GLog l)
  then show ?thesis by (simp add: dec_enc_int dec_enc_list [OF dec_enc_entry])
qed (simp add: dec_enc_int)

lemma sample_codec_ok: "codec_ok sample_codec"
proof -
  have "dec_list dec_val (enc_list enc_val vs) = Some (vs, [])" for vs
    using dec_enc_list [of dec_val enc_val vs "[]", OF dec_enc_val] by simp
  then show ?thesis
    by (simp add: codec_ok_def sample_codec_def enc_list_def enc_nat.simps)
qed

end
