(* ===== verification/RaftSystem.thy ===== *)
theory RaftSystem
  imports RaftNode SampleCodec
begin

text \<open>
  A cluster of Raft servers that elect leaders. The state holds every server, the elections in
  progress with their shared counters, and the \<open>RequestVote\<close> RPCs in flight: \<open>rpcs (c, t, p)\<close> is
  the goroutine \<open>candidateRequest\<close> of the election that server \<open>c\<close> started for term \<open>t\<close>, for peer
  \<open>p\<close>. An RPC may be lost at any point and is executed at most once, as \<open>labrpc\<close> does. Every other
  call, with any arguments at all, may happen at any server at any time, and servers crash and
  restart from their persister.

  Two history variables, \<open>granted\<close> (votes cast: voter, term, candidate) and \<open>tallied\<close> (votes an
  election has counted), record what happened; no step reads them.
\<close>

section \<open>Steps\<close>

datatype vote_rpc = Sent RequestVoteArgs | Answered RequestVoteArgs RequestVoteReply

record 'c sys =
  nodes :: "int \<Rightarrow> 'c Raft"
  elections :: "int \<times> int \<Rightarrow> election option"
  rpcs :: "int \<times> int \<times> int \<Rightarrow> vote_rpc option"
  granted :: "(int \<times> int \<times> int) set"
  tallied :: "int \<times> int \<Rightarrow> int set"

text \<open>The \<open>candidateRequest\<close> goroutines that server \<open>i\<close> starts.\<close>

fun launch :: "int \<Rightarrow> 'c effect list \<Rightarrow> (int \<times> int \<times> int \<Rightarrow> vote_rpc option)
    \<Rightarrow> (int \<times> int \<times> int \<Rightarrow> vote_rpc option)" where
  "launch i [] R = R"
| "launch i (GoCandidateRequest p a # acts) R = launch i acts (R((i, rvTerm a, p) \<mapsto> Sent a))"
| "launch i (act # acts) R = launch i acts R"

text \<open>Calls that are not part of an election and not a snapshot RPC.\<close>

fun plain_call :: "'c call \<Rightarrow> bool" where
  "plain_call (CRequestVote k a) = False"
| "plain_call (CCandidateRequest k ok a r el) = False"
| "plain_call (CTicker k k') = False"
| "plain_call (CInstallSnapShot a) = False"
| "plain_call x = True"

inductive sys_step :: "'c codec \<Rightarrow> nat \<Rightarrow> 'c sys \<Rightarrow> 'c sys \<Rightarrow> bool" for C n where
  idle: "i \<in> peer_ids n \<Longrightarrow> ticker_body C k k' (nodes s i) = Some (rf, None, acts) \<Longrightarrow>
    sys_step C n s (s\<lparr>nodes := (nodes s)(i := rf)\<rparr>)"
| elect: "i \<in> peer_ids n \<Longrightarrow> ticker_body C k k' (nodes s i) = Some (rf, Some el, acts) \<Longrightarrow>
    sys_step C n s (s\<lparr>nodes := (nodes s)(i := rf),
      granted := insert (i, currentTerm rf, i) (granted s),
      elections := (elections s)((i, currentTerm rf) \<mapsto> el),
      rpcs := launch i acts (rpcs s),
      tallied := (tallied s)((i, currentTerm rf) := {i})\<rparr>)"
| request: "rpcs s (c, t, p) = Some (Sent a) \<Longrightarrow>
    RequestVote C k a (nodes s p) = Some (rf, reply) \<Longrightarrow>
    sys_step C n s (s\<lparr>nodes := (nodes s)(p := rf),
      granted := (if VoteGranted reply then insert (p, t, c) (granted s) else granted s),
      rpcs := (rpcs s)((c, t, p) \<mapsto> Answered a reply)\<rparr>)"
| answer: "rpcs s (c, t, p) = Some (Answered a reply) \<Longrightarrow> elections s (c, t) = Some el \<Longrightarrow>
    candidateRequest C k True a reply el (nodes s c) = Some (el', rf, acts) \<Longrightarrow>
    sys_step C n s (s\<lparr>nodes := (nodes s)(c := rf),
      elections := (elections s)((c, t) \<mapsto> el'),
      rpcs := (rpcs s)((c, t, p) := None),
      tallied := (tallied s)((c, t) :=
        (if VoteGranted reply then insert p (tallied s (c, t)) else tallied s (c, t)))\<rparr>)"
| lost: "sys_step C n s (s\<lparr>rpcs := (rpcs s)(x := None)\<rparr>)"
| other: "i \<in> peer_ids n \<Longrightarrow> plain_call x \<Longrightarrow> exec C x (nodes s i) = Some rf \<Longrightarrow>
    sys_step C n s (s\<lparr>nodes := (nodes s)(i := rf)\<rparr>)"
| crash: "i \<in> peer_ids n \<Longrightarrow> restart C k (nodes s i) = Some rf \<Longrightarrow>
    sys_step C n s (s\<lparr>nodes := (nodes s)(i := rf),
      elections := (\<lambda>x. if fst x = i then None else elections s x)\<rparr>)"

text \<open>All servers start from an empty persister.\<close>

definition sys_init :: "'c codec \<Rightarrow> nat \<Rightarrow> (int \<Rightarrow> clock) \<Rightarrow> 'c sys" where
  "sys_init C n k =
     \<lparr>nodes = (\<lambda>i. the (Make C (k i) n i MakePersister)), elections = (\<lambda>_. None),
      rpcs = (\<lambda>_. None), granted = {}, tallied = (\<lambda>_. {})\<rparr>"

inductive sys_reach :: "'c codec \<Rightarrow> nat \<Rightarrow> 'c sys \<Rightarrow> bool" for C n where
  start: "sys_reach C n (sys_init C n k)"
| step: "sys_reach C n s \<Longrightarrow> sys_step C n s s' \<Longrightarrow> sys_reach C n s'"

text \<open>The same steps as an executable scheduler.\<close>

datatype 'c sys_event =
    Tick int clock clock
  | Deliver int int int clock
  | Return int int int clock
  | Lose int int int
  | Do int "'c call"
  | CrashRestart int clock

fun sys_exec :: "'c codec \<Rightarrow> nat \<Rightarrow> 'c sys_event \<Rightarrow> 'c sys \<Rightarrow> 'c sys option" where
  "sys_exec C n (Tick i k k') s =
     (if i \<in> peer_ids n then do {
        (rf, e, acts) \<leftarrow> ticker_body C k k' (nodes s i);
        (case e of
           None \<Rightarrow> Some (s\<lparr>nodes := (nodes s)(i := rf)\<rparr>)
         | Some el \<Rightarrow> Some (s\<lparr>nodes := (nodes s)(i := rf),
             granted := insert (i, currentTerm rf, i) (granted s),
             elections := (elections s)((i, currentTerm rf) \<mapsto> el),
             rpcs := launch i acts (rpcs s),
             tallied := (tallied s)((i, currentTerm rf) := {i})\<rparr>))
      } else None)"
| "sys_exec C n (Deliver c t p k) s =
     (case rpcs s (c, t, p) of
        Some (Sent a) \<Rightarrow> do {
          (rf, reply) \<leftarrow> RequestVote C k a (nodes s p);
          Some (s\<lparr>nodes := (nodes s)(p := rf),
            granted := (if VoteGranted reply then insert (p, t, c) (granted s) else granted s),
            rpcs := (rpcs s)((c, t, p) \<mapsto> Answered a reply)\<rparr>)
        }
      | _ \<Rightarrow> None)"
| "sys_exec C n (Return c t p k) s =
     (case rpcs s (c, t, p) of
        Some (Answered a reply) \<Rightarrow> do {
          el \<leftarrow> elections s (c, t);
          (el', rf, acts) \<leftarrow> candidateRequest C k True a reply el (nodes s c);
          Some (s\<lparr>nodes := (nodes s)(c := rf),
            elections := (elections s)((c, t) \<mapsto> el'),
            rpcs := (rpcs s)((c, t, p) := None),
            tallied := (tallied s)((c, t) :=
              (if VoteGranted reply then insert p (tallied s (c, t)) else tallied s (c, t)))\<rparr>)
        }
      | _ \<Rightarrow> None)"
| "sys_exec C n (Lose c t p) s = Some (s\<lparr>rpcs := (rpcs s)((c, t, p) := None)\<rparr>)"
| "sys_exec C n (Do i x) s =
     (if i \<in> peer_ids n \<and> plain_call x then do {
        rf \<leftarrow> exec C x (nodes s i);
        Some (s\<lparr>nodes := (nodes s)(i := rf)\<rparr>)
      } else None)"
| "sys_exec C n (CrashRestart i k) s =
     (if i \<in> peer_ids n then do {
        rf \<leftarrow> restart C k (nodes s i);
        Some (s\<lparr>nodes := (nodes s)(i := rf),
          elections := (\<lambda>x. if fst x = i then None else elections s x)\<rparr>)
      } else None)"

lemma sys_exec_step: "sys_exec C n e s = Some s' \<Longrightarrow> sys_step C n s s'"
proof (cases e)
  case (Tick i k k')
  moreover assume "sys_exec C n e s = Some s'"
  ultimately obtain rf el acts where i: "i \<in> peer_ids n"
    and tick: "ticker_body C k k' (nodes s i) = Some (rf, el, acts)"
    and s': "(case el of
           None \<Rightarrow> Some (s\<lparr>nodes := (nodes s)(i := rf)\<rparr>)
         | Some el \<Rightarrow> Some (s\<lparr>nodes := (nodes s)(i := rf),
             granted := insert (i, currentTerm rf, i) (granted s),
             elections := (elections s)((i, currentTerm rf) \<mapsto> el),
             rpcs := launch i acts (rpcs s),
             tallied := (tallied s)((i, currentTerm rf) := {i})\<rparr>)) = Some s'"
    by (auto simp: bind_eq_Some_conv split: if_splits)
  then show ?thesis by (cases el) (auto intro: sys_step.idle sys_step.elect)
next
  case (Return c t p k)
  moreover assume "sys_exec C n e s = Some s'"
  ultimately obtain a reply el el' rf acts where
      "rpcs s (c, t, p) = Some (Answered a reply)" "elections s (c, t) = Some el"
      "candidateRequest C k True a reply el (nodes s c) = Some (el', rf, acts)"
    and s': "s' = s\<lparr>nodes := (nodes s)(c := rf), elections := (elections s)((c, t) \<mapsto> el'),
      rpcs := (rpcs s)((c, t, p) := None), tallied := (tallied s)((c, t) :=
        (if VoteGranted reply then insert p (tallied s (c, t)) else tallied s (c, t)))\<rparr>"
    by (auto simp: bind_eq_Some_conv split: option.splits vote_rpc.splits)
  then show ?thesis unfolding s' by (intro sys_step.answer)
next
  case (Deliver c t p k)
  moreover assume "sys_exec C n e s = Some s'"
  ultimately obtain a reply rf where
      "rpcs s (c, t, p) = Some (Sent a)" "RequestVote C k a (nodes s p) = Some (rf, reply)"
    and s': "s' = s\<lparr>nodes := (nodes s)(p := rf),
      granted := (if VoteGranted reply then insert (p, t, c) (granted s) else granted s),
      rpcs := (rpcs s)((c, t, p) \<mapsto> Answered a reply)\<rparr>"
    by (auto simp: bind_eq_Some_conv split: option.splits vote_rpc.splits)
  then show ?thesis unfolding s' by (intro sys_step.request)
qed (auto simp: bind_eq_Some_conv intro: sys_step.lost sys_step.other sys_step.crash
    split: if_splits)

lemma sys_run_reach: "sys_reach C n s \<Longrightarrow> run (sys_exec C n) es s = Some s' \<Longrightarrow> sys_reach C n s'"
proof (induction es arbitrary: s)
  case (Cons e es)
  then obtain t where "sys_exec C n e s = Some t" and t: "run (sys_exec C n) es t = Some s'"
    by (auto simp: bind_eq_Some_conv)
  then have "sys_reach C n t"
    using Cons.prems(1) by (blast intro: sys_reach.step sys_exec_step)
  then show ?case using t by (rule Cons.IH)
qed simp

section \<open>Leaders come from elections only\<close>

lemma appendEntries_state: "appendEntries k hb rf = Some (rf', acts) \<Longrightarrow> state rf' = state rf"
  by (auto dest!: appendEntries_result)

lemma AppendEntries_leader:
  "AppendEntries C k a rf = Some (rf', reply, acts) \<Longrightarrow> state rf' = Leader \<Longrightarrow>
     state rf = Leader \<and> currentTerm rf' = currentTerm rf"
  by (auto simp: AppendEntries_def Let_def setNewTerm_def same_vote_def
      dest!: AppendEntries_body_same split: if_splits)

lemma RequestVote_leader:
  "RequestVote C k a rf = Some (rf', reply) \<Longrightarrow> state rf' = Leader \<Longrightarrow>
     state rf = Leader \<and> currentTerm rf' = currentTerm rf"
  by (auto simp: RequestVote_def Let_def setNewTerm_def bind_eq_Some_conv split: if_splits)

lemma leaderSendEntries_leader:
  "leaderSendEntries C ok p a reply rf = Some (rf', acts) \<Longrightarrow> state rf' = Leader \<Longrightarrow>
     state rf = Leader \<and> currentTerm rf' = currentTerm rf"
  by (erule leaderSendEntries_shape) (auto simp: setNewTerm_def)

lemma SendSnapshot_reply_leader:
  "SendSnapshot_reply C ok reply p rf = Some rf' \<Longrightarrow> state rf' = Leader \<Longrightarrow>
     state rf = Leader \<and> currentTerm rf' = currentTerm rf"
  by (auto simp: SendSnapshot_reply_def setNewTerm_def bind_eq_Some_conv split: if_splits)

lemma Start_leader:
  "Start C k c rf = Some (rf', r, acts) \<Longrightarrow> state rf' = state rf \<and> currentTerm rf' = currentTerm rf"
  by (auto simp: Start_def Let_def bind_eq_Some_conv dest!: appendEntries_result split: if_splits)

lemma LoopCommit_body_leader:
  "LoopCommit_body rf = Some (rf', m) \<Longrightarrow> state rf' = state rf \<and> currentTerm rf' = currentTerm rf"
  by (auto simp: LoopCommit_body_def Let_def bind_eq_Some_conv split: if_splits)

lemma Snapshot_leader:
  "Snapshot C i snap rf = Some rf' \<Longrightarrow> state rf' = state rf \<and> currentTerm rf' = currentTerm rf"
  by (auto simp: Snapshot_def Let_def bind_eq_Some_conv split: if_splits)

lemma CondInstallSnapshot_leader:
  "CondInstallSnapshot C t i snap rf = Some (rf', b) \<Longrightarrow>
     state rf' = state rf \<and> currentTerm rf' = currentTerm rf"
  by (auto simp: CondInstallSnapshot_def Let_def bind_eq_Some_conv split: if_splits)

lemmas handler_leader = AppendEntries_leader leaderSendEntries_leader SendSnapshot_reply_leader
  Start_leader LoopCommit_body_leader Snapshot_leader CondInstallSnapshot_leader

lemma exec_leader:
  "exec C x rf = Some rf' \<Longrightarrow> plain_call x \<Longrightarrow> state rf' = Leader \<Longrightarrow>
     state rf = Leader \<and> currentTerm rf' = currentTerm rf"
  by (cases x) (auto dest: handler_leader simp: Kill_def)

lemma ticker_idle_leader:
  "ticker_body C k k' rf = Some (rf', None, acts) \<Longrightarrow> state rf' = Leader \<Longrightarrow>
     state rf = Leader \<and> currentTerm rf' = currentTerm rf"
  by (auto simp: ticker_body_def bind_eq_Some_conv dest!: appendEntries_result split: if_splits)

text \<open>What a started election looks like.\<close>

fun is_vote_request :: "'c effect \<Rightarrow> bool" where
  "is_vote_request (GoCandidateRequest p a) = True"
| "is_vote_request e = False"

lemma appendEntries_peer_acts:
  "appendEntries_peer hb lg p rf = Some acts \<Longrightarrow> \<forall>e\<in>set acts. \<not> is_vote_request e"
  by (auto simp: appendEntries_peer_def Let_def bind_eq_Some_conv split: if_splits)

lemma appendEntries_loop_acts:
  "appendEntries_loop k hb lg ps rf = Some (rf', acts) \<Longrightarrow> \<forall>e\<in>set acts. \<not> is_vote_request e"
proof (induction ps arbitrary: rf acts)
  case (Cons p ps)
  then show ?case
    by (auto simp: bind_eq_Some_conv dest!: appendEntries_peer_acts Cons.IH split: if_splits)
qed simp

lemma appendEntries_acts:
  "appendEntries k hb rf = Some (rf', acts) \<Longrightarrow> \<forall>e\<in>set acts. \<not> is_vote_request e"
  by (auto simp: appendEntries_def bind_eq_Some_conv dest: appendEntries_loop_acts)

lemma ticker_elect:
  assumes "ticker_body C k k' rf = Some (rf', Some el, acts)"
  obtains acts1 args where "currentTerm rf' = currentTerm rf + 1" "votedFor rf' = me rf"
    "state rf' = Candidate" "votecount el = 1"
    "rvTerm args = currentTerm rf'" "CandidateId args = me rf"
    "acts = acts1 @ [GoCandidateRequest p args. p \<leftarrow> peer_range rf, p \<noteq> me rf]"
    "\<forall>e\<in>set acts1. \<not> is_vote_request e"
proof -
  from assms obtain rf1 acts1 acts2 where
      r1: "(if state rf = Leader then appendEntries k True rf else Some (rf, [])) = Some (rf1, acts1)"
    and r2: "leaderElection C k' rf1 = Some (rf', el, acts2)" and acts: "acts = acts1 @ acts2"
    by (auto simp: ticker_body_def bind_eq_Some_conv split: if_splits)
  from r1 have same: "me rf1 = me rf" "currentTerm rf1 = currentTerm rf" "peers rf1 = peers rf"
    by (auto dest!: appendEntries_result split: if_splits)
  from r1 have none: "\<forall>e\<in>set acts1. \<not> is_vote_request e"
    by (auto dest!: appendEntries_acts split: if_splits)
  from r2 obtain args where "acts2 = [GoCandidateRequest p args. p \<leftarrow> peer_range rf1, p \<noteq> me rf1]"
      "rvTerm args = currentTerm rf'" "CandidateId args = me rf1"
      "currentTerm rf' = currentTerm rf1 + 1" "votedFor rf' = me rf1" "state rf' = Candidate"
      "votecount el = 1"
    by (auto simp: leaderElection_def Let_def bind_eq_Some_conv peer_range_def)
  with same none acts show thesis
    by (intro that [of args acts1]) (simp_all add: peer_range_def)
qed

lemma launch_none: "\<forall>e\<in>set acts. \<not> is_vote_request e \<Longrightarrow> launch i (acts @ acts') R = launch i acts' R"
proof (induction acts)
  case (Cons e acts)
  then show ?case by (cases e) auto
qed simp

lemma launch_requests:
  "launch i [GoCandidateRequest p a. p \<leftarrow> ps, P p] R =
     (\<lambda>x. if \<exists>p. x = (i, rvTerm a, p) \<and> p \<in> set ps \<and> P p then Some (Sent a) else R x)"
proof (induction ps arbitrary: R)
  case (Cons p ps)
  then show ?case by (auto intro!: ext)
qed simp

section \<open>The invariant\<close>

definition nodes_ok :: "'c codec \<Rightarrow> nat \<Rightarrow> 'c sys \<Rightarrow> bool" where
  "nodes_ok C n s \<longleftrightarrow>
     (\<forall>i \<in> peer_ids n. me (nodes s i) = i \<and> peers (nodes s i) = n \<and> durable C (nodes s i))"

text \<open>A vote that was cast binds the voter: it has moved on or still stands by it.\<close>

definition granted_ok :: "nat \<Rightarrow> 'c sys \<Rightarrow> bool" where
  "granted_ok n s \<longleftrightarrow>
     (\<forall>v t c. (v, t, c) \<in> granted s \<longrightarrow> v \<in> peer_ids n \<and> c \<in> peer_ids n \<and>
        (t < currentTerm (nodes s v) \<or> t = currentTerm (nodes s v) \<and> votedFor (nodes s v) = c))
     \<and> (\<forall>v t c d. (v, t, c) \<in> granted s \<longrightarrow> (v, t, d) \<in> granted s \<longrightarrow> c = d)"

fun rpc_args :: "vote_rpc \<Rightarrow> RequestVoteArgs" where
  "rpc_args (Sent a) = a"
| "rpc_args (Answered a r) = a"

definition rpcs_ok :: "nat \<Rightarrow> 'c sys \<Rightarrow> bool" where
  "rpcs_ok n s \<longleftrightarrow>
     (\<forall>c t p m. rpcs s (c, t, p) = Some m \<longrightarrow>
        c \<in> peer_ids n \<and> p \<in> peer_ids n \<and> p \<noteq> c \<and> t \<le> currentTerm (nodes s c) \<and>
        rvTerm (rpc_args m) = t \<and> CandidateId (rpc_args m) = c \<and>
        (\<forall>a r. m = Answered a r \<longrightarrow> VoteGranted r \<longrightarrow> (p, t, c) \<in> granted s))"

text \<open>An election counts distinct voters, each of which did vote for it.\<close>

definition elections_ok :: "nat \<Rightarrow> 'c sys \<Rightarrow> bool" where
  "elections_ok n s \<longleftrightarrow>
     (\<forall>c t el. elections s (c, t) = Some el \<longrightarrow>
        t \<le> currentTerm (nodes s c) \<and> votecount el = int (card (tallied s (c, t))) \<and>
        (\<forall>v \<in> tallied s (c, t). (v, t, c) \<in> granted s) \<and>
        (\<forall>p. rpcs s (c, t, p) \<noteq> None \<longrightarrow> p \<notin> tallied s (c, t)))"

definition leaders_ok :: "nat \<Rightarrow> 'c sys \<Rightarrow> bool" where
  "leaders_ok n s \<longleftrightarrow>
     (\<forall>i \<in> peer_ids n. state (nodes s i) = Leader \<longrightarrow>
        majority n {v. (v, currentTerm (nodes s i), i) \<in> granted s})"

definition sys_inv :: "'c codec \<Rightarrow> nat \<Rightarrow> 'c sys \<Rightarrow> bool" where
  "sys_inv C n s \<longleftrightarrow> nodes_ok C n s \<and> granted_ok n s \<and> rpcs_ok n s \<and> elections_ok n s \<and> leaders_ok n s"

lemmas sys_inv_defs = sys_inv_def nodes_ok_def granted_ok_def rpcs_ok_def elections_ok_def leaders_ok_def

lemma peer_ids_neg: "c \<in> peer_ids n \<Longrightarrow> c \<noteq> -1"
  by (simp add: peer_ids_def)

lemma majority_mono: "majority n Q \<Longrightarrow> Q \<subseteq> R \<Longrightarrow> R \<subseteq> peer_ids n \<Longrightarrow> majority n R"
  using card_mono [of R Q] finite_subset_peer_ids [of R n] by (auto simp: majority_def)

text \<open>
  One server takes a step that keeps its vote; it is leader afterwards only if it was leader of
  the same term or has a majority.
\<close>

lemma node_step:
  assumes inv: "sys_inv C n s" and i: "i \<in> peer_ids n"
    and rf: "later (nodes s i) rf" "vote_kept (nodes s i) rf" "durable C rf"
    and lead: "state rf = Leader \<Longrightarrow>
      state (nodes s i) = Leader \<and> currentTerm rf = currentTerm (nodes s i)
      \<or> majority n {v. (v, currentTerm rf, i) \<in> granted s}"
  shows "sys_inv C n (s\<lparr>nodes := (nodes s)(i := rf)\<rparr>)"
proof -
  let ?s = "s\<lparr>nodes := (nodes s)(i := rf)\<rparr>"
  have "nodes_ok C n ?s"
    using inv rf i by (simp add: sys_inv_def nodes_ok_def later_def)
  moreover have "granted_ok n ?s"
  proof -
    have "v \<in> peer_ids n \<and> c \<in> peer_ids n \<and>
        (t < currentTerm (nodes ?s v) \<or> t = currentTerm (nodes ?s v) \<and> votedFor (nodes ?s v) = c)"
      if g: "(v, t, c) \<in> granted s" for v t c
    proof -
      from inv g have old: "v \<in> peer_ids n" "c \<in> peer_ids n"
        "t < currentTerm (nodes s v) \<or> t = currentTerm (nodes s v) \<and> votedFor (nodes s v) = c"
        unfolding sys_inv_def granted_ok_def by blast+
      then show ?thesis
        using rf peer_ids_neg [OF old(2)] by (cases "v = i") (auto simp: later_def vote_kept_def)
    qed
    with inv show ?thesis by (simp add: sys_inv_def granted_ok_def)
  qed
  moreover have later: "t \<le> currentTerm (nodes s c) \<Longrightarrow> t \<le> currentTerm (nodes ?s c)" for c t
    using rf by (auto simp: later_def)
  have "rpcs_ok n ?s" and "elections_ok n ?s"
    using inv later by (simp_all add: sys_inv_def rpcs_ok_def elections_ok_def del: fun_upd_apply)
  moreover have "leaders_ok n ?s"
    using inv lead i by (auto simp: sys_inv_def leaders_ok_def)
  ultimately show ?thesis using \<open>rpcs_ok n ?s\<close> \<open>elections_ok n ?s\<close> by (simp add: sys_inv_def)
qed

text \<open>A server casts a vote.\<close>

lemma grant_step:
  assumes inv: "sys_inv C n s" and ids: "v \<in> peer_ids n" "c \<in> peer_ids n"
    and vote: "currentTerm (nodes s v) = t" "votedFor (nodes s v) = c"
  shows "sys_inv C n (s\<lparr>granted := insert (v, t, c) (granted s)\<rparr>)"
proof -
  let ?s = "s\<lparr>granted := insert (v, t, c) (granted s)\<rparr>"
  have "nodes_ok C n ?s" and "rpcs_ok n ?s" and "elections_ok n ?s"
    using inv by (auto simp: sys_inv_def nodes_ok_def rpcs_ok_def elections_ok_def)
  moreover have g: "granted_ok n ?s"
    using inv ids vote by (fastforce simp: sys_inv_def granted_ok_def)
  moreover have "leaders_ok n ?s"
    unfolding leaders_ok_def
  proof (intro ballI impI)
    fix i assume i: "i \<in> peer_ids n" "state (nodes ?s i) = Leader"
    then have "majority n {v. (v, currentTerm (nodes s i), i) \<in> granted s}"
      using inv by (simp add: sys_inv_def leaders_ok_def)
    then show "majority n {v. (v, currentTerm (nodes ?s i), i) \<in> granted ?s}"
      by (rule majority_mono) (use g in \<open>auto simp: granted_ok_def\<close>)
  qed
  ultimately show ?thesis by (simp add: sys_inv_def)
qed

text \<open>A server opens an election for a term it has just entered.\<close>

lemma open_step:
  assumes inv: "sys_inv C n s" and i: "i \<in> peer_ids n" and t: "currentTerm (nodes s i) = t"
    and fresh: "\<And>p. rpcs s (i, t, p) = None" and self: "(i, t, i) \<in> granted s"
    and el: "votecount el = 1" and args: "rvTerm a = t" "CandidateId a = i"
    and ps: "set ps \<subseteq> peer_ids n"
  shows "sys_inv C n (s\<lparr>elections := (elections s)((i, t) \<mapsto> el),
    rpcs := launch i [GoCandidateRequest p a. p \<leftarrow> ps, p \<noteq> i] (rpcs s),
    tallied := (tallied s)((i, t) := {i})\<rparr>)" (is "sys_inv C n ?s")
proof -
  have "nodes_ok C n ?s" and "granted_ok n ?s" and "leaders_ok n ?s"
    using inv by (simp_all add: sys_inv_def nodes_ok_def granted_ok_def leaders_ok_def)
  moreover have "rpcs_ok n ?s"
    using inv i t args ps unfolding sys_inv_def rpcs_ok_def
    by (auto simp: launch_requests split: if_splits)
  moreover have "elections_ok n ?s"
    using inv t self el args fresh unfolding sys_inv_def elections_ok_def
    by (auto simp: launch_requests split: if_splits)
  ultimately show ?thesis by (simp add: sys_inv_def)
qed

lemma elect_inv:
  assumes inv: "sys_inv C n s" and i: "i \<in> peer_ids n"
    and tick: "ticker_body C k k' (nodes s i) = Some (rf, Some el, acts)"
  shows "sys_inv C n (s\<lparr>nodes := (nodes s)(i := rf),
      granted := insert (i, currentTerm rf, i) (granted s),
      elections := (elections s)((i, currentTerm rf) \<mapsto> el), rpcs := launch i acts (rpcs s),
      tallied := (tallied s)((i, currentTerm rf) := {i})\<rparr>)"
proof -
  from inv i have node: "me (nodes s i) = i" "peers (nodes s i) = n" "durable C (nodes s i)"
    by (auto simp: sys_inv_def nodes_ok_def)
  from tick obtain acts1 a where t: "currentTerm rf = currentTerm (nodes s i) + 1"
    and rf: "votedFor rf = i" "state rf = Candidate" and el: "votecount el = 1"
    and a: "rvTerm a = currentTerm rf" "CandidateId a = i"
    and acts: "acts = acts1 @ [GoCandidateRequest p a. p \<leftarrow> peer_range (nodes s i), p \<noteq> i]"
    and acts1: "\<forall>e\<in>set acts1. \<not> is_vote_request e"
    using node by (elim ticker_elect) auto
  let ?s1 = "s\<lparr>nodes := (nodes s)(i := rf)\<rparr>"
  let ?s2 = "?s1\<lparr>granted := insert (i, currentTerm rf, i) (granted ?s1)\<rparr>"
  have "sys_inv C n ?s1"
    using inv i by (rule node_step)
      (use tick node rf in \<open>auto dest: ticker_body_later ticker_body_durable\<close>)
  then have s2: "sys_inv C n ?s2"
    by (rule grant_step) (use i rf in simp_all)
  have fresh: "rpcs ?s2 (i, currentTerm rf, p) = None" for p
  proof (rule ccontr)
    assume "rpcs ?s2 (i, currentTerm rf, p) \<noteq> None"
    then have "currentTerm rf \<le> currentTerm (nodes s i)"
      using inv unfolding sys_inv_def rpcs_ok_def by auto
    with t show False by simp
  qed
  have "set (peer_range (nodes s i)) \<subseteq> peer_ids n"
    using node by (auto simp: peer_range_def peer_ids_def)
  from open_step [OF s2 i _ fresh _ el a this] show ?thesis
    by (simp add: acts launch_none [OF acts1])
qed

lemma RequestVote_grant:
  assumes "RequestVote C k a rf = Some (rf', reply)" and "VoteGranted reply"
  shows "currentTerm rf' = rvTerm a" "votedFor rf' = CandidateId a"
  using assms by (auto simp: RequestVote_def Let_def setNewTerm_def bind_eq_Some_conv split: if_splits)

text \<open>An RPC is answered; an answer is counted; an RPC disappears.\<close>

lemma rpc_step:
  assumes inv: "sys_inv C n s" and rpc: "rpcs s (c, t, p) = Some (Sent a)"
    and vote: "VoteGranted reply \<Longrightarrow> (p, t, c) \<in> granted s"
  shows "sys_inv C n (s\<lparr>rpcs := (rpcs s)((c, t, p) \<mapsto> Answered a reply)\<rparr>)" (is "sys_inv C n ?s")
proof -
  have ok: "rpcs_ok n s" using inv by (simp add: sys_inv_def)
  then have old: "c \<in> peer_ids n \<and> p \<in> peer_ids n \<and> p \<noteq> c \<and> t \<le> currentTerm (nodes s c)
      \<and> rvTerm a = t \<and> CandidateId a = c"
    using rpc unfolding rpcs_ok_def by (metis rpc_args.simps(1))
  have "rpcs_ok n ?s"
    using ok old vote unfolding rpcs_ok_def by simp
  moreover have "elections_ok n ?s"
    using inv rpc unfolding sys_inv_def elections_ok_def by auto
  ultimately show ?thesis
    using inv by (simp add: sys_inv_def nodes_ok_def granted_ok_def leaders_ok_def)
qed

lemma tally_step:
  assumes inv: "sys_inv C n s" and el: "elections s (c, t) = Some el"
    and count: "votecount el' = int (card T)" and T: "T \<subseteq> {v. (v, t, c) \<in> granted s}"
    and sub: "T \<subseteq> insert p (tallied s (c, t))"
  shows "sys_inv C n (s\<lparr>elections := (elections s)((c, t) \<mapsto> el'),
    rpcs := (rpcs s)((c, t, p) := None), tallied := (tallied s)((c, t) := T)\<rparr>)" (is "sys_inv C n ?s")
proof -
  have "rpcs_ok n ?s"
    using inv unfolding sys_inv_def rpcs_ok_def by auto
  moreover have "elections_ok n ?s"
    using inv el count T sub unfolding sys_inv_def elections_ok_def by auto
  ultimately show ?thesis
    using inv by (simp add: sys_inv_def nodes_ok_def granted_ok_def leaders_ok_def)
qed

lemma lost_step: "sys_inv C n s \<Longrightarrow> sys_inv C n (s\<lparr>rpcs := (rpcs s)(x := None)\<rparr>)"
  unfolding sys_inv_defs by (cases x) auto

lemma request_inv:
  assumes inv: "sys_inv C n s" and rpc: "rpcs s (c, t, p) = Some (Sent a)"
    and rv: "RequestVote C k a (nodes s p) = Some (rf, reply)"
  shows "sys_inv C n (s\<lparr>nodes := (nodes s)(p := rf),
      granted := (if VoteGranted reply then insert (p, t, c) (granted s) else granted s),
      rpcs := (rpcs s)((c, t, p) \<mapsto> Answered a reply)\<rparr>)"
    (is "sys_inv C n ?s")
proof -
  from inv rpc have ids: "c \<in> peer_ids n" "p \<in> peer_ids n" "rvTerm a = t" "CandidateId a = c"
    unfolding sys_inv_def rpcs_ok_def by fastforce+
  let ?s1 = "s\<lparr>nodes := (nodes s)(p := rf)\<rparr>"
  let ?s2 = "?s1\<lparr>granted := (if VoteGranted reply then insert (p, t, c) (granted ?s1) else granted ?s1)\<rparr>"
  have "sys_inv C n ?s1"
    using inv ids(2) by (rule node_step)
      (use rv inv ids in \<open>auto dest: RequestVote_later RequestVote_durable RequestVote_leader
        simp: sys_inv_def nodes_ok_def\<close>)
  then have s2: "sys_inv C n ?s2"
    using grant_step [of C n ?s1 p c t] RequestVote_grant [OF rv] ids by auto
  have "sys_inv C n (?s2\<lparr>rpcs := (rpcs ?s2)((c, t, p) \<mapsto> Answered a reply)\<rparr>)"
    using s2 by (rule rpc_step) (use rpc in auto)
  then show ?thesis by (cases "VoteGranted reply") simp_all
qed

lemma candidateRequest_cases:
  assumes "candidateRequest C k True a reply el rf = Some (el', rf', acts)"
  shows "votecount el' = votecount el + (if VoteGranted reply then 1 else 0)"
    and "state rf' = Leader \<Longrightarrow> state rf = Leader \<and> currentTerm rf' = currentTerm rf
      \<or> VoteGranted reply \<and> currentTerm rf' = rvTerm a \<and> int (peers rf) < 2 * votecount el'"
  using assms
  by (auto simp: candidateRequest_def Let_def setNewTerm_def bind_eq_Some_conv same_vote_def
      dest!: becomeLeader_do_same split: if_splits)

lemma answer_inv:
  assumes inv: "sys_inv C n s" and rpc: "rpcs s (c, t, p) = Some (Answered a reply)"
    and el: "elections s (c, t) = Some el"
    and cr: "candidateRequest C k True a reply el (nodes s c) = Some (el', rf, acts)"
  shows "sys_inv C n (s\<lparr>nodes := (nodes s)(c := rf), elections := (elections s)((c, t) \<mapsto> el'),
      rpcs := (rpcs s)((c, t, p) := None), tallied := (tallied s)((c, t) :=
        (if VoteGranted reply then insert p (tallied s (c, t)) else tallied s (c, t)))\<rparr>)"
    (is "sys_inv C n ?s")
proof -
  from inv rpc have ids: "c \<in> peer_ids n" "p \<in> peer_ids n" "rvTerm a = t"
    and vote: "VoteGranted reply \<Longrightarrow> (p, t, c) \<in> granted s"
    unfolding sys_inv_def rpcs_ok_def by fastforce+
  from inv el rpc have tally: "votecount el = int (card (tallied s (c, t)))"
      "\<forall>v \<in> tallied s (c, t). (v, t, c) \<in> granted s" "p \<notin> tallied s (c, t)"
    unfolding sys_inv_def elections_ok_def by blast+
  from inv have voters: "{v. (v, t, c) \<in> granted s} \<subseteq> peer_ids n"
    by (auto simp: sys_inv_def granted_ok_def)
  with tally(2) have fin: "finite (tallied s (c, t))"
    by (meson Ball_Collect finite_subset_peer_ids order_trans)
  let ?T = "if VoteGranted reply then insert p (tallied s (c, t)) else tallied s (c, t)"
  have count: "votecount el' = int (card ?T)" and T: "?T \<subseteq> {v. (v, t, c) \<in> granted s}"
    using candidateRequest_cases(1) [OF cr] tally fin vote by auto
  have n: "peers (nodes s c) = n" "durable C (nodes s c)"
    using inv ids by (auto simp: sys_inv_def nodes_ok_def)
  have maj: "majority n {v. (v, t, c) \<in> granted s}" if "int n < 2 * votecount el'"
  proof -
    have "card ?T \<le> card {v. (v, t, c) \<in> granted s}"
      by (intro card_mono T finite_subset_peer_ids [OF voters])
    with that count voters show ?thesis by (simp add: majority_def)
  qed
  let ?s1 = "s\<lparr>nodes := (nodes s)(c := rf)\<rparr>"
  have s1: "sys_inv C n ?s1"
    using maj candidateRequest_cases(2) [OF cr] n ids candidateRequest_later [OF cr]
      candidateRequest_durable [OF n(2) cr]
    by (intro node_step [OF inv ids(1)]) auto
  have "sys_inv C n (?s1\<lparr>elections := (elections ?s1)((c, t) \<mapsto> el'),
      rpcs := (rpcs ?s1)((c, t, p) := None), tallied := (tallied ?s1)((c, t) := ?T)\<rparr>)"
    using s1 by (rule tally_step) (use el count T in auto)
  then show ?thesis by simp
qed

lemma restart_durable:
  assumes "codec_ok C" and "durable C rf"
  obtains rf' where "restart C k rf = Some rf'" "currentTerm rf' = currentTerm rf"
    "votedFor rf' = votedFor rf" "rlog rf' = rlog rf" "persister rf' = persister rf"
    "state rf' = Follower" "lastApplied rf' = Index0 (rlog rf)" "commitIndex rf' = Index0 (rlog rf)"
    "me rf' = me rf" "peers rf' = peers rf" "LastIndex rf' = 0" "LastTerm rf' = 0"
    "nextIndex rf' = replicate (peers rf) 0" "matchIndex rf' = replicate (peers rf) 0"
  using assms
  by (auto simp: restart_def Make_def durable_def readPersist_def Let_def ReadRaftState_def
      persistData_def codec_okD makeEmptyLog_def log_append_def)

lemma close_step:
  "sys_inv C n s \<Longrightarrow>
     sys_inv C n (s\<lparr>elections := (\<lambda>x. if fst x = i then None else elections s x)\<rparr>)"
  by (auto simp: sys_inv_defs split: if_splits)

lemma crash_inv:
  assumes ok: "codec_ok C" and inv: "sys_inv C n s" and i: "i \<in> peer_ids n"
    and rf: "restart C k (nodes s i) = Some rf"
  shows "sys_inv C n (s\<lparr>nodes := (nodes s)(i := rf),
      elections := (\<lambda>x. if fst x = i then None else elections s x)\<rparr>)"
proof -
  from inv i have "durable C (nodes s i)" by (simp add: sys_inv_def nodes_ok_def)
  with ok rf have same: "currentTerm rf = currentTerm (nodes s i)" "votedFor rf = votedFor (nodes s i)"
    "state rf = Follower" "me rf = me (nodes s i)" "peers rf = peers (nodes s i)"
    "core rf = core (nodes s i)"
    by (auto elim!: restart_durable [where k = k] simp: core_def)
  have "sys_inv C n (s\<lparr>nodes := (nodes s)(i := rf)\<rparr>)"
    using inv i by (rule node_step)
      (use same \<open>durable C (nodes s i)\<close> durable_core [OF same(6)] in
        \<open>auto simp: later_def vote_kept_def\<close>)
  from close_step [OF this, of i] show ?thesis by (simp cong: if_cong)
qed

lemma sys_inv_durable: "sys_inv C n s \<Longrightarrow> i \<in> peer_ids n \<Longrightarrow> durable C (nodes s i)"
  by (simp add: sys_inv_def nodes_ok_def)

lemma plain_not_snapshot: "plain_call x \<Longrightarrow> \<not> is_snapshot_rpc x"
  by (cases x) auto

lemma sys_step_inv:
  assumes ok: "codec_ok C" and step: "sys_step C n s s'" and inv: "sys_inv C n s"
  shows "sys_inv C n s'"
  using step
proof (cases rule: sys_step.cases)
  case (idle i k k' rf acts)
  show ?thesis
    unfolding idle(1) using inv idle(2)
    by (rule node_step) (use idle sys_inv_durable [OF inv] in
        \<open>auto dest: ticker_body_later ticker_body_durable ticker_idle_leader\<close>)
next
  case (other i x rf)
  have "vote_kept (nodes s i) rf"
    using other(3,4) by (auto intro: exec_vote_kept dest: plain_not_snapshot)
  then show ?thesis
    unfolding other(1) using inv other(2)
    by (intro node_step) (use other sys_inv_durable [OF inv] in
        \<open>auto dest: exec_later exec_durable exec_leader\<close>)
next
  case (elect i k k' rf el acts)
  show ?thesis unfolding elect(1) using inv elect(2,3) by (rule elect_inv)
next
  case (request c t p a k rf reply)
  show ?thesis unfolding request(1) using inv request(2,3) by (rule request_inv)
next
  case (answer c t p a reply el k el' rf acts)
  show ?thesis unfolding answer(1) using inv answer(2,3,4) by (rule answer_inv)
next
  case (lost x)
  show ?thesis unfolding lost using inv by (rule lost_step)
next
  case (crash i k rf)
  show ?thesis unfolding crash(1) using ok inv crash(2,3) by (rule crash_inv)
qed

lemma Make_fresh:
  "\<exists>rf. Make C k n i MakePersister = Some rf \<and> me rf = i \<and> peers rf = n \<and> state rf = Follower
     \<and> currentTerm rf = 0 \<and> votedFor rf = -1 \<and> rlog rf = initial_log \<and> durable C rf"
  by (simp add: Make_def Let_def readPersist_def ReadRaftState_def MakePersister_def durable_def)

lemma sys_init_inv: "sys_inv C n (sys_init C n k)"
proof -
  have "me (the (Make C (k i) n i MakePersister)) = i \<and> peers (the (Make C (k i) n i MakePersister)) = n
     \<and> state (the (Make C (k i) n i MakePersister)) = Follower
     \<and> durable C (the (Make C (k i) n i MakePersister))" for i
    using Make_fresh [of C "k i" n i] by auto
  then show ?thesis by (simp add: sys_inv_defs sys_init_def)
qed

lemma sys_reach_inv: "sys_reach C n s \<Longrightarrow> codec_ok C \<Longrightarrow> sys_inv C n s"
  by (induction rule: sys_reach.induct) (auto intro: sys_init_inv sys_step_inv)

text \<open>
  C1. Election safety. In every reachable state of a cluster, after any sequence of timeouts,
  deliveries, losses, crashes, restarts and other calls (log replication with arbitrary arguments
  included, the snapshot RPC excluded), two servers that both believe to be leader of the same
  term are the same server.
\<close>

theorem election_safety:
  assumes "codec_ok C" and "sys_reach C n s" and "i \<in> peer_ids n" and "j \<in> peer_ids n"
    and "GetState (nodes s i) = (t, True)" and "GetState (nodes s j) = (t, True)"
  shows "i = j"
proof -
  from assms have inv: "sys_inv C n s" by (auto intro: sys_reach_inv)
  show ?thesis
  proof (rule maj.one_winner)
    show "majority n {v. (v, t, i) \<in> granted s}" and "majority n {v. (v, t, j) \<in> granted s}"
      using inv assms by (auto simp: sys_inv_def leaders_ok_def GetState_def)
    show "c = d" if "(v, t, c) \<in> granted s" "(v, t, d) \<in> granted s" for v c d
      using inv that unfolding sys_inv_def granted_ok_def by blast
  qed
qed

text \<open>
  The hypotheses can hold: server 0 of three servers times out, server 1 votes for it, and it
  leads term 1.
\<close>

definition sample_clock :: clock where
  "sample_clock = \<lparr>now = 1000, rnd = 7\<rparr>"

definition sample_election :: "int sys option" where
  "sample_election = run (sys_exec sample_codec 3)
     [Tick 0 sample_clock sample_clock, Deliver 0 1 1 sample_clock, Return 0 1 1 sample_clock]
     (sys_init sample_codec 3 (\<lambda>_. \<lparr>now = 0, rnd = 0\<rparr>))"

lemma sample_election_leader:
  "map_option (\<lambda>s. GetState (nodes s 0)) sample_election = Some (1, True)"
  by code_simp

theorem election_safety_witness:
  "\<exists>s. sys_reach sample_codec 3 s \<and> GetState (nodes s 0) = (1, True)
     \<and> (\<forall>j \<in> peer_ids 3. GetState (nodes s j) = (1, True) \<longrightarrow> j = 0)"
proof -
  from sample_election_leader obtain s where s: "sample_election = Some s"
    and lead: "GetState (nodes s 0) = (1, True)"
    by auto
  from s have "sys_reach sample_codec 3 s"
    unfolding sample_election_def by (rule sys_run_reach [OF sys_reach.start])
  moreover have "(0::int) \<in> peer_ids 3" by (simp add: peer_ids_def)
  ultimately show ?thesis
    using lead election_safety [OF sample_codec_ok] by blast
qed

end
