(* ===== verification/RaftReplication.thy ===== *)
theory RaftReplication
  imports RaftNode SampleCodec
begin

text \<open>
  What the RPC handler \<open>AppendEntries\<close> does to the log of a follower. The specification
  \<open>merge_terms\<close> walks along the stored and the received entries while their terms agree, keeps the
  stored ones, and at the first difference or at the end of the log continues with the received
  ones. The loop of the code, which truncates, appends and breaks in place, computes exactly this.
\<close>

section \<open>Specification\<close>

fun merge_terms :: "'c Entry list \<Rightarrow> 'c Entry list \<Rightarrow> 'c Entry list" where
  "merge_terms [] new = new"
| "merge_terms old [] = old"
| "merge_terms (x # old) (e # new) =
     (if Term x = Term e then x # merge_terms old new else e # new)"

text \<open>The entries of a log after receiving \<open>new\<close> for the indices from \<open>i\<close> on.\<close>

definition receive :: "'c Log \<Rightarrow> int \<Rightarrow> 'c Entry list \<Rightarrow> 'c Log" where
  "receive l i new =
     l\<lparr>Entries := take (nat (i - Index0 l)) (Entries l)
        @ merge_terms (drop (nat (i - Index0 l)) (Entries l)) new\<rparr>"

section \<open>The specification keeps logs well-formed\<close>

lemma merge_terms_Nil2 [simp]: "merge_terms old [] = old"
  by (cases old) auto

lemma length_merge_terms: "length new \<le> length (merge_terms old new)"
  by (induction old new rule: merge_terms.induct) auto

lemma wf_merge_terms: "wf_entries i old \<Longrightarrow> wf_entries i new \<Longrightarrow> wf_entries i (merge_terms old new)"
  by (induction old new arbitrary: i rule: merge_terms.induct) auto

lemma wf_receive:
  assumes wf: "wf_log l" and i: "Index0 l < i" "i \<le> Len l" and new: "wf_entries i new"
  shows "wf_log (receive l i new)"
proof -
  let ?k = "nat (i - Index0 l)"
  have k: "?k \<le> length (Entries l)" "?k \<noteq> 0" "Index0 l + int ?k = i"
    using i by (auto simp: Len_def)
  have "wf_entries i (drop ?k (Entries l))"
    using wf_entries_drop [of "Index0 l" "Entries l" ?k] wf k by (simp add: wf_log_def)
  then have "wf_entries i (merge_terms (drop ?k (Entries l)) new)"
    using new by (rule wf_merge_terms)
  with wf k show ?thesis
    by (auto simp: wf_log_def receive_def wf_entries_append wf_entries_take min_def)
qed

lemma Index0_receive [simp]: "Index0 (receive l i new) = Index0 l"
  by (simp add: receive_def)

lemma receive_Nil [simp]: "receive l i [] = l"
  by (simp add: receive_def)

text \<open>Below \<open>i\<close> nothing changes; every received entry's term is in the log afterwards.\<close>

lemma log_at_receive_below:
  "j < i \<Longrightarrow> i \<le> Len l \<Longrightarrow> Index0 l \<le> i \<Longrightarrow> log_at (receive l i new) j = log_at l j"
  by (auto simp: log_at_def receive_def idx_def Len_def nth_append)

lemma merge_terms_agree: "k < length new \<Longrightarrow> Term (merge_terms old new ! k) = Term (new ! k)"
  by (induction old new arbitrary: k rule: merge_terms.induct) (auto simp: nth_Cons split: nat.splits)

lemma log_at_receive_new:
  assumes "k < length new" and "Index0 l \<le> i" and "i \<le> Len l"
  shows "\<exists>e. log_at (receive l i new) (i + int k) = Some e \<and> Term e = Term (new ! k)"
proof -
  have "k < length (merge_terms (drop (nat (i - Index0 l)) (Entries l)) new)"
    using assms(1) length_merge_terms less_le_trans by blast
  moreover have "nat (i + int k - Index0 l) = nat (i - Index0 l) + k"
    using assms(2) by simp
  ultimately show ?thesis
    using assms merge_terms_agree [OF assms(1)]
    by (auto simp: log_at_def receive_def idx_def Len_def nth_append)
qed

lemma merge_terms_self [simp]: "merge_terms new new = new"
  by (induction new) auto

lemma merge_terms_idem: "merge_terms (merge_terms old new) new = merge_terms old new"
  by (induction old new rule: merge_terms.induct) auto

section \<open>The loop computes it\<close>

text \<open>One round: the stored entry agrees, conflicts, or is missing.\<close>

lemma drop_conflict_wf:
  assumes wf: "wf_log l" and l: "rlog rf = l" and k: "0 < k" "k \<le> length (Entries l)"
    and e: "Index e = Index0 l + int k"
  shows "drop_conflict C e rf =
    (case drop k (Entries l) of
       [] \<Rightarrow> Some rf
     | x # _ \<Rightarrow> if Term x = Term e then Some rf
        else Some (persist C (rf\<lparr>rlog := l\<lparr>Entries := take k (Entries l)\<rparr>\<rparr>)))"
proof (cases "k = length (Entries l)")
  case True
  then show ?thesis
    using wf l e by (simp add: drop_conflict_def LastLog_wf Index_last Len_def)
next
  case False
  with k have "drop k (Entries l) = Entries l ! k # drop (Suc k) (Entries l)"
    by (simp add: Cons_nth_drop_Suc)
  moreover have "log_at l (Index e) = Some (Entries l ! k)"
    using False e k by (simp add: log_at_def)
  moreover have "log_truncate l (Index e) = Some (l\<lparr>Entries := take k (Entries l)\<rparr>)"
    using e k by (simp add: log_truncate_Some_iff Len_def)
  ultimately show ?thesis
    using wf l False e k by (simp add: drop_conflict_def LastLog_wf Index_last Len_def)
qed

lemma LastLog_take:
  "0 < k \<Longrightarrow> k \<le> length (Entries l) \<Longrightarrow> wf_log l \<Longrightarrow>
     \<exists>x. LastLog (l\<lparr>Entries := take k (Entries l)\<rparr>) = Some x \<and> Index x = Index0 l + int k - 1"
  by (auto simp: LastLog_last last_conv_nth wf_log_def wf_entries_def)

lemma entries_loop_merge:
  assumes "wf_log l" and "rlog rf = l" and "0 < k" and "k \<le> length (Entries l)"
    and "wf_entries (Index0 l + int k) new"
  shows "\<exists>rf'. entries_loop C new rf = Some rf' \<and>
    rlog rf' = l\<lparr>Entries := take k (Entries l) @ merge_terms (drop k (Entries l)) new\<rparr>"
  using assms
proof (induction new arbitrary: k)
  case Nil
  then show ?case by simp
next
  case (Cons e new)
  from Cons.prems have e: "Index e = Index0 l + int k" by simp
  note step = drop_conflict_wf [OF Cons.prems(1-4) e, of C]
  show ?case
  proof (cases "drop k (Entries l)")
    case Nil
    with Cons.prems have "k = length (Entries l)" by simp
    with Nil Cons.prems e show ?thesis
      by (simp add: step LastLog_wf Index_last Len_def log_append_def)
  next
    case (Cons x rest)
    then have k: "k < length (Entries l)" by (cases "k < length (Entries l)") auto
    from Cons Cons_nth_drop_Suc [OF k] have x: "Entries l ! k = x" and rest: "drop (Suc k) (Entries l) = rest"
      by simp_all
    show ?thesis
    proof (cases "Term x = Term e")
      case True
      with Cons have loop: "entries_loop C (e # new) rf = entries_loop C new rf"
        using Cons.prems e k by (simp add: step LastLog_wf Index_last Len_def)
      have "wf_entries (Index0 l + int (Suc k)) new"
        using Cons.prems(5) by (simp add: algebra_simps)
      from Cons.IH [OF Cons.prems(1,2) _ _ this] k show ?thesis
        using True Cons x rest by (auto simp: loop take_Suc_conv_app_nth simp del: entries_loop.simps)
    next
      case False
      with Cons LastLog_take [OF Cons.prems(3,4,1)] show ?thesis
        using Cons.prems e by (auto simp: step log_append_def)
    qed
  qed
qed

lemma entries_loop_receive:
  assumes "wf_log (rlog rf)" and "wf_entries i new" and "Index0 (rlog rf) < i" and "i \<le> Len (rlog rf)"
  shows "\<exists>rf'. entries_loop C new rf = Some rf' \<and> rlog rf' = receive (rlog rf) i new"
  using entries_loop_merge [OF assms(1) refl, of "nat (i - Index0 (rlog rf))" new C] assms
  by (auto simp: receive_def Len_def)

section \<open>The handler\<close>

text \<open>
  The state in which \<open>AppendEntries\<close> looks at the log: the term is that of the message, the server
  is no candidate any more, and the log is untouched.
\<close>

definition ae_ready :: "'c codec \<Rightarrow> clock \<Rightarrow> 'c AppendEntriesArgs \<Rightarrow> 'c Raft \<Rightarrow> 'c Raft" where
  "ae_ready C clk args rf =
     (let rf = (if aeTerm args > currentTerm rf then setNewTerm C (aeTerm args) rf else rf);
          rf = (if state rf = Candidate then persist C (rf\<lparr>state := Follower\<rparr>) else rf)
      in (resetElectionTimer clk rf)\<lparr>LeaderID := LeaderId args\<rparr>)"

lemma ae_ready_simps [simp]:
  "rlog (ae_ready C k args rf) = rlog rf" "commitIndex (ae_ready C k args rf) = commitIndex rf"
  "lastApplied (ae_ready C k args rf) = lastApplied rf" "peers (ae_ready C k args rf) = peers rf"
  "nextIndex (ae_ready C k args rf) = nextIndex rf" "matchIndex (ae_ready C k args rf) = matchIndex rf"
  "me (ae_ready C k args rf) = me rf"
  by (simp_all add: ae_ready_def Let_def setNewTerm_def)

lemma ae_ready_term:
  "currentTerm rf \<le> aeTerm args \<Longrightarrow> currentTerm (ae_ready C k args rf) = aeTerm args"
  by (simp add: ae_ready_def Let_def setNewTerm_def)

abbreviation ae_reply0 :: "'c Raft \<Rightarrow> AppendEntriesReply" where
  "ae_reply0 rf \<equiv> \<lparr>aerTerm = currentTerm rf, Success = False, Conflict = False,
     XTerm = 0, XIndex = 0, XLen = 0\<rparr>"

lemma AppendEntries_ready:
  assumes "currentTerm rf \<le> aeTerm args" and "Index0 (rlog rf) \<le> PrevLogIndex args"
  shows "AppendEntries C k args rf = AppendEntries_body C args (ae_reply0 rf) (ae_ready C k args rf)"
  using assms by (simp add: AppendEntries_def ae_ready_def Let_def setNewTerm_def)

lemma receive_idem:
  "Index0 l < i \<Longrightarrow> i \<le> Len l \<Longrightarrow> receive (receive l i new) i new = receive l i new"
  by (auto simp: receive_def Len_def merge_terms_idem min_def)

lemma AppendEntries_refinement:
  assumes wf: "wf_log (rlog rf)" and trm: "currentTerm rf \<le> aeTerm args"
    and prev: "log_at (rlog rf) (PrevLogIndex args) = Some p" "Term p = PrevLogTerm args"
    and new: "wf_entries (PrevLogIndex args + 1) (aeEntries args)"
  shows "\<exists>rf' reply acts. AppendEntries C k args rf = Some (rf', reply, acts) \<and> Success reply
    \<and> currentTerm rf' = aeTerm args
    \<and> rlog rf' = receive (rlog rf) (PrevLogIndex args + 1) (aeEntries args)
    \<and> commitIndex rf' = (if LeaderCommit args > commitIndex rf
        then min (LeaderCommit args) (last_index (rlog rf')) else commitIndex rf)"
proof -
  let ?rf = "ae_ready C k args rf"
  from log_at_wf [OF wf prev(1)] have i: "Index0 (rlog rf) \<le> PrevLogIndex args"
    "PrevLogIndex args \<le> last_index (rlog rf)" by auto
  obtain rf1 where loop: "entries_loop C (aeEntries args) ?rf = Some rf1"
    and log: "rlog rf1 = receive (rlog rf) (PrevLogIndex args + 1) (aeEntries args)"
    using entries_loop_receive [of ?rf "PrevLogIndex args + 1" "aeEntries args" C] wf new i by auto
  note same = log_onlyD [OF entries_loop_shape [OF loop]]
  have wf1: "wf_log (rlog rf1)"
    unfolding log using wf new i by (intro wf_receive) auto
  show ?thesis
    using wf i prev loop wf1 same ae_ready_term [OF trm] log
    by (auto simp: AppendEntries_ready [OF trm i(1)] AppendEntries_body_def AppendEntries_commit_def
        LastLog_wf Index_last min_int_def)
qed

text \<open>
  C4. Replication refines its specification. A follower that accepts an \<open>AppendEntries\<close> message (its
  term is not behind, and the entry before the new ones is in the log with the announced term)
  replies success; its log becomes \<open>receive\<close> of the old log, which agrees with the message at every
  index of the message and with the old log before it; and its commit index becomes the smaller of
  the leader's and the index of its last entry if that is an advance.
\<close>

theorem AppendEntries_refines:
  assumes wf: "wf_log (rlog rf)" and trm: "currentTerm rf \<le> aeTerm args"
    and prev: "log_at (rlog rf) (PrevLogIndex args) = Some p" "Term p = PrevLogTerm args"
    and new: "wf_entries (PrevLogIndex args + 1) (aeEntries args)"
  shows "\<exists>rf' reply acts. AppendEntries C k args rf = Some (rf', reply, acts) \<and> Success reply
    \<and> currentTerm rf' = aeTerm args
    \<and> rlog rf' = receive (rlog rf) (PrevLogIndex args + 1) (aeEntries args)
    \<and> (\<forall>m < length (aeEntries args). \<exists>e. log_at (rlog rf') (PrevLogIndex args + 1 + int m) = Some e
          \<and> Term e = Term (aeEntries args ! m))
    \<and> (\<forall>j \<le> PrevLogIndex args. log_at (rlog rf') j = log_at (rlog rf) j)
    \<and> commitIndex rf' = (if LeaderCommit args > commitIndex rf
        then min (LeaderCommit args) (last_index (rlog rf')) else commitIndex rf)"
proof -
  from log_at_wf [OF wf prev(1)] have i: "Index0 (rlog rf) \<le> PrevLogIndex args + 1"
    "PrevLogIndex args + 1 \<le> Len (rlog rf)" by auto
  from AppendEntries_refinement [OF assms, of C k] show ?thesis
    using log_at_receive_new [OF _ i] log_at_receive_below [OF _ i(2,1)] by fastforce
qed

text \<open>
  C5. Duplicated and delayed messages are harmless: a follower that accepted a message and gets the
  same message again accepts it again and changes neither its log nor its commit index.
\<close>

theorem AppendEntries_redelivery:
  assumes wf: "wf_log (rlog rf)" and trm: "currentTerm rf \<le> aeTerm args"
    and prev: "log_at (rlog rf) (PrevLogIndex args) = Some p" "Term p = PrevLogTerm args"
    and new: "wf_entries (PrevLogIndex args + 1) (aeEntries args)"
    and once: "AppendEntries C k args rf = Some (rf', reply, acts)"
  shows "\<exists>rf'' reply' acts'. AppendEntries C k' args rf' = Some (rf'', reply', acts') \<and> Success reply'
    \<and> rlog rf'' = rlog rf' \<and> commitIndex rf'' = commitIndex rf'"
proof -
  let ?i = "PrevLogIndex args + 1"
  from AppendEntries_refinement [OF wf trm prev new, of C k] once
  have log: "rlog rf' = receive (rlog rf) ?i (aeEntries args)" and t: "currentTerm rf' = aeTerm args"
    and commit: "commitIndex rf' = (if LeaderCommit args > commitIndex rf
        then min (LeaderCommit args) (last_index (rlog rf')) else commitIndex rf)"
    by auto
  from log_at_wf [OF wf prev(1)] have i: "Index0 (rlog rf) < ?i" "?i \<le> Len (rlog rf)" by auto
  have "wf_log (rlog rf')" unfolding log using wf i new by (rule wf_receive)
  moreover have "log_at (rlog rf') (PrevLogIndex args) = Some p"
    unfolding log using i prev(1) by (simp add: log_at_receive_below)
  ultimately obtain rf'' reply' acts' where
      "AppendEntries C k' args rf' = Some (rf'', reply', acts')" "Success reply'"
      "rlog rf'' = receive (rlog rf') ?i (aeEntries args)"
      "commitIndex rf'' = (if LeaderCommit args > commitIndex rf'
        then min (LeaderCommit args) (last_index (rlog rf'')) else commitIndex rf')"
    using AppendEntries_refinement [of rf' args p C k'] prev(2) new t by auto
  moreover have "receive (rlog rf') ?i (aeEntries args) = rlog rf'"
    unfolding log using i by (rule receive_idem)
  ultimately show ?thesis using commit by auto
qed

section \<open>Rejections\<close>

lemma conflict_loop_panics:
  assumes "0 < Index0 l" and "Index0 l \<le> int m"
    and "\<And>i. Index0 l \<le> int i \<Longrightarrow> i < m \<Longrightarrow> \<exists>e. log_at l (int i) = Some e \<and> Term e = x"
  shows "conflict_loop l x m xi = None"
  using assms
proof (induction m)
  case (Suc m)
  show ?case
  proof (cases "Index0 l \<le> int m")
    case True
    with Suc.prems(3) [of m] obtain e where "log_at l (int m) = Some e" "Term e = x" by auto
    with Suc.IH [OF Suc.prems(1) True] Suc.prems(3) show ?thesis by simp
  next
    case False
    then have "log_at l (int m) = None" by (simp add: log_at_def idx_def)
    then show ?thesis by simp
  qed
qed simp

lemma conflict_loop_run:
  "conflict_loop l x m 0 = Some xi \<Longrightarrow> 0 \<le> xi \<and> xi \<le> int m
     \<and> (\<forall>i. xi \<le> i \<and> i < int m \<longrightarrow> (\<exists>e. log_at l i = Some e \<and> Term e = x))
     \<and> (xi = 0 \<or> (\<exists>d. log_at l (xi - 1) = Some d \<and> Term d \<noteq> x))"
proof (induction m)
  case (Suc m)
  then obtain e where e: "log_at l (int m) = Some e" by (auto simp: bind_eq_Some_conv)
  show ?case
  proof (cases "Term e = x")
    case True
    then have IH: "0 \<le> xi \<and> xi \<le> int m \<and> (\<forall>i. xi \<le> i \<and> i < int m \<longrightarrow> (\<exists>e. log_at l i = Some e \<and> Term e = x))
        \<and> (xi = 0 \<or> (\<exists>d. log_at l (xi - 1) = Some d \<and> Term d \<noteq> x))"
      using Suc e by simp
    have "\<exists>e. log_at l i = Some e \<and> Term e = x" if "xi \<le> i" "i < int (Suc m)" for i
      using IH that e True by (cases "i = int m") auto
    then show ?thesis using IH by auto
  next
    case False
    then show ?thesis using Suc.prems e by auto
  qed
qed auto


text \<open>
  C7. Once a snapshot has trimmed the log (\<open>Index0\<close> is positive), the same search runs past the
  beginning of the log: if every entry the follower still holds up to \<open>PrevLogIndex\<close> has the
  conflicting term, the handler panics with an index out of range.
\<close>

theorem AppendEntries_conflict_panics:
  assumes wf: "wf_log (rlog rf)" and trm: "currentTerm rf \<le> aeTerm args"
    and trimmed: "0 < Index0 (rlog rf)"
    and prev: "log_at (rlog rf) (PrevLogIndex args) = Some p" "Term p \<noteq> PrevLogTerm args"
    and same: "\<And>i e. i < PrevLogIndex args \<Longrightarrow> log_at (rlog rf) i = Some e \<Longrightarrow> Term e = Term p"
  shows "AppendEntries C k args rf = None"
proof -
  let ?l = "rlog rf"
  from log_at_wf [OF wf prev(1)] have i: "Index0 ?l \<le> PrevLogIndex args"
    "PrevLogIndex args \<le> last_index ?l" by auto
  have "conflict_loop ?l (Term p) (nat (PrevLogIndex args)) 0 = None"
  proof (rule conflict_loop_panics)
    fix m assume m: "Index0 ?l \<le> int m" "m < nat (PrevLogIndex args)"
    then have "Index0 ?l \<le> int m" and "int m \<le> last_index ?l" using i by linarith+
    then obtain e where "log_at ?l (int m) = Some e"
      using log_at_Some by blast
    with same [of "int m"] m show "\<exists>e. log_at ?l (int m) = Some e \<and> Term e = Term p" by auto
  qed (use i trimmed in auto)
  then show ?thesis
    using wf i prev by (simp add: AppendEntries_ready [OF trm i(1)] AppendEntries_body_def LastLog_wf
        Index_last)
qed

section \<open>Examples\<close>

text \<open>A server of three in term \<open>t\<close> whose log holds entries of the terms \<open>ts\<close> from index \<open>i\<close> on.\<close>

definition ex_entries :: "int \<Rightarrow> int list \<Rightarrow> int Entry list" where
  "ex_entries i ts =
     map (\<lambda>(k, t). \<lparr>Command = Cmd t, Term = t, Index = i + int k\<rparr>) (zip [0..<length ts] ts)"

definition ex_server :: "int \<Rightarrow> int \<Rightarrow> int list \<Rightarrow> int Raft" where
  "ex_server t i ts = \<lparr>peers = 3, persister = MakePersister, me = 1, dead = 0, LeaderID = 0,
     LastIndex = 0, LastTerm = 0, state = Follower, currentTerm = t, votedFor = -1,
     commitIndex = i, lastApplied = i, nextIndex = [0, 0, 0], matchIndex = [0, 0, 0],
     rlog = \<lparr>Entries = ex_entries i ts, Index0 = i\<rparr>, electionTime = 0, heartBeat = 50\<rparr>"

definition ex_append :: "int \<Rightarrow> int \<Rightarrow> int \<Rightarrow> int list \<Rightarrow> int AppendEntriesArgs" where
  "ex_append t prev prevt ts = \<lparr>aeTerm = t, LeaderId = 0, PrevLogIndex = prev, PrevLogTerm = prevt,
     aeEntries = ex_entries (prev + 1) ts, LeaderCommit = 2\<rparr>"

definition ex_clock :: clock where
  "ex_clock = \<lparr>now = 1000, rnd = 7\<rparr>"

lemmas ex_defs = ex_entries_def ex_server_def ex_append_def ex_clock_def upt_rec

lemma ex_log_at:
  "log_at (rlog (ex_server t i ts)) j =
     (if i \<le> j \<and> j < i + int (length ts) then Some \<lparr>Command = Cmd (ts ! nat (j - i)),
        Term = ts ! nat (j - i), Index = j\<rparr> else None)"
  by (auto simp: ex_server_def ex_entries_def log_at_def idx_def)

theorem AppendEntries_refines_witness:
  "\<exists>rf' reply acts. AppendEntries sample_codec ex_clock (ex_append 2 1 1 [2, 2]) (ex_server 1 0 [0, 1, 1])
       = Some (rf', reply, acts) \<and> Success reply \<and> currentTerm rf' = 2
     \<and> map Term (Entries (rlog rf')) = [0, 1, 2, 2] \<and> commitIndex rf' = 2"
proof -
  have "wf_log (rlog (ex_server 1 0 [0, 1, 1]))"
    and "wf_entries (PrevLogIndex (ex_append 2 1 1 [2, 2]) + 1) (aeEntries (ex_append 2 1 1 [2, 2]))"
    by (simp_all add: ex_defs wf_log_def)
  then show ?thesis
    using AppendEntries_refines [of "ex_server 1 0 [0, 1, 1]" "ex_append 2 1 1 [2, 2]"
        "\<lparr>Command = Cmd 1, Term = 1, Index = 1\<rparr>" sample_codec ex_clock]
    by (auto simp: ex_defs log_at_def idx_def receive_def Len_def)
qed

theorem AppendEntries_redelivery_witness:
  "\<exists>rf' reply acts rf'' reply' acts'.
     AppendEntries sample_codec ex_clock (ex_append 2 1 1 [2, 2]) (ex_server 1 0 [0, 1, 1])
       = Some (rf', reply, acts)
     \<and> AppendEntries sample_codec ex_clock (ex_append 2 1 1 [2, 2]) rf' = Some (rf'', reply', acts')
     \<and> Success reply' \<and> rlog rf'' = rlog rf' \<and> commitIndex rf'' = commitIndex rf'"
proof -
  have *: "wf_log (rlog (ex_server 1 0 [0, 1, 1]))"
    "currentTerm (ex_server 1 0 [0, 1, 1]) \<le> aeTerm (ex_append 2 1 1 [2, 2])"
    "log_at (rlog (ex_server 1 0 [0, 1, 1])) (PrevLogIndex (ex_append 2 1 1 [2, 2]))
       = Some \<lparr>Command = Cmd 1, Term = 1, Index = 1\<rparr>"
    "Term \<lparr>Command = Cmd 1, Term = 1, Index = 1\<rparr> = PrevLogTerm (ex_append 2 1 1 [2, 2])"
    "wf_entries (PrevLogIndex (ex_append 2 1 1 [2, 2]) + 1) (aeEntries (ex_append 2 1 1 [2, 2]))"
    by (simp_all add: ex_defs wf_log_def log_at_def idx_def)
  obtain rf' reply acts where
    "AppendEntries sample_codec ex_clock (ex_append 2 1 1 [2, 2]) (ex_server 1 0 [0, 1, 1])
       = Some (rf', reply, acts)"
    using AppendEntries_refinement [OF *] by blast
  with AppendEntries_redelivery [OF * this, of ex_clock] show ?thesis by blast
qed

definition ex_rejection :: "(int Raft \<times> AppendEntriesReply \<times> int effect list) option" where
  "ex_rejection = AppendEntries sample_codec ex_clock (ex_append 6 3 6 [6]) (ex_server 4 0 [0, 4, 5, 5])"

lemma ex_rejection_reply: "map_option (\<lambda>(_, r, _). (Success r, XTerm r, XIndex r, XLen r)) ex_rejection = Some (False, 5, 2, 4)"
  by code_simp


theorem AppendEntries_conflict_panics_witness:
  "AppendEntries sample_codec ex_clock (ex_append 6 8 6 [6]) (ex_server 5 7 [5, 5, 5]) = None"
proof (rule AppendEntries_conflict_panics)
  show "wf_log (rlog (ex_server 5 7 [5, 5, 5]))" by (simp add: ex_defs wf_log_def)
  show "log_at (rlog (ex_server 5 7 [5, 5, 5])) (PrevLogIndex (ex_append 6 8 6 [6]))
      = Some \<lparr>Command = Cmd 5, Term = 5, Index = 8\<rparr>"
    by (simp add: ex_log_at ex_append_def)
  fix i e assume "i < PrevLogIndex (ex_append 6 8 6 [6])"
    and "log_at (rlog (ex_server 5 7 [5, 5, 5])) i = Some e"
  then have "i = 7" and "e = \<lparr>Command = Cmd 5, Term = 5, Index = 7\<rparr>"
    by (auto simp: ex_log_at ex_append_def split: if_splits)
  then show "Term e = Term \<lparr>Command = Cmd 5, Term = 5, Index = 8::int\<rparr>" by simp
qed (simp_all add: ex_server_def ex_append_def)

end
