(* ===== verification/RaftCommit.thy ===== *)
theory RaftCommit
  imports RaftReplication
begin

text \<open>
  What a leader commits and what every server applies: \<open>Commit\<close> and \<open>findLastLogInTerm\<close> of
  \<open>entry.go\<close>, \<open>LoopCommit\<close>, \<open>Snapshot\<close> and \<open>CondInstallSnapshot\<close> of \<open>raft.go\<close>, against what they
  are for.
\<close>

section \<open>Commit\<close>

text \<open>The servers that are known to hold the entry at \<open>n\<close>.\<close>

definition holders :: "'c Raft \<Rightarrow> int \<Rightarrow> int set" where
  "holders rf n = {v \<in> peer_ids (peers rf). v = me rf \<or> matchIndex rf ! nat v \<ge> n}"

definition committable :: "'c Raft \<Rightarrow> int \<Rightarrow> bool" where
  "committable rf n \<longleftrightarrow>
     (\<exists>e. log_at (rlog rf) n = Some e \<and> Term e = currentTerm rf) \<and> majority (peers rf) (holders rf n)"

text \<open>A leader whose tables have a row for each server, with nothing committed that it gave up.\<close>

definition leader_ok :: "'c Raft \<Rightarrow> bool" where
  "leader_ok rf \<longleftrightarrow> wf_log (rlog rf) \<and> me rf \<in> peer_ids (peers rf) \<and> length (matchIndex rf) = peers rf
     \<and> length (nextIndex rf) = peers rf \<and> Index0 (rlog rf) \<le> commitIndex rf"

lemma Commit_count_spec:
  assumes "\<forall>s \<in> set ss. 0 \<le> s \<and> s < int (length mi)" and "distinct ss"
  shows "Commit_count self mi n half ss c =
    Some (ss \<noteq> [] \<and> c + int (card {s \<in> set ss. s \<noteq> self \<and> mi ! nat s \<ge> n}) > half)"
  using assms
proof (induction ss arbitrary: c)
  case (Cons s ss)
  let ?H = "\<lambda>ss. {s \<in> set ss. s \<noteq> self \<and> mi ! nat s \<ge> n}"
  have fin: "finite (?H ss)" by simp
  show ?case
  proof (cases "s \<noteq> self \<and> mi ! nat s \<ge> n")
    case True
    then have "?H (s # ss) = insert s (?H ss)" by auto
    moreover have "s \<notin> ?H ss" using Cons.prems by auto
    ultimately have "card (?H (s # ss)) = Suc (card (?H ss))" using fin by simp
    then show ?thesis using Cons True by (auto simp: idx_def)
  next
    case False
    then have "?H (s # ss) = ?H ss" by auto
    then show ?thesis using Cons False by (auto simp: idx_def)
  qed
qed simp

lemma distinct_peer_range: "distinct (peer_range rf)" and set_peer_range: "set (peer_range rf) = peer_ids (peers rf)"
  by (auto simp: peer_range_def peer_ids_def)

lemma card_holders:
  assumes "me rf \<in> peer_ids (peers rf)"
  shows "card (holders rf n) =
    Suc (card {s \<in> set (peer_range rf). s \<noteq> me rf \<and> matchIndex rf ! nat s \<ge> n})"
proof -
  have "holders rf n = insert (me rf) {s \<in> set (peer_range rf). s \<noteq> me rf \<and> matchIndex rf ! nat s \<ge> n}"
    using assms by (auto simp: holders_def set_peer_range)
  then show ?thesis by simp
qed

lemma Commit_count_majority:
  assumes "leader_ok rf"
  shows "Commit_count (me rf) (matchIndex rf) n (int (peers rf) div 2) (peer_range rf) 1 =
    Some (majority (peers rf) (holders rf n))"
proof -
  have "peer_range rf \<noteq> []"
    using assms set_peer_range [of rf] by (auto simp: leader_ok_def)
  moreover have "\<forall>s \<in> set (peer_range rf). 0 \<le> s \<and> s < int (length (matchIndex rf))"
    using assms by (auto simp: leader_ok_def peer_range_def)
  moreover have "holders rf n \<subseteq> peer_ids (peers rf)" by (auto simp: holders_def)
  moreover have "card (holders rf n) =
      Suc (card {s \<in> set (peer_range rf). s \<noteq> me rf \<and> matchIndex rf ! nat s \<ge> n})"
    using assms by (simp add: card_holders leader_ok_def)
  ultimately show ?thesis
    by (simp add: Commit_count_spec distinct_peer_range majority_def) linarith
qed

lemma leader_ok_commit: "leader_ok rf \<Longrightarrow> Index0 (rlog rf) \<le> n \<Longrightarrow> leader_ok (rf\<lparr>commitIndex := n\<rparr>)"
  by (simp add: leader_ok_def)

lemma committable_commit [simp]: "committable (rf\<lparr>commitIndex := n\<rparr>) = committable rf"
  by (simp add: committable_def holders_def fun_eq_iff)

text \<open>The last element that satisfies \<open>P\<close>, or \<open>d\<close>.\<close>

definition last_or :: "int \<Rightarrow> (int \<Rightarrow> bool) \<Rightarrow> int list \<Rightarrow> int" where
  "last_or d P ns = (if filter P ns = [] then d else last (filter P ns))"

lemma Commit_loop_spec:
  assumes "leader_ok rf" and "\<forall>n \<in> set ns. Index0 (rlog rf) \<le> n \<and> n \<le> last_index (rlog rf)"
  shows "\<exists>acts. Commit_loop ns rf =
      Some (rf\<lparr>commitIndex := last_or (commitIndex rf) (committable rf) ns\<rparr>, acts)
    \<and> set acts \<subseteq> {Broadcast} \<and> (acts \<noteq> [] \<longleftrightarrow> (\<exists>n \<in> set ns. committable rf n))"
  using assms
proof (induction ns arbitrary: rf)
  case Nil
  then show ?case by (simp add: last_or_def)
next
  case (Cons n ns)
  from Cons.prems obtain e where e: "log_at (rlog rf) n = Some e"
    using log_at_Some [of "rlog rf" n] by auto
  have c: "committable rf n \<longleftrightarrow> Term e = currentTerm rf \<and> majority (peers rf) (holders rf n)"
    using e by (simp add: committable_def)
  show ?case
  proof (cases "committable rf n")
    case True
    have "leader_ok (rf\<lparr>commitIndex := n\<rparr>)" using Cons.prems by (simp add: leader_ok_commit)
    with Cons.IH [of "rf\<lparr>commitIndex := n\<rparr>"] Cons.prems obtain acts where
      "Commit_loop ns (rf\<lparr>commitIndex := n\<rparr>) =
        Some (rf\<lparr>commitIndex := last_or n (committable rf) ns\<rparr>, acts)" "set acts \<subseteq> {Broadcast}"
      by auto
    moreover have "last_or n (committable rf) ns = last_or (commitIndex rf) (committable rf) (n # ns)"
      using True by (simp add: last_or_def)
    ultimately show ?thesis
      using True c e Cons.prems by (auto simp: Commit_count_majority)
  next
    case False
    then have "Commit_loop (n # ns) rf = Commit_loop ns rf"
      using c e Commit_count_majority [OF Cons.prems(1), of n] by auto
    moreover have "last_or (commitIndex rf) (committable rf) (n # ns) =
        last_or (commitIndex rf) (committable rf) ns"
      using False by (simp add: last_or_def)
    ultimately show ?thesis using False Cons.IH [OF Cons.prems(1)] Cons.prems(2) by simp
  qed
qed

lemma sorted_le_last: "sorted xs \<Longrightarrow> xs \<noteq> [] \<Longrightarrow> \<forall>x \<in> set xs. x \<le> last xs" for xs :: "int list"
  by (induction xs) auto

lemma last_or_Max:
  assumes "finite {n. P n}" and "\<forall>n. P n \<longrightarrow> n \<le> b"
  shows "last_or d P [d + 1..b] = Max ({d} \<union> {n. d < n \<and> P n})"
proof -
  let ?f = "filter P [d + 1..b]"
  have set: "set ?f = {n. d < n \<and> P n}" using assms(2) by auto
  show ?thesis
  proof (cases "?f = []")
    case True
    then have "{n. d < n \<and> P n} = {}" using set by (metis set_empty)
    then show ?thesis using True by (simp only: last_or_def Un_empty_right if_True Max_singleton refl)
  next
    case False
    have "sorted ?f" by (simp add: sorted_wrt_filter)
    then have "\<forall>x \<in> set ?f. x \<le> last ?f"
      using False by (rule sorted_le_last)
    moreover have "last ?f \<in> {n. d < n \<and> P n}" using False set last_in_set by blast
    ultimately have "Max ({d} \<union> {n. d < n \<and> P n}) = last ?f"
      by (intro Max_eqI) (use assms(1) set in auto)
    then show ?thesis using False by (simp add: last_or_def)
  qed
qed

lemma Commit_total:
  assumes "leader_ok rf"
  shows "\<exists>c acts. Commit rf = Some (rf\<lparr>commitIndex := c\<rparr>, acts)"
proof (cases "state rf = Leader")
  case True
  have "\<forall>n \<in> set [commitIndex rf + 1..last_index (rlog rf)].
      Index0 (rlog rf) \<le> n \<and> n \<le> last_index (rlog rf)"
    using assms by (auto simp: leader_ok_def)
  from Commit_loop_spec [OF assms this] obtain acts where
    "Commit_loop [commitIndex rf + 1..last_index (rlog rf)] rf =
      Some (rf\<lparr>commitIndex := last_or (commitIndex rf) (committable rf)
        [commitIndex rf + 1..last_index (rlog rf)]\<rparr>, acts)" by blast
  moreover have "Commit rf = Commit_loop [commitIndex rf + 1..last_index (rlog rf)] rf"
    using assms True by (simp add: Commit_def leader_ok_def LastLog_wf Index_last)
  ultimately show ?thesis by (simp only:) blast
next
  case False
  then have "Commit rf = Some (rf\<lparr>commitIndex := commitIndex rf\<rparr>, [])" by (simp add: Commit_def)
  then show ?thesis by blast
qed

lemma Commit_highest:
  assumes "leader_ok rf" and "state rf = Leader"
  shows "\<exists>acts. Commit rf =
      Some (rf\<lparr>commitIndex := Max ({commitIndex rf} \<union> {n. commitIndex rf < n \<and> committable rf n})\<rparr>, acts)
    \<and> (acts \<noteq> [] \<longleftrightarrow> (\<exists>n > commitIndex rf. committable rf n)) \<and> set acts \<subseteq> {Broadcast}"
proof -
  let ?b = "last_index (rlog rf)" and ?d = "commitIndex rf"
  have wf: "wf_log (rlog rf)" using assms(1) by (simp add: leader_ok_def)
  have range: "committable rf n \<Longrightarrow> Index0 (rlog rf) \<le> n \<and> n \<le> ?b" for n
    using log_at_defined [of "rlog rf" n] by (auto simp: committable_def)
  then have fin: "finite {n. committable rf n}"
    by (auto intro: finite_subset [where B = "{Index0 (rlog rf)..?b}"])
  have "Commit rf = Commit_loop [?d + 1..?b] rf"
    using assms(2) wf by (simp add: Commit_def LastLog_wf Index_last)
  moreover have "\<forall>n \<in> set [?d + 1..?b]. Index0 (rlog rf) \<le> n \<and> n \<le> ?b"
    using assms(1) by (auto simp: leader_ok_def)
  ultimately obtain acts where *:
    "Commit rf = Some (rf\<lparr>commitIndex := last_or ?d (committable rf) [?d + 1..?b]\<rparr>, acts)"
    "set acts \<subseteq> {Broadcast}" "acts \<noteq> [] \<longleftrightarrow> (\<exists>n \<in> set [?d + 1..?b]. committable rf n)"
    using Commit_loop_spec [OF assms(1), of "[?d + 1..?b]"] by metis
  have "last_or ?d (committable rf) [?d + 1..?b] = Max ({?d} \<union> {n. ?d < n \<and> committable rf n})"
    using fin range by (intro last_or_Max) auto
  moreover have "(\<exists>n \<in> set [?d + 1..?b]. committable rf n) \<longleftrightarrow> (\<exists>n > ?d. committable rf n)"
    using range by (auto simp: add1_zle_eq)
  ultimately show ?thesis using * by (simp only:) blast
qed

text \<open>
  C12. The commit rule. A leader's \<open>Commit\<close> never panics and moves \<open>commitIndex\<close> to the highest entry
  of its current term that a majority of the servers is known to hold, and nowhere else; it
  changes nothing else, and it wakes the applier exactly when there is such an entry.
\<close>

theorem Commit_rule:
  assumes "leader_ok rf" and "state rf = Leader"
  shows "\<exists>acts. Commit rf =
      Some (rf\<lparr>commitIndex := Max ({commitIndex rf} \<union> {n. commitIndex rf < n \<and> committable rf n})\<rparr>, acts)
    \<and> (acts \<noteq> [] \<longleftrightarrow> (\<exists>n > commitIndex rf. committable rf n)) \<and> set acts \<subseteq> {Broadcast}"
  using assms by (rule Commit_highest)

section \<open>Searching a term\<close>

text \<open>The terms of a log never decrease.\<close>

definition sorted_terms :: "'c Log \<Rightarrow> bool" where
  "sorted_terms l \<longleftrightarrow> sorted (map Term (Entries l))"

lemma sorted_termsD:
  assumes "sorted_terms l" and "log_at l i = Some e" and "log_at l j = Some f" and "i \<le> j"
  shows "Term e \<le> Term f"
proof -
  let ?i = "nat (i - Index0 l)" and ?j = "nat (j - Index0 l)"
  have "?i \<le> ?j" and "?j < length (map Term (Entries l))"
    using assms(2-4) by (auto simp: log_at_def idx_Some_iff)
  with assms(1) have "map Term (Entries l) ! ?i \<le> map Term (Entries l) ! ?j"
    unfolding sorted_terms_def by (rule sorted_nth_mono)
  with assms(2,3) \<open>?i \<le> ?j\<close> show ?thesis by (auto simp: log_at_def idx_Some_iff)
qed

text \<open>\<open>i\<close> is the last place of a term in a log.\<close>

definition last_in_term :: "'c Log \<Rightarrow> int \<Rightarrow> int \<Rightarrow> bool" where
  "last_in_term l x i \<longleftrightarrow> 0 < i \<and> (\<exists>e. log_at l i = Some e \<and> Term e = x)
     \<and> (\<forall>j e. i < j \<and> log_at l j = Some e \<longrightarrow> Term e \<noteq> x)"

lemma log_at_Index0: "Entries l \<noteq> [] \<Longrightarrow> log_at l (Index0 l) = Some (hd (Entries l))"
  by (simp add: log_at_def idx_def hd_conv_nth)

lemma findLastLogInTerm_loop_spec:
  assumes "Entries l \<noteq> []" and "sorted_terms l" and "Index0 l \<le> int i \<or> i = 0" and "int i \<le> last_index l"
    and "Index0 l \<le> 1 \<or> Term (hd (Entries l)) \<le> x"
    and "\<forall>j e. int i < j \<and> log_at l j = Some e \<longrightarrow> Term e \<noteq> x"
  shows "\<exists>r. findLastLogInTerm_loop l x i = Some r \<and>
    (last_in_term l x r \<or> r = -1 \<and> (\<forall>j e. 0 < j \<and> log_at l j = Some e \<longrightarrow> Term e \<noteq> x))"
  using assms
proof (induction i)
  case (Suc i)
  from Suc.prems(3,4) obtain e where e: "log_at l (int (Suc i)) = Some e"
    using log_at_Some [of l "int (Suc i)"] by auto
  consider "Term e = x" | "Term e < x" | "Term e > x" by linarith
  then show ?case
  proof cases
    case 1
    then show ?thesis using e Suc.prems(6) by (auto simp: last_in_term_def)
  next
    case 2
    have "Term f \<noteq> x" if "log_at l j = Some f" for j f
    proof (cases "j \<le> int (Suc i)")
      case True
      then show ?thesis using sorted_termsD [OF Suc.prems(2) that e] 2 by simp
    next
      case False
      then have "int (Suc i) < j" by simp
      then show ?thesis using Suc.prems(6) that by blast
    qed
    then show ?thesis using e 2 by auto
  next
    case 3
    have low: "Index0 l \<le> int i \<or> i = 0"
    proof (cases "Index0 l = int (Suc i)")
      case True
      then have "e = hd (Entries l)" using log_at_Index0 [OF Suc.prems(1)] e by simp
      then show ?thesis using Suc.prems(5) 3 True by simp
    qed (use Suc.prems(3) in linarith)
    have "\<forall>j f. int i < j \<and> log_at l j = Some f \<longrightarrow> Term f \<noteq> x"
    proof (intro allI impI)
      fix j f assume j: "int i < j \<and> log_at l j = Some f"
      then show "Term f \<noteq> x"
      proof (cases "j = int (Suc i)")
        case True
        then show ?thesis using e j 3 by simp
      next
        case False
        then have "int (Suc i) < j" using j by simp
        then show ?thesis using Suc.prems(6) j by blast
      qed
    qed
    with Suc.IH [OF Suc.prems(1,2) low _ Suc.prems(5)] Suc.prems(4) show ?thesis using e 3 by simp
  qed
qed simp

lemma findLastLogInTerm_loop_panics:
  assumes "1 < Index0 l" and "Index0 l \<le> int i + 1" and "\<forall>e \<in> set (Entries l). x < Term e"
  shows "findLastLogInTerm_loop l x i = None"
  using assms
proof (induction i)
  case (Suc i)
  show ?case
  proof (cases "log_at l (int (Suc i))")
    case (Some e)
    then have "x < Term e" and "Index0 l \<le> int (Suc i)"
      using Suc.prems(3) by (auto simp: log_at_def idx_Some_iff)
    then show ?thesis using Suc Some by simp
  qed simp
qed simp

lemma findLastLogInTerm_search:
  assumes wf: "wf_log (rlog rf)" and sorted: "sorted_terms (rlog rf)"
    and start: "Index0 (rlog rf) \<le> 1 \<or> Term (hd (Entries (rlog rf))) \<le> x"
  shows "\<exists>r. findLastLogInTerm x rf = Some r
    \<and> (last_in_term (rlog rf) x r \<or> r = -1 \<and> (\<forall>j e. 0 < j \<and> log_at (rlog rf) j = Some e \<longrightarrow> Term e \<noteq> x))"
proof -
  let ?l = "rlog rf"
  have b: "0 \<le> last_index ?l" "Index0 ?l \<le> last_index ?l" "Entries ?l \<noteq> []"
    using wf wf_log_last_ge [OF wf] by (auto simp: wf_log_def)
  have "\<forall>j e. int (nat (last_index ?l)) < j \<and> log_at ?l j = Some e \<longrightarrow> Term e \<noteq> x"
    using log_at_wf [OF wf] b by fastforce
  with b findLastLogInTerm_loop_spec [OF b(3) sorted, of "nat (last_index ?l)" x] show ?thesis
    using wf start by (simp add: findLastLogInTerm_def LastLog_wf Index_last)
qed

text \<open>
  \<open>findLastLogInTerm\<close> on a log with terms in order: if the log is not compacted beyond index 1, or the term asked
  for is not before the term of its first entry, it returns the last index above 0 that holds the term, and
  \<open>-1\<close> exactly when there is none. Otherwise the loop runs below the start of the log and panics.
\<close>

theorem findLastLogInTerm_correct:
  assumes wf: "wf_log (rlog rf)" and sorted: "sorted_terms (rlog rf)"
  shows "if Index0 (rlog rf) \<le> 1 \<or> Term (hd (Entries (rlog rf))) \<le> x
    then \<exists>r. findLastLogInTerm x rf = Some r
      \<and> (r \<noteq> -1 \<longrightarrow> last_in_term (rlog rf) x r)
      \<and> (r = -1 \<longleftrightarrow> (\<forall>j e. 0 < j \<and> log_at (rlog rf) j = Some e \<longrightarrow> Term e \<noteq> x))
    else findLastLogInTerm x rf = None"
proof (cases "Index0 (rlog rf) \<le> 1 \<or> Term (hd (Entries (rlog rf))) \<le> x")
  case True
  from findLastLogInTerm_search [OF assms True] obtain r where r: "findLastLogInTerm x rf = Some r"
    and "last_in_term (rlog rf) x r \<or> r = -1 \<and> (\<forall>j e. 0 < j \<and> log_at (rlog rf) j = Some e \<longrightarrow> Term e \<noteq> x)"
    by blast
  then have "\<exists>r. findLastLogInTerm x rf = Some r \<and> (r \<noteq> -1 \<longrightarrow> last_in_term (rlog rf) x r)
      \<and> (r = -1 \<longleftrightarrow> (\<forall>j e. 0 < j \<and> log_at (rlog rf) j = Some e \<longrightarrow> Term e \<noteq> x))"
  proof (elim disjE)
    assume *: "last_in_term (rlog rf) x r"
    then obtain e where "0 < r" "log_at (rlog rf) r = Some e" "Term e = x"
      by (auto simp: last_in_term_def)
    then have "r \<noteq> -1" and "\<not> (\<forall>j e. 0 < j \<and> log_at (rlog rf) j = Some e \<longrightarrow> Term e \<noteq> x)" by auto
    with r * show ?thesis by blast
  qed (use r in blast)
  with True show ?thesis by simp
next
  case False
  then have low: "1 < Index0 (rlog rf)" "x < Term (hd (Entries (rlog rf)))" by auto
  have "x < Term e" if e: "e \<in> set (Entries (rlog rf))" for e
  proof -
    have "Term (hd (Entries (rlog rf))) \<le> Term e"
      using sorted e by (cases "Entries (rlog rf)") (auto simp: sorted_terms_def)
    with low(2) show ?thesis by simp
  qed
  then have "findLastLogInTerm_loop (rlog rf) x (nat (last_index (rlog rf))) = None"
    using wf_log_last_ge [OF wf] low(1) by (intro findLastLogInTerm_loop_panics) auto
  with wf False show ?thesis by (simp add: findLastLogInTerm_def LastLog_wf Index_last)
qed

section \<open>Backing up after a conflict\<close>

text \<open>
  No log interrupts a run of a term where the other log has it: if \<open>l\<close> holds the term at \<open>i\<close> and \<open>m\<close>
  holds it at an earlier \<open>j\<close>, then whatever \<open>l\<close> still has at \<open>j\<close> is of that term as well. One leader per term
  appends at the end of its log, so the logs of a cluster have this property (\<open>RaftMatching\<close>).
\<close>

definition runs_agree :: "'c Log \<Rightarrow> 'c Log \<Rightarrow> bool" where
  "runs_agree l m \<longleftrightarrow> (\<forall>i j a b c. log_at l i = Some a \<and> log_at m j = Some b \<and> Term a = Term b \<and> j \<le> i
     \<and> log_at l j = Some c \<longrightarrow> Term c = Term b)"

lemma runs_agreeD:
  "runs_agree l m \<Longrightarrow> log_at l i = Some a \<Longrightarrow> log_at m j = Some b \<Longrightarrow> Term a = Term b \<Longrightarrow> j \<le> i
     \<Longrightarrow> log_at l j = Some c \<Longrightarrow> Term c = Term b"
  unfolding runs_agree_def by blast

lemma AppendEntries_conflict_reply:
  assumes wf: "wf_log (rlog f)"
    and rpc: "AppendEntries C k args f = Some (f', reply, acts)" and rej: "Conflict reply"
  shows "XTerm reply = -1 \<and> 0 < XLen reply \<and> XLen reply \<le> PrevLogIndex args
    \<or> (\<exists>p. log_at (rlog f) (PrevLogIndex args) = Some p \<and> Term p \<noteq> PrevLogTerm args \<and> XTerm reply = Term p
        \<and> 0 \<le> XIndex reply \<and> XIndex reply \<le> PrevLogIndex args)"
proof -
  have t: "currentTerm f \<le> aeTerm args" and prev: "Index0 (rlog f) \<le> PrevLogIndex args"
    using rpc rej by (auto simp: AppendEntries_def Let_def setNewTerm_def split: if_splits)
  have start: "0 \<le> Index0 (rlog f)" using wf by (simp add: wf_log_def)
  note body = rpc [unfolded AppendEntries_ready [OF t prev] AppendEntries_body_def]
  show ?thesis
  proof (cases "last_index (rlog f) < PrevLogIndex args")
    case True
    then show ?thesis
      using body wf wf_log_last_ge [OF wf] start by (auto simp: LastLog_wf Index_last)
  next
    case False
    then obtain p where p: "log_at (rlog f) (PrevLogIndex args) = Some p"
      using log_at_Some [OF prev] by auto
    have ne: "Term p \<noteq> PrevLogTerm args"
      using body wf False p rej by (auto simp: LastLog_wf Index_last bind_eq_Some_conv)
    obtain r where r: "conflict_loop (rlog f) (Term p) (nat (PrevLogIndex args)) 0 = Some r"
      using body wf False p ne by (auto simp: LastLog_wf Index_last bind_eq_Some_conv)
    moreover have "0 \<le> r \<and> r \<le> PrevLogIndex args" using conflict_loop_run [OF r] prev start by simp
    ultimately show ?thesis
      using body wf False p ne by (auto simp: LastLog_wf Index_last)
  qed
qed

text \<open>
  C13. Backing up after a conflict. A follower with any well-formed log (compacted or not) rejects a message
  that the leader built from its log, and the reply comes back in a term that is not ahead. The terms of
  the leader's log are in order and the two logs agree on the runs of a term, as they do in every cluster
  state that \<open>rep_reach\<close> describes. If the reply names no term, or the leader's log
  still starts at index 0 or 1, or the reported term is not before the term of its first entry, the leader handles
  the reply without panicking and moves \<open>nextIndex\<close> for that follower to at most the \<open>PrevLogIndex\<close> of the rejected
  message, so below the \<open>nextIndex\<close> it was sent with. In the remaining case, a compacted leader that is told
  an older term than it still has, \<open>findLastLogInTerm\<close> searches below the log and the leader panics.
\<close>

theorem conflict_backs_up:
  assumes follower: "wf_log (rlog f)" "\<forall>e \<in> set (Entries (rlog f)). 0 \<le> Term e"
    and leader: "leader_ok rf" "state rf = Leader" "sorted_terms (rlog rf)"
    and runs: "runs_agree (rlog rf) (rlog f)"
    and sent: "log_at (rlog rf) (PrevLogIndex args) = Some q" "PrevLogTerm args = Term q"
    and peer: "0 \<le> peer" "peer < int (peers rf)"
    and rpc: "AppendEntries C k args f = Some (f', reply, acts)"
    and rejected: "Conflict reply" "\<not> Success reply" "aerTerm reply \<le> currentTerm rf"
  shows "if XTerm reply = -1 \<or> Index0 (rlog rf) \<le> 1 \<or> Term (hd (Entries (rlog rf))) \<le> XTerm reply
    then \<exists>rf' acts'. leaderSendEntries C True peer args reply rf = Some (rf', acts')
      \<and> 0 \<le> nextIndex rf' ! nat peer \<and> nextIndex rf' ! nat peer \<le> PrevLogIndex args
    else leaderSendEntries C True peer args reply rf = None"
proof -
  have len: "length (nextIndex rf) = peers rf" and wf: "wf_log (rlog rf)"
    using leader(1) by (simp_all add: leader_ok_def)
  note reply_cases = AppendEntries_conflict_reply [OF follower(1) rpc rejected(1)]
  show ?thesis
  proof (cases "XTerm reply = -1 \<or> Index0 (rlog rf) \<le> 1 \<or> Term (hd (Entries (rlog rf))) \<le> XTerm reply")
    case True
    from reply_cases have "\<exists>v. leaderSendEntries_next peer args reply rf =
        Some (rf\<lparr>nextIndex := (nextIndex rf)[nat peer := v]\<rparr>) \<and> 0 \<le> v \<and> v \<le> PrevLogIndex args"
    proof
      assume "XTerm reply = -1 \<and> 0 < XLen reply \<and> XLen reply \<le> PrevLogIndex args"
      then show ?thesis
        using rejected peer len by (auto simp: leaderSendEntries_next_def idx_upd_def)
    next
      assume "\<exists>p. log_at (rlog f) (PrevLogIndex args) = Some p \<and> Term p \<noteq> PrevLogTerm args
        \<and> XTerm reply = Term p \<and> 0 \<le> XIndex reply \<and> XIndex reply \<le> PrevLogIndex args"
      then obtain p where p: "log_at (rlog f) (PrevLogIndex args) = Some p" "Term p \<noteq> Term q"
        "XTerm reply = Term p" "0 \<le> XIndex reply" "XIndex reply \<le> PrevLogIndex args"
        using sent(2) by auto
      have "p \<in> set (Entries (rlog f))" using p(1) by (auto simp: log_at_def idx_Some_iff)
      then have named: "XTerm reply \<noteq> -1" using follower(2) p(3) by auto
      have start: "Index0 (rlog rf) \<le> 1 \<or> Term (hd (Entries (rlog rf))) \<le> Term p"
        using True named p(3) by simp
      obtain r where r: "findLastLogInTerm (Term p) rf = Some r" "r \<noteq> -1 \<longrightarrow> last_in_term (rlog rf) (Term p) r"
        using findLastLogInTerm_search [OF wf leader(3) start] by blast
      have "r \<le> PrevLogIndex args" if pos: "0 < r"
      proof (rule ccontr)
        assume above: "\<not> r \<le> PrevLogIndex args"
        obtain e where "log_at (rlog rf) r = Some e" "Term e = Term p"
          using r(2) pos by (auto simp: last_in_term_def)
        from runs_agreeD [OF runs this(1) p(1) this(2) _ sent(1)] above have "Term q = Term p" by simp
        with p(2) show False by simp
      qed
      with r(1) p named show ?thesis
        using rejected peer len by (auto simp: leaderSendEntries_next_def idx_upd_def)
    qed
    then obtain v where v: "leaderSendEntries_next peer args reply rf =
        Some (rf\<lparr>nextIndex := (nextIndex rf)[nat peer := v]\<rparr>)" "0 \<le> v" "v \<le> PrevLogIndex args" by blast
    let ?rf = "rf\<lparr>nextIndex := (nextIndex rf)[nat peer := v]\<rparr>"
    have "leader_ok ?rf" using leader(1) by (simp add: leader_ok_def)
    then obtain c acts' where "Commit ?rf = Some (?rf\<lparr>commitIndex := c\<rparr>, acts')"
      using Commit_total leader(2) by fastforce
    then have "\<exists>rf' acts'. leaderSendEntries C True peer args reply rf = Some (rf', acts')
        \<and> 0 \<le> nextIndex rf' ! nat peer \<and> nextIndex rf' ! nat peer \<le> PrevLogIndex args"
      using v leader(2) rejected(3) peer len by (simp add: leaderSendEntries_def)
    with True show ?thesis by simp
  next
    case False
    then have "findLastLogInTerm (XTerm reply) rf = None"
      using findLastLogInTerm_correct [OF wf leader(3), of "XTerm reply"] by auto
    with False show ?thesis
      using rejected leader(2) by (auto simp: leaderSendEntries_def leaderSendEntries_next_def)
  qed
qed

section \<open>Applying committed entries\<close>

definition apply_msg :: "'c Log \<Rightarrow> int \<Rightarrow> 'c ApplyMsg" where
  "apply_msg l i = \<lparr>CommandValid = True, amCommand = Command (Entries l ! nat (i - Index0 l)),
     CommandIndex = i, SnapshotValid = False, amSnapshot = [], SnapshotTerm = 0, SnapshotIndex = 0\<rparr>"

text \<open>The last entry that a server may apply.\<close>

abbreviation ready :: "'c Raft \<Rightarrow> int" where
  "ready rf \<equiv> min (commitIndex rf) (last_index (rlog rf))"

lemma LoopCommit_body_step:
  assumes "wf_log (rlog rf)" and "Index0 (rlog rf) \<le> lastApplied rf"
  shows "LoopCommit_body rf = Some (if lastApplied rf < ready rf
    then (rf\<lparr>lastApplied := lastApplied rf + 1\<rparr>, Some (apply_msg (rlog rf) (lastApplied rf + 1)))
    else (rf, None))"
  using assms by (auto simp: LoopCommit_body_def LastLog_wf Index_last log_at_def idx_def Len_def
      apply_msg_def)

text \<open>
  C14. The applier delivers exactly the committed entries, each once and in the order of the log.
  With one round for each entry to deliver and one to find nothing left, \<open>LoopCommit\<close> reaches its
  wait, has sent the commands from \<open>lastApplied + 1\<close> up to the commit index (or the end of the log),
  and remembers the last of them; nothing else changes.
\<close>

theorem LoopCommit_delivers:
  assumes "wf_log (rlog rf)" and "Index0 (rlog rf) \<le> lastApplied rf" and "\<not> killed rf"
    and "nat (ready rf - lastApplied rf) < fuel"
  shows "LoopCommit fuel rf =
    Some (rf\<lparr>lastApplied := max (lastApplied rf) (ready rf)\<rparr>,
      map (apply_msg (rlog rf)) [lastApplied rf + 1..ready rf])"
  using assms
proof (induction fuel arbitrary: rf)
  case (Suc fuel)
  show ?case
  proof (cases "lastApplied rf < ready rf")
    case True
    let ?rf = "rf\<lparr>lastApplied := lastApplied rf + 1\<rparr>"
    have "LoopCommit fuel ?rf = Some (?rf\<lparr>lastApplied := max (lastApplied ?rf) (ready ?rf)\<rparr>,
        map (apply_msg (rlog ?rf)) [lastApplied ?rf + 1..ready ?rf])"
      using Suc.prems True by (intro Suc.IH) (auto simp: killed_def)
    moreover have "[lastApplied rf + 1..ready rf] = (lastApplied rf + 1) # [lastApplied rf + 1 + 1..ready rf]"
      using True by (simp add: upto_rec1)
    moreover have "max (lastApplied rf + 1) (ready rf) = max (lastApplied rf) (ready rf)"
      using True by simp
    ultimately show ?thesis using True Suc.prems by (simp add: LoopCommit_body_step)
  next
    case False
    then have "LoopCommit_body rf = Some (rf, None)"
      using Suc.prems by (simp only: LoopCommit_body_step if_False)
    moreover have "[lastApplied rf + 1..ready rf] = []" and "max (lastApplied rf) (ready rf) = lastApplied rf"
      using False by auto
    ultimately show ?thesis using Suc.prems by simp
  qed
qed simp

section \<open>Snapshots\<close>

lemma mapM_log_at_suffix:
  assumes "wf_log l" and "Index0 l \<le> i" and "i \<le> last_index l"
  shows "mapM (log_at l) [i..last_index l] = Some (drop (nat (i - Index0 l)) (Entries l))"
proof -
  have "map (log_at l) [i..last_index l] = map Some (drop (nat (i - Index0 l)) (Entries l))"
  proof (rule nth_equalityI)
    show "length (map (log_at l) [i..last_index l]) = length (map Some (drop (nat (i - Index0 l)) (Entries l)))"
      using assms by (auto simp: Len_def)
  next
    fix k assume "k < length (map (log_at l) [i..last_index l])"
    then have "int k < Len l - i" by simp
    then show "map (log_at l) [i..last_index l] ! k = map Some (drop (nat (i - Index0 l)) (Entries l)) ! k"
      using assms by (auto simp: log_at_def idx_def Len_def nth_upto nat_add_distrib [symmetric]
          intro!: arg_cong [where f = "(!) (Entries l)"])
  qed
  then show ?thesis by (simp add: mapM_Some_iff)
qed

lemma Snapshot_outcome:
  assumes "wf_log (rlog rf)"
  shows "\<exists>rf'. Snapshot C i snap rf = Some rf' \<and>
    (if Index0 (rlog rf) \<le> i \<and> i < last_index (rlog rf) \<and> i \<le> commitIndex rf
     then wf_log (rlog rf') \<and> Index0 (rlog rf') = i \<and> last_index (rlog rf') = last_index (rlog rf)
       \<and> (\<forall>j. log_at (rlog rf') j = (if i \<le> j then log_at (rlog rf) j else None))
       \<and> ReadSnapshot (persister rf') = snap \<and> raftstate (persister rf') = persistData C rf'
       \<and> commitIndex rf' = commitIndex rf \<and> lastApplied rf' = lastApplied rf
       \<and> LastIndex rf' = i \<and> Some (LastTerm rf') = map_option Term (log_at (rlog rf) i)
     else rf' = rf)"
proof (cases "Index0 (rlog rf) \<le> i \<and> i < last_index (rlog rf) \<and> i \<le> commitIndex rf")
  case True
  let ?l = "rlog rf"
  from True log_at_Some [of ?l i] obtain e where e: "log_at ?l i = Some e" by auto
  let ?es = "drop (nat (i - Index0 ?l)) (Entries ?l)"
  define l' where "l' = \<lparr>Entries = ?es, Index0 = i\<rparr>"
  have "wf_log l'"
    using assms True wf_entries_drop [of "Index0 ?l" "Entries ?l" "nat (i - Index0 ?l)"]
    by (auto simp: wf_log_def l'_def Len_def)
  moreover have "Index0 l' = i" by (simp add: l'_def)
  moreover have "last_index l' = last_index ?l"
    using True by (auto simp: l'_def Len_def)
  moreover have "log_at l' j = (if i \<le> j then log_at ?l j else None)" for j
    using True by (auto simp: l'_def log_at_def idx_def Len_def nat_add_distrib [symmetric]
        intro!: arg_cong [where f = "(!) (Entries ?l)"])
  moreover have "mapM (log_at ?l) [i..last_index ?l] = Some ?es"
    using assms True by (intro mapM_log_at_suffix) auto
  ultimately show ?thesis
    using assms True e
    by (auto simp: Snapshot_def LastLog_wf Index_last persistData_def ReadSnapshot_def
        Let_def l'_def [symmetric] persist_def)
next
  case False
  then show ?thesis using assms by (auto simp: Snapshot_def LastLog_wf Index_last)
qed

text \<open>
  C15. \<open>Snapshot\<close> compacts and loses nothing that is not in the snapshot. A committed index that
  is in the log and strictly below its last index becomes the first entry of the log; every entry from it on is
  found where it was, nothing below it is kept, and the persister holds the snapshot together with the
  compacted state. Any other index changes nothing, the last index of the log included: for that one the
  snapshot is dropped, although everything up to it may be committed.
\<close>

theorem Snapshot_compacts:
  assumes "wf_log (rlog rf)"
  shows "\<exists>rf'. Snapshot C i snap rf = Some rf' \<and>
    (if Index0 (rlog rf) \<le> i \<and> i < last_index (rlog rf) \<and> i \<le> commitIndex rf
     then wf_log (rlog rf') \<and> Index0 (rlog rf') = i \<and> last_index (rlog rf') = last_index (rlog rf)
       \<and> (\<forall>j. log_at (rlog rf') j = (if i \<le> j then log_at (rlog rf) j else None))
       \<and> ReadSnapshot (persister rf') = snap \<and> raftstate (persister rf') = persistData C rf'
       \<and> commitIndex rf' = commitIndex rf \<and> lastApplied rf' = lastApplied rf
       \<and> LastIndex rf' = i \<and> Some (LastTerm rf') = map_option Term (log_at (rlog rf) i)
     else rf' = rf)"
  using assms by (rule Snapshot_outcome)

text \<open>
  C16. \<open>CondInstallSnapshot\<close> accepts a snapshot exactly when it is ahead of what is committed. It then
  keeps the entries after the snapshot if the entry at its end has the snapshot's term, and
  otherwise only a placeholder; state and snapshot are persisted together.
\<close>

theorem CondInstallSnapshot_installs:
  assumes wf: "wf_log (rlog rf)" and com: "Index0 (rlog rf) \<le> commitIndex rf"
  shows "\<exists>rf'. CondInstallSnapshot C t i snap rf = Some (rf', commitIndex rf < i) \<and>
    (if commitIndex rf < i
     then wf_log (rlog rf') \<and> Index0 (rlog rf') = i \<and> commitIndex rf' = i \<and> lastApplied rf' = i
       \<and> ReadSnapshot (persister rf') = snap \<and> raftstate (persister rf') = persistData C rf'
       \<and> (if map_option Term (log_at (rlog rf) i) = Some t
          then \<forall>j. log_at (rlog rf') j = (if i \<le> j then log_at (rlog rf) j else None)
          else Entries (rlog rf') = [\<lparr>Command = NilCmd, Term = t, Index = i\<rparr>])
     else rf' = rf)"
proof (cases "commitIndex rf < i")
  case True
  let ?l = "rlog rf"
  let ?es = "drop (nat (i - Index0 ?l)) (Entries ?l)"
  have i: "Index0 ?l \<le> i" "0 \<le> i" using True com wf by (auto simp: wf_log_def)
  show ?thesis
  proof (cases "map_option Term (log_at ?l i) = Some t")
    case keep: True
    then have last: "i \<le> last_index ?l" using log_at_defined [of ?l i] by auto
    then have "Tail ?l i = Some ?es" using i by (simp add: Tail_def slice_from_def Len_def)
    moreover have "wf_entries i ?es"
      using wf i last wf_entries_drop [of "Index0 ?l" "Entries ?l" "nat (i - Index0 ?l)"]
      by (auto simp: wf_log_def Len_def)
    moreover have "?es \<noteq> []" using last i by (simp add: Len_def)
    moreover have "log_at \<lparr>Entries = ?es, Index0 = i\<rparr> j = (if i \<le> j then log_at ?l j else None)" for j
      using i last by (auto simp: log_at_def idx_def Len_def nat_add_distrib [symmetric]
          intro!: arg_cong [where f = "(!) (Entries ?l)"])
    ultimately show ?thesis
      using True keep last wf i
      by (auto simp: CondInstallSnapshot_def LastLog_wf Index_last ReadSnapshot_def persistData_def
          wf_log_def [of "\<lparr>Entries = _, Index0 = _\<rparr>"])
  next
    case False
    moreover have "\<exists>b. (if i \<le> last_index ?l then map_option (\<lambda>e. Term e = t) (log_at ?l i) else Some False) = Some False"
      using False log_at_Some [OF i(1)] by auto
    ultimately show ?thesis
      using True wf i
      by (auto simp: CondInstallSnapshot_def LastLog_wf Index_last ReadSnapshot_def persistData_def
          wf_log_def [of "\<lparr>Entries = _, Index0 = _\<rparr>"])
  qed
next
  case False
  then show ?thesis by (simp add: CondInstallSnapshot_def)
qed

section \<open>Examples\<close>

text \<open>
  A leader (server 1 of three) of term 2; server 0 holds its first three entries, server 2 none.
  And a follower that has an entry of term 1 where the leader has one of term 2.
\<close>

definition ex_leader :: "int Raft" where
  "ex_leader = (ex_server 2 0 [0, 1, 2, 2])\<lparr>state := Leader, nextIndex := [3, 4, 4],
     matchIndex := [2, 0, 0]\<rparr>"

definition ex_follower :: "int Raft" where
  "ex_follower = ex_server 2 0 [0, 1, 1, 1]"

definition ex_probe :: "int AppendEntriesArgs" where
  "ex_probe = ex_append 2 3 2 []"

lemma ex_leader_ok: "leader_ok ex_leader" and ex_leader_Leader: "state ex_leader = Leader"
  by code_simp+

lemma ex_leader_log: "wf_log (rlog ex_leader)" "Index0 (rlog ex_leader) = 0" "sorted_terms (rlog ex_leader)"
  by code_simp+

theorem Commit_rule_witness:
  "\<exists>acts. Commit ex_leader = Some (ex_leader\<lparr>commitIndex := Max ({commitIndex ex_leader}
     \<union> {n. commitIndex ex_leader < n \<and> committable ex_leader n})\<rparr>, acts)
   \<and> acts \<noteq> [] \<and> committable ex_leader 2"
proof -
  have "committable ex_leader 2" and "commitIndex ex_leader < 2"
  proof -
    have "log_at (rlog ex_leader) 2 = Some \<lparr>Command = Cmd 2, Term = 2, Index = 2\<rparr>"
      and "currentTerm ex_leader = 2" and "majority (peers ex_leader) (holders ex_leader 2)"
      and "commitIndex ex_leader < 2"
      by code_simp+
    then show "committable ex_leader 2" and "commitIndex ex_leader < 2" by (simp_all add: committable_def)
  qed
  with Commit_rule [OF ex_leader_ok ex_leader_Leader] show ?thesis by blast
qed

theorem findLastLogInTerm_correct_witness:
  "\<exists>r. findLastLogInTerm 1 ex_leader = Some r \<and> last_in_term (rlog ex_leader) 1 r"
proof -
  have "findLastLogInTerm 1 ex_leader = Some 1" by code_simp
  with findLastLogInTerm_correct [OF ex_leader_log(1,3), of 1] ex_leader_log(2) show ?thesis by simp
qed

lemma ex_leader_at:
  "log_at (rlog ex_leader) i = (if 0 \<le> i \<and> i < 4 then Some \<lparr>Command = Cmd ([0, 1, 2, 2] ! nat i),
     Term = [0, 1, 2, 2] ! nat i, Index = i\<rparr> else None)"
  using ex_log_at [of 2 0 "[0, 1, 2, 2]" i] by (simp add: ex_leader_def)

lemma ex_runs: "runs_agree (rlog ex_leader) (rlog ex_follower)"
proof -
  have ivl: "0 \<le> k \<and> k < 4 \<longleftrightarrow> k = 0 \<or> k = 1 \<or> k = 2 \<or> k = 3" for k :: int by auto
  show ?thesis
    using ex_log_at [of 2 0 "[0, 1, 1, 1]"]
    by (auto simp: runs_agree_def ex_leader_at ex_follower_def ivl split: if_splits)
qed

theorem conflict_backs_up_witness:
  "\<exists>f' reply acts rf' acts'. AppendEntries sample_codec ex_clock ex_probe ex_follower = Some (f', reply, acts)
     \<and> Conflict reply \<and> leaderSendEntries sample_codec True 0 ex_probe reply ex_leader = Some (rf', acts')
     \<and> nextIndex rf' ! 0 \<le> 3"
proof -
  have "map_option (\<lambda>(f', reply, acts). (Conflict reply, Success reply, aerTerm reply))
      (AppendEntries sample_codec ex_clock ex_probe ex_follower) = Some (True, False, 2)"
    by code_simp
  then obtain f' reply acts where rpc: "AppendEntries sample_codec ex_clock ex_probe ex_follower = Some (f', reply, acts)"
    and r: "Conflict reply" "\<not> Success reply" "aerTerm reply = 2" by auto
  have f: "wf_log (rlog ex_follower)" "\<forall>e \<in> set (Entries (rlog ex_follower)). 0 \<le> Term e" and t: "currentTerm ex_leader = 2"
      and p: "(0::int) \<le> 0" "0 < int (peers ex_leader)" "PrevLogIndex ex_probe = 3" "PrevLogTerm ex_probe = 2"
    by code_simp+
  have "\<exists>rf' acts'. leaderSendEntries sample_codec True 0 ex_probe reply ex_leader = Some (rf', acts')
      \<and> 0 \<le> nextIndex rf' ! nat 0 \<and> nextIndex rf' ! nat 0 \<le> PrevLogIndex ex_probe"
    using conflict_backs_up [OF f ex_leader_ok ex_leader_Leader ex_leader_log(3) ex_runs _ _ p(1,2) rpc r(1,2)]
      r(3) t p ex_leader_log(2) by (simp add: ex_leader_at)
  with rpc r(1) p(3) show ?thesis by auto
qed

theorem LoopCommit_delivers_witness:
  "LoopCommit 3 (ex_follower\<lparr>commitIndex := 2\<rparr>) = Some (ex_follower\<lparr>commitIndex := 2, lastApplied := 2\<rparr>,
     [apply_msg (rlog ex_follower) 1, apply_msg (rlog ex_follower) 2])"
proof -
  have "wf_log (rlog (ex_follower\<lparr>commitIndex := 2\<rparr>))"
    "Index0 (rlog (ex_follower\<lparr>commitIndex := 2\<rparr>)) \<le> lastApplied (ex_follower\<lparr>commitIndex := 2\<rparr>)"
    "\<not> killed (ex_follower\<lparr>commitIndex := 2\<rparr>)"
    "nat (ready (ex_follower\<lparr>commitIndex := 2\<rparr>) - lastApplied (ex_follower\<lparr>commitIndex := 2\<rparr>)) < 3"
    "lastApplied ex_follower = 0" "Len (rlog ex_follower) = 4"
    by code_simp+
  with LoopCommit_delivers [of "ex_follower\<lparr>commitIndex := 2\<rparr>" 3] show ?thesis
    by (simp add: upto_rec1)
qed

theorem Snapshot_compacts_witness:
  "\<exists>rf'. Snapshot sample_codec 2 [7] (ex_follower\<lparr>commitIndex := 2\<rparr>) = Some rf'
     \<and> Index0 (rlog rf') = 2 \<and> ReadSnapshot (persister rf') = [7]
     \<and> log_at (rlog rf') 3 = log_at (rlog ex_follower) 3"
proof -
  have "wf_log (rlog (ex_follower\<lparr>commitIndex := 2\<rparr>))" "Index0 (rlog ex_follower) = 0" "Len (rlog ex_follower) = 4"
    by code_simp+
  with Snapshot_compacts [of "ex_follower\<lparr>commitIndex := 2\<rparr>" sample_codec 2 "[7]"] show ?thesis by auto
qed

theorem CondInstallSnapshot_installs_witness:
  "\<exists>rf'. CondInstallSnapshot sample_codec 2 5 [7] ex_follower = Some (rf', True)
     \<and> Index0 (rlog rf') = 5 \<and> commitIndex rf' = 5 \<and> ReadSnapshot (persister rf') = [7]"
proof -
  have "wf_log (rlog ex_follower)" "Index0 (rlog ex_follower) \<le> commitIndex ex_follower" "commitIndex ex_follower = 0"
    by code_simp+
  with CondInstallSnapshot_installs [of ex_follower sample_codec 2 5 "[7]"] show ?thesis by auto
qed

end
