(* ===== verification/RaftScenarios.thy ===== *)
theory RaftScenarios
  imports RaftCommit
begin

text \<open>
  Two handlers that break the protocol, and for each an execution of five servers, step by step through
  the handlers of the code, in which its guarantees are lost. Every message of these executions is one
  that the code of its sender computes; some are delayed, none is made up.
\<close>

section \<open>A vote that is forgotten\<close>


section \<open>An acknowledgement of another term\<close>

text \<open>
  C9. What a success reply does to a leader. The leader takes everything up to the last entry of the request as
  stored by that server, raises \<open>nextIndex\<close> and \<open>matchIndex\<close> accordingly, never lowers them, and
  commits the highest entry of its current term that a majority now seems to hold; nothing else
  changes. The term of the request plays no part in it: a reply to a request that the same server sent as leader
  of an earlier term counts like any other.
\<close>

theorem success_reply_counts:
  assumes ok: "leader_ok rf" "state rf = Leader" and reply: "Success reply" "aerTerm reply \<le> currentTerm rf"
    and peer: "0 \<le> peer" "peer < int (peers rf)"
  shows "let match = PrevLogIndex args + int (length (aeEntries args));
      rf1 = rf\<lparr>nextIndex := (nextIndex rf)[nat peer := max (nextIndex rf ! nat peer) (match + 1)],
               matchIndex := (matchIndex rf)[nat peer := max (matchIndex rf ! nat peer) match]\<rparr>
    in \<exists>acts. leaderSendEntries C True peer args reply rf =
         Some (rf1\<lparr>commitIndex := Max ({commitIndex rf} \<union> {n. commitIndex rf < n \<and> committable rf1 n})\<rparr>, acts)"
proof -
  let ?match = "PrevLogIndex args + int (length (aeEntries args))"
  let ?rf = "rf\<lparr>nextIndex := (nextIndex rf)[nat peer := max (nextIndex rf ! nat peer) (?match + 1)],
               matchIndex := (matchIndex rf)[nat peer := max (matchIndex rf ! nat peer) ?match]\<rparr>"
  have len: "length (nextIndex rf) = peers rf" "length (matchIndex rf) = peers rf" using ok(1) by (simp_all add: leader_ok_def)
  have max: "max_int a b = max a b" for a b by (simp add: max_int_def)
  have "leaderSendEntries_next peer args reply rf = Some ?rf"
    using reply(1) peer len by (simp add: leaderSendEntries_next_def idx_def idx_upd_def max Let_def nat_less_iff)
  moreover have "leader_ok ?rf" "state ?rf = Leader" using ok by (simp_all add: leader_ok_def)
  ultimately show ?thesis
    using Commit_highest [of ?rf] reply(2) ok(2) unfolding Let_def leaderSendEntries_def by auto
qed

section \<open>Picking messages out of effects\<close>

fun vote_to :: "int \<Rightarrow> 'c effect list \<Rightarrow> RequestVoteArgs option" where
  "vote_to p [] = None"
| "vote_to p (GoCandidateRequest q a # acts) = (if p = q then Some a else vote_to p acts)"
| "vote_to p (_ # acts) = vote_to p acts"

fun append_to :: "int \<Rightarrow> 'c effect list \<Rightarrow> 'c AppendEntriesArgs option" where
  "append_to p [] = None"
| "append_to p (GoLeaderSendEntries q a # acts) = (if p = q then Some a else append_to p acts)"
| "append_to p (_ # acts) = append_to p acts"

fun snapshot_to :: "int \<Rightarrow> 'c effect list \<Rightarrow> bool" where
  "snapshot_to p [] = False"
| "snapshot_to p (GoSendSnapshot q # acts) = (p = q \<or> snapshot_to p acts)"
| "snapshot_to p (_ # acts) = snapshot_to p acts"

definition tm :: "int \<Rightarrow> clock" where
  "tm t = \<lparr>now = t, rnd = 0\<rparr>"

abbreviation K :: "int codec" where
  "K \<equiv> sample_codec"

text \<open>A whole RPC: the request is handled by the peer and the reply reaches the sender.\<close>

definition vote_call :: "int \<Rightarrow> clock \<Rightarrow> int effect list \<Rightarrow> election \<Rightarrow> int Raft \<Rightarrow> int Raft
    \<Rightarrow> (election \<times> int Raft \<times> int Raft \<times> int effect list) option" where
  "vote_call p k acts el cand voter = do {
     a \<leftarrow> vote_to p acts;
     (voter, reply) \<leftarrow> RequestVote K k a voter;
     (el, cand, acts') \<leftarrow> candidateRequest K k True a reply el cand;
     Some (el, cand, voter, acts')
   }"

definition append_call :: "int \<Rightarrow> clock \<Rightarrow> int effect list \<Rightarrow> int Raft \<Rightarrow> int Raft
    \<Rightarrow> (int Raft \<times> int Raft) option" where
  "append_call p k acts lead foll = do {
     a \<leftarrow> append_to p acts;
     (foll, reply, _) \<leftarrow> AppendEntries K k a foll;
     (lead, _) \<leftarrow> leaderSendEntries K True p a reply lead;
     Some (lead, foll)
   }"

definition timeout :: "clock \<Rightarrow> int Raft \<Rightarrow> (int Raft \<times> election \<times> int effect list) option" where
  "timeout k rf = do {
     (rf, el, acts) \<leftarrow> ticker_body K k k rf;
     el \<leftarrow> el;
     Some (rf, el, acts)
   }"

definition boot :: "int \<Rightarrow> int Raft option" where
  "boot i = Make K (tm 0) 5 i MakePersister"

section \<open>A snapshot RPC hands out a second vote\<close>

text \<open>
  Servers 0 and 1 both stand for term 1. Server 1 wins with 2 and 3; server 0 has its own vote and
  that of 4, and its request to 2 is delayed. Server 1 commits two entries with 3 and 4, the
  service takes a snapshot, and the heartbeat to the lagging server 2 turns into a snapshot RPC.
  The leader never followed anybody, so the RPC carries \<open>LeaderID = 0\<close> and makes server 2 record a
  vote for server 0. The delayed request of server 0 is then granted.
\<close>

definition snapshot_scenario :: "(int Raft \<times> int Raft) option" where
  "snapshot_scenario = do {
     n0 \<leftarrow> boot 0; n1 \<leftarrow> boot 1; n2 \<leftarrow> boot 2; n3 \<leftarrow> boot 3; n4 \<leftarrow> boot 4;
     (n0, e0, v0) \<leftarrow> timeout (tm 1000) n0;
     (n1, e1, v1) \<leftarrow> timeout (tm 1000) n1;
     (e1, n1, n2, _) \<leftarrow> vote_call 2 (tm 1000) v1 e1 n1 n2;
     (e1, n1, n3, _) \<leftarrow> vote_call 3 (tm 1000) v1 e1 n1 n3;
     (e0, n0, n4, _) \<leftarrow> vote_call 4 (tm 1000) v0 e0 n0 n4;
     (n1, _, _) \<leftarrow> Start K (tm 1000) 10 n1;
     (n1, _, acts) \<leftarrow> Start K (tm 1000) 11 n1;
     (n1, n3) \<leftarrow> append_call 3 (tm 1000) acts n1 n3;
     (n1, n4) \<leftarrow> append_call 4 (tm 1000) acts n1 n4;
     (n1, _) \<leftarrow> LoopCommit 3 n1;
     n1 \<leftarrow> Snapshot K 1 [7] n1;
     (n1, _, hb) \<leftarrow> ticker_body K (tm 1050) (tm 1050) n1;
     if snapshot_to 2 hb then do {
       let (n2, _, _) = InstallSnapShot K (SendSnapshot_args n1) n2;
       (e0, n0, n2, _) \<leftarrow> vote_call 2 (tm 1050) v0 e0 n0 n2;
       Some (n0, n1)
     } else None
   }"

text \<open>With the snapshot RPC, election safety fails: servers 0 and 1 both lead term 1.\<close>

lemma snapshot_rpc_two_leaders:
  "map_option (\<lambda>(a, b). (me a, GetState a, me b, GetState b)) snapshot_scenario
     = Some (0, (1, True), 1, (1, True))"
  by code_simp

section \<open>A late reply commits what a minority holds\<close>

text \<open>
  Server 0 leads term 1 and stores two entries on server 1, whose reply is delayed. Server 2 leads
  term 2 and overwrites the log of server 0 with one entry. Server 0 leads term 3, stores a new
  entry at index 2 on server 3, and then the old reply of server 1 arrives: \<open>leaderSendEntries\<close>
  does not compare the term of the request with its own, takes it for an acknowledgement of index
  2, and commits.
\<close>

definition late_reply_scenario :: "int Raft list option" where
  "late_reply_scenario = do {
     n0 \<leftarrow> boot 0; n1 \<leftarrow> boot 1; n2 \<leftarrow> boot 2; n3 \<leftarrow> boot 3; n4 \<leftarrow> boot 4;
     (n0, e0, v0) \<leftarrow> timeout (tm 1000) n0;
     (e0, n0, n1, _) \<leftarrow> vote_call 1 (tm 1000) v0 e0 n0 n1;
     (e0, n0, n2, _) \<leftarrow> vote_call 2 (tm 1000) v0 e0 n0 n2;
     (n0, _, _) \<leftarrow> Start K (tm 1000) 10 n0;
     (n0, _, acts) \<leftarrow> Start K (tm 1000) 11 n0;
     late_args \<leftarrow> append_to 1 acts;
     (n1, late_reply, _) \<leftarrow> AppendEntries K (tm 1000) late_args n1;
     (n2, e2, v2) \<leftarrow> timeout (tm 2000) n2;
     (e2, n2, n3, _) \<leftarrow> vote_call 3 (tm 2000) v2 e2 n2 n3;
     (e2, n2, n4, _) \<leftarrow> vote_call 4 (tm 2000) v2 e2 n2 n4;
     (n2, _, acts) \<leftarrow> Start K (tm 2000) 20 n2;
     (n2, n0) \<leftarrow> append_call 0 (tm 2000) acts n2 n0;
     (n0, e0, v0) \<leftarrow> timeout (tm 3000) n0;
     (e0, n0, n3, _) \<leftarrow> vote_call 3 (tm 3000) v0 e0 n0 n3;
     (e0, n0, n4, _) \<leftarrow> vote_call 4 (tm 3000) v0 e0 n0 n4;
     (n0, _, acts) \<leftarrow> Start K (tm 3000) 30 n0;
     (n0, n3) \<leftarrow> append_call 3 (tm 3000) acts n0 n3;
     (n0, _, acts) \<leftarrow> ticker_body K (tm 3050) (tm 3050) n0;
     (n0, n3) \<leftarrow> append_call 3 (tm 3050) acts n0 n3;
     (n0, _) \<leftarrow> leaderSendEntries K True 1 late_args late_reply n0;
     Some [n0, n1, n2, n3, n4]
   }"

text \<open>
  Server 0, leader of term 3, has commit index 2 although only two of the five servers hold its entry
  at that index.
\<close>

lemma late_reply_commits_minority:
  "map_option (\<lambda>ns. (GetState (hd ns), commitIndex (hd ns),
       map (\<lambda>rf. map_option Term (log_at (rlog rf) 2)) ns)) late_reply_scenario
     = Some ((3, True), 2, [Some 3, Some 1, None, Some 3, None])"
  by code_simp

section \<open>Witnesses\<close>

text \<open>A server of term 1 that has voted for server 1, a snapshot RPC that names server 0, and a request of server 0.\<close>

definition ex_voter :: "int Raft" where
  "ex_voter = (the (boot 2))\<lparr>currentTerm := 1, votedFor := 1\<rparr>"

definition ex_snap_args :: SnapShotArgs where
  "ex_snap_args = \<lparr>ssTerm = 1, ssLeaderID = 0, LastIncludedIndex = 1, LastIncludedTerm = 1, ssSnapShot = [7],
     Offset = 0, Done = False\<rparr>"

definition ex_request :: RequestVoteArgs where
  "ex_request = \<lparr>rvTerm = 1, CandidateId = 0, LastLogIndex = 0, LastLogTerm = 0\<rparr>"


text \<open>
  A leader of term 2, of which nobody has stored anything yet, hears that server 2 accepted a request of term 1
  up to index 2, and commits its entry of term 2 there.
\<close>

definition ex_unheard :: "int Raft" where
  "ex_unheard = ex_leader\<lparr>matchIndex := [0, 0, 0]\<rparr>"

definition ex_accept :: AppendEntriesReply where
  "ex_accept = \<lparr>aerTerm = 1, Success = True, Conflict = False, XTerm = 0, XIndex = 0, XLen = 0\<rparr>"

lemma ex_unheard_commits:
  "map_option (\<lambda>(rf, acts). (commitIndex rf, matchIndex rf)) (leaderSendEntries sample_codec True 2 (ex_append 1 1 1 [1]) ex_accept ex_unheard)
     = Some (2, [0, 0, 2])"
  by code_simp

theorem success_reply_counts_witness:
  "aeTerm (ex_append 1 1 1 [1]) < currentTerm ex_unheard
   \<and> Max ({0} \<union> {n. 0 < n \<and> committable (ex_unheard\<lparr>nextIndex := [3, 4, 4], matchIndex := [0, 0, 2]\<rparr>) n}) = 2"
proof -
  have l: "leader_ok ex_unheard" "state ex_unheard = Leader" "Success ex_accept" "aerTerm ex_accept \<le> currentTerm ex_unheard"
    "(0::int) \<le> 2" "2 < int (peers ex_unheard)" "aeTerm (ex_append 1 1 1 [1]) < currentTerm ex_unheard"
    "commitIndex ex_unheard = 0" "PrevLogIndex (ex_append 1 1 1 [1]) + int (length (aeEntries (ex_append 1 1 1 [1]))) = 2"
    "(nextIndex ex_unheard)[nat 2 := max (nextIndex ex_unheard ! nat 2) (2 + 1)] = [3, 4, 4]"
    "(matchIndex ex_unheard)[nat 2 := max (matchIndex ex_unheard ! nat 2) 2] = [0, 0, 2]"
    by code_simp+
  from success_reply_counts [OF l(1-6), of "ex_append 1 1 1 [1]" sample_codec] ex_unheard_commits
  show ?thesis using l(7) unfolding Let_def l(8-11) by auto
qed

end
