(* ===== verification/RaftRecovery.thy ===== *)
theory RaftRecovery
  imports RaftSystem
begin

text \<open>
  Crashes and restarts of one server. A run starts from a server made with an empty persister and
  takes any calls; the persister is current after each of them, so \<open>Make\<close> on its contents gives
  back the term, the vote and the log. Two consequences of what is not persisted follow.
\<close>

lemma Make_durable: "Make C k n self MakePersister = Some rf \<Longrightarrow> durable C rf"
  using Make_fresh [of C k n self] by auto

text \<open>
  C10. A crash loses nothing that Raft must remember. After any sequence of calls to a server that
  started from an empty persister, restarting it from a copy of its persister succeeds and gives a
  follower with the same term, vote, log and snapshot; what had been committed or applied is
  counted again from the beginning of the log.
\<close>

theorem restart_restores:
  assumes "codec_ok C" and "Make C k n self MakePersister = Some rf0"
    and "run (exec C) calls rf0 = Some rf"
  shows "\<exists>rf'. restart C k' rf = Some rf' \<and> currentTerm rf' = currentTerm rf
    \<and> votedFor rf' = votedFor rf \<and> rlog rf' = rlog rf \<and> persister rf' = persister rf
    \<and> state rf' = Follower \<and> lastApplied rf' = Index0 (rlog rf) \<and> commitIndex rf' = Index0 (rlog rf)"
proof -
  from assms have "durable C rf" by (auto intro: server.good_run dest: Make_durable)
  with assms(1) show ?thesis by (auto elim: restart_durable [where k = k'])
qed

text \<open>
  C11. A server votes at most once per term: in a run without snapshot RPCs, terms never decrease, and
  a vote cast in a term is still the same when the term is.
\<close>

theorem vote_once_per_term:
  assumes "run (exec C) calls rf = Some rf'" and "\<forall>x \<in> set calls. \<not> is_snapshot_rpc x"
    and "votedFor rf \<noteq> -1"
  shows "currentTerm rf \<le> currentTerm rf'
    \<and> (currentTerm rf' = currentTerm rf \<longrightarrow> votedFor rf' = votedFor rf)"
  using assms
proof (induction calls arbitrary: rf)
  case (Cons x calls)
  then obtain rf1 where rf1: "exec C x rf = Some rf1" and rest: "run (exec C) calls rf1 = Some rf'"
    by (auto simp: bind_eq_Some_conv)
  have le: "currentTerm rf \<le> currentTerm rf1"
    using exec_later [OF rf1] by (simp add: later_def)
  have keep: "currentTerm rf1 = currentTerm rf \<Longrightarrow> votedFor rf1 = votedFor rf"
    using exec_vote_kept [OF rf1] Cons.prems by (simp add: vote_kept_def)
  have le': "currentTerm rf1 \<le> currentTerm rf'"
    using exec_run_later [OF rest] by (simp add: later_def)
  show ?case
  proof (cases "currentTerm rf1 = currentTerm rf")
    case True
    with Cons.IH [OF rest] keep Cons.prems show ?thesis by simp
  qed (use le le' in simp)
qed simp

text \<open>
  What is not persisted: \<open>LastIndex\<close> and \<open>LastTerm\<close>, from which \<open>SendSnapshot\<close> fills its RPC, are
  zero after a restart. A restarted leader therefore offers a snapshot that ends at index 0, and no
  server with a well-formed log ever passes it to its service, whatever it is missing.
\<close>

theorem restarted_leader_snapshot_ignored:
  assumes "codec_ok C" and "durable C rf" and "restart C k rf = Some rf'" and "wf_log (rlog follower)"
  shows "LastIncludedIndex (SendSnapshot_args rf') = 0
    \<and> snd (snd (InstallSnapShot C (SendSnapshot_args rf') follower)) = []"
proof -
  from assms(1-3) have "LastIndex rf' = 0" by (auto elim: restart_durable [where k = k])
  with assms(4) show ?thesis
    by (simp add: SendSnapshot_args_def InstallSnapShot_def Let_def setNewTerm_def wf_log_def)
qed

section \<open>Examples\<close>

definition ex_boot :: "int Raft option" where
  "ex_boot = Make sample_codec \<lparr>now = 0, rnd = 0\<rparr> 3 0 MakePersister"

definition ex_calls :: "int call list" where
  "ex_calls = [CTicker sample_clock sample_clock, CKill]"

lemma ex_run: "\<exists>rf0 rf. ex_boot = Some rf0 \<and> run (exec sample_codec) ex_calls rf0 = Some rf
    \<and> currentTerm rf = 1 \<and> votedFor rf = 0"
proof -
  have "map_option (\<lambda>rf. (currentTerm rf, votedFor rf))
      (Option.bind ex_boot (run (exec sample_codec) ex_calls)) = Some (1, 0)"
    by code_simp
  then show ?thesis by (auto simp: bind_eq_Some_conv)
qed

theorem restart_restores_witness:
  "\<exists>rf0 rf rf'. ex_boot = Some rf0 \<and> run (exec sample_codec) ex_calls rf0 = Some rf
     \<and> restart sample_codec sample_clock rf = Some rf' \<and> currentTerm rf' = 1 \<and> votedFor rf' = 0
     \<and> rlog rf' = rlog rf"
proof -
  from ex_run obtain rf0 rf where *: "ex_boot = Some rf0" "run (exec sample_codec) ex_calls rf0 = Some rf"
    "currentTerm rf = 1" "votedFor rf = 0" by blast
  with restart_restores [OF sample_codec_ok *(1) [unfolded ex_boot_def] *(2), of sample_clock]
  show ?thesis by auto
qed

theorem vote_once_per_term_witness:
  "\<exists>rf0 rf rf'. ex_boot = Some rf0 \<and> run (exec sample_codec) ex_calls rf0 = Some rf \<and> votedFor rf = 0
     \<and> exec sample_codec CKill rf = Some rf' \<and> votedFor rf' = 0"
proof -
  from ex_run obtain rf0 rf where *: "ex_boot = Some rf0" "run (exec sample_codec) ex_calls rf0 = Some rf"
    "votedFor rf = 0" by blast
  have "votedFor (Kill rf) = 0"
    using vote_once_per_term [of sample_codec "[CKill]" rf "Kill rf"] *(3) by (simp add: Kill_def)
  with * show ?thesis by (intro exI [of _ rf0] exI [of _ rf] exI [of _ "Kill rf"]) (simp add: Kill_def)
qed

theorem restarted_leader_snapshot_ignored_witness:
  "\<exists>rf0 rf'. ex_boot = Some rf0 \<and> restart sample_codec sample_clock rf0 = Some rf'
     \<and> snd (snd (InstallSnapShot sample_codec (SendSnapshot_args rf') rf0)) = []"
proof -
  from Make_fresh [of sample_codec "\<lparr>now = 0, rnd = 0\<rparr>" 3 0] obtain rf0 where
    rf0: "ex_boot = Some rf0" "durable sample_codec rf0" "rlog rf0 = initial_log"
    by (auto simp: ex_boot_def)
  then have wf: "wf_log (rlog rf0)"
    by (simp add: wf_log_def log_append_def makeEmptyLog_def)
  from restart_durable [OF sample_codec_ok rf0(2), of sample_clock] obtain rf' where
    "restart sample_codec sample_clock rf0 = Some rf'" by blast
  with rf0 restarted_leader_snapshot_ignored [OF sample_codec_ok rf0(2) this wf] show ?thesis by auto
qed

end
