(* ===== verification/RaftMatching.thy ===== *)
theory RaftMatching
  imports RaftSystem RaftCommit
begin

text \<open>
  Log replication in a cluster. The state of \<open>RaftSystem\<close> is extended by the \<open>AppendEntries\<close> requests
  that have been sent; a request may be delivered to any server, any number of times and at any later
  time, or never. Replies to them are arbitrary. Servers compact their logs with \<open>Snapshot\<close>; the
  snapshot RPC, and \<open>CondInstallSnapshot\<close> that follows it, are left out.

  The invariant relates every log and every request to one log per term, the log of the leader of that
  term: \<open>H t k\<close> is the entry at index \<open>k\<close> of the leader of term \<open>t\<close>.
\<close>

section \<open>Steps\<close>

fun sent_args :: "'c effect \<Rightarrow> 'c AppendEntriesArgs list" where
  "sent_args (GoLeaderSendEntries p a) = [a]"
| "sent_args e = []"

definition sent :: "'c effect list \<Rightarrow> 'c AppendEntriesArgs list" where
  "sent acts = concat (map sent_args acts)"

text \<open>Calls that start no request and store no entry; the arguments are arbitrary.\<close>

fun local_call :: "'c call \<Rightarrow> bool" where
  "local_call (CLeaderSendEntries ok p a r) = True"
| "local_call (CSendSnapshot ok r p) = True"
| "local_call CLoopCommit = True"
| "local_call (CSnapshot i snap) = True"
| "local_call CKill = True"
| "local_call x = False"

inductive rep_step :: "'c codec \<Rightarrow> nat \<Rightarrow> 'c sys \<times> 'c AppendEntriesArgs list
    \<Rightarrow> 'c sys \<times> 'c AppendEntriesArgs list \<Rightarrow> bool" for C n where
  idle: "i \<in> peer_ids n \<Longrightarrow> ticker_body C k k' (nodes s i) = Some (rf, None, acts) \<Longrightarrow>
    rep_step C n (s, ms) (s\<lparr>nodes := (nodes s)(i := rf)\<rparr>, ms @ sent acts)"
| elect: "i \<in> peer_ids n \<Longrightarrow> ticker_body C k k' (nodes s i) = Some (rf, Some el, acts) \<Longrightarrow>
    rep_step C n (s, ms) (s\<lparr>nodes := (nodes s)(i := rf),
      granted := insert (i, currentTerm rf, i) (granted s),
      elections := (elections s)((i, currentTerm rf) \<mapsto> el),
      rpcs := launch i acts (rpcs s),
      tallied := (tallied s)((i, currentTerm rf) := {i})\<rparr>, ms @ sent acts)"
| request: "rpcs s (c, t, p) = Some (Sent a) \<Longrightarrow>
    RequestVote C k a (nodes s p) = Some (rf, reply) \<Longrightarrow>
    rep_step C n (s, ms) (s\<lparr>nodes := (nodes s)(p := rf),
      granted := (if VoteGranted reply then insert (p, t, c) (granted s) else granted s),
      rpcs := (rpcs s)((c, t, p) \<mapsto> Answered a reply)\<rparr>, ms)"
| answer: "rpcs s (c, t, p) = Some (Answered a reply) \<Longrightarrow> elections s (c, t) = Some el \<Longrightarrow>
    candidateRequest C k True a reply el (nodes s c) = Some (el', rf, acts) \<Longrightarrow>
    rep_step C n (s, ms) (s\<lparr>nodes := (nodes s)(c := rf),
      elections := (elections s)((c, t) \<mapsto> el'),
      rpcs := (rpcs s)((c, t, p) := None),
      tallied := (tallied s)((c, t) :=
        (if VoteGranted reply then insert p (tallied s (c, t)) else tallied s (c, t)))\<rparr>, ms @ sent acts)"
| lost: "rep_step C n (s, ms) (s\<lparr>rpcs := (rpcs s)(x := None)\<rparr>, ms)"
| deliver: "i \<in> peer_ids n \<Longrightarrow> a \<in> set ms \<Longrightarrow> AppendEntries C k a (nodes s i) = Some (rf, reply, acts) \<Longrightarrow>
    rep_step C n (s, ms) (s\<lparr>nodes := (nodes s)(i := rf)\<rparr>, ms @ sent acts)"
| submit: "i \<in> peer_ids n \<Longrightarrow> Start C k c (nodes s i) = Some (rf, r, acts) \<Longrightarrow>
    rep_step C n (s, ms) (s\<lparr>nodes := (nodes s)(i := rf)\<rparr>, ms @ sent acts)"
| local: "i \<in> peer_ids n \<Longrightarrow> local_call x \<Longrightarrow> exec C x (nodes s i) = Some rf \<Longrightarrow>
    rep_step C n (s, ms) (s\<lparr>nodes := (nodes s)(i := rf)\<rparr>, ms)"
| crash: "i \<in> peer_ids n \<Longrightarrow> restart C k (nodes s i) = Some rf \<Longrightarrow>
    rep_step C n (s, ms) (s\<lparr>nodes := (nodes s)(i := rf),
      elections := (\<lambda>x. if fst x = i then None else elections s x)\<rparr>, ms)"

inductive rep_reach :: "'c codec \<Rightarrow> nat \<Rightarrow> 'c sys \<times> 'c AppendEntriesArgs list \<Rightarrow> bool" for C n where
  start: "rep_reach C n (sys_init C n k, [])"
| step: "rep_reach C n s \<Longrightarrow> rep_step C n s s' \<Longrightarrow> rep_reach C n s'"

text \<open>Every step is a step of the cluster of \<open>RaftSystem\<close>, so what holds there holds here.\<close>

lemma rep_step_sys: "rep_step C n x y \<Longrightarrow> sys_step C n (fst x) (fst y)"
proof (induction rule: rep_step.induct)
  case (deliver i a ms k s rf reply acts)
  then show ?case by (auto intro!: sys_step.other [where x = "CAppendEntries k a"])
next
  case (submit i k c s rf r acts ms)
  then show ?case by (auto intro!: sys_step.other [where x = "CStart k c"])
next
  case (local i x s rf ms)
  then have "plain_call x" by (cases x) auto
  with local show ?case by (auto intro: sys_step.other)
qed (unfold fst_conv, (rule sys_step.intros; assumption)+)

lemma rep_reach_sys: "rep_reach C n x \<Longrightarrow> sys_reach C n (fst x)"
  by (induction rule: rep_reach.induct) (auto intro: sys_reach.intros dest: rep_step_sys)

section \<open>The invariant\<close>

type_synonym 'c hist = "int \<Rightarrow> int \<Rightarrow> 'c Entry option"

definition hist_ok :: "'c hist \<Rightarrow> bool" where
  "hist_ok H \<longleftrightarrow> (\<forall>t k e. H t k = Some e \<longrightarrow>
     Index e = k \<and> Term e \<le> t \<and> (\<forall>j \<le> k. H t j = H (Term e) j))"

definition hist_le :: "'c hist \<Rightarrow> 'c hist \<Rightarrow> bool" where
  "hist_le H H' \<longleftrightarrow> (\<forall>t k e. H t k = Some e \<longrightarrow> H' t k = Some e)"

text \<open>Up to any of its entries, a log is the log of the leader that created the entry.\<close>

definition fits :: "'c hist \<Rightarrow> 'c Log \<Rightarrow> bool" where
  "fits H l \<longleftrightarrow> (\<forall>k e j x. log_at l k = Some e \<longrightarrow> log_at l j = Some x \<longrightarrow> j \<le> k \<longrightarrow>
     H (Term e) j = Some x)"

definition owns :: "'c hist \<Rightarrow> 'c Raft \<Rightarrow> bool" where
  "owns H rf \<longleftrightarrow> (\<forall>k e. log_at (rlog rf) k = Some e \<longrightarrow> H (currentTerm rf) k = Some e)
     \<and> (\<forall>k e. H (currentTerm rf) k = Some e \<longrightarrow> k \<le> last_index (rlog rf))"

definition replica_ok :: "'c hist \<Rightarrow> 'c Raft \<Rightarrow> bool" where
  "replica_ok H rf \<longleftrightarrow> wf_log (rlog rf) \<and> fits H (rlog rf) \<and> 0 \<le> currentTerm rf
     \<and> (\<forall>k e. log_at (rlog rf) k = Some e \<longrightarrow> Term e \<le> currentTerm rf)
     \<and> (state rf = Leader \<longrightarrow> owns H rf)"

definition msg_ok :: "'c hist \<Rightarrow> 'c AppendEntriesArgs \<Rightarrow> bool" where
  "msg_ok H a \<longleftrightarrow> (\<exists>p. H (aeTerm a) (PrevLogIndex a) = Some p \<and> Term p = PrevLogTerm a)
     \<and> (\<forall>m < length (aeEntries a). H (aeTerm a) (PrevLogIndex a + 1 + int m) = Some (aeEntries a ! m))"

text \<open>Server \<open>i\<close> has won term \<open>t\<close> and cannot win it again.\<close>

definition led :: "nat \<Rightarrow> 'c sys \<Rightarrow> int \<Rightarrow> int \<Rightarrow> bool" where
  "led n s t i \<longleftrightarrow> i \<in> peer_ids n \<and> majority n {v. (v, t, i) \<in> granted s} \<and> t \<le> currentTerm (nodes s i)
     \<and> (\<forall>el. elections s (i, t) = Some el \<longrightarrow> becomeLeader el)"

definition rep_inv :: "'c codec \<Rightarrow> nat \<Rightarrow> 'c sys \<Rightarrow> 'c AppendEntriesArgs set \<Rightarrow> 'c hist \<Rightarrow> bool" where
  "rep_inv C n s M H \<longleftrightarrow> sys_inv C n s \<and> hist_ok H \<and> (\<forall>i \<in> peer_ids n. replica_ok H (nodes s i))
     \<and> (\<forall>a \<in> M. msg_ok H a) \<and> (\<forall>t. H t \<noteq> Map.empty \<longrightarrow> t = 0 \<or> (\<exists>i. led n s t i))
     \<and> (\<forall>c t el. elections s (c, t) = Some el \<longrightarrow> 0 < t)"

lemma hist_okD:
  assumes "hist_ok H" and "H t k = Some e"
  shows "Index e = k" "Term e \<le> t" "j \<le> k \<Longrightarrow> H (Term e) j = H t j"
  using assms unfolding hist_ok_def by metis+

lemma fitsD: "fits H l \<Longrightarrow> log_at l k = Some e \<Longrightarrow> log_at l j = Some x \<Longrightarrow> j \<le> k \<Longrightarrow> H (Term e) j = Some x"
  unfolding fits_def by blast

lemma hist_leD: "hist_le H H' \<Longrightarrow> H t k = Some e \<Longrightarrow> H' t k = Some e"
  unfolding hist_le_def by blast

lemma hist_le_refl [simp]: "hist_le H H"
  by (simp add: hist_le_def)

lemma fits_mono: "fits H l \<Longrightarrow> hist_le H H' \<Longrightarrow> fits H' l"
  unfolding fits_def hist_le_def by blast

lemma msg_ok_mono: "msg_ok H a \<Longrightarrow> hist_le H H' \<Longrightarrow> msg_ok H' a"
  unfolding msg_ok_def hist_le_def by blast

lemma msg_wf: "hist_ok H \<Longrightarrow> msg_ok H a \<Longrightarrow> wf_entries (PrevLogIndex a + 1) (aeEntries a)"
  by (auto simp: msg_ok_def wf_entries_def dest: hist_okD(1))

section \<open>Receiving entries\<close>

lemma merge_terms_old:
  "length new \<le> length old \<Longrightarrow> (\<And>q. q < length new \<Longrightarrow> Term (old ! q) = Term (new ! q)) \<Longrightarrow>
     merge_terms old new = old"
proof (induction old new rule: merge_terms.induct)
  case (3 x old e new)
  have "Term x = Term e" using 3(3) [of 0] by simp
  moreover have "merge_terms old new = old"
    using 3(1) [OF \<open>Term x = Term e\<close>] 3(2) 3(3) [of "Suc _"] by simp
  ultimately show ?case by simp
qed auto

text \<open>If equal terms mean equal entries, the merge is one of its two arguments.\<close>

lemma merge_terms_either:
  assumes "\<And>q. q < length old \<Longrightarrow> q < length new \<Longrightarrow> Term (old ! q) = Term (new ! q) \<Longrightarrow> old ! q = new ! q"
  shows "merge_terms old new = old \<or> merge_terms old new = new"
  using assms
proof (induction old new rule: merge_terms.induct)
  case (3 x old e new)
  show ?case
  proof (cases "Term x = Term e")
    case True
    then have "x = e" using 3(2) [of 0] by simp
    moreover have "merge_terms old new = old \<or> merge_terms old new = new"
      using 3(1) [OF True] 3(2) [of "Suc _"] by auto
    ultimately show ?thesis by auto
  qed simp
qed auto

lemma nth_drop_log:
  "Index0 l \<le> i \<Longrightarrow> q < length (drop (nat (i - Index0 l)) (Entries l)) \<Longrightarrow>
     log_at l (i + int q) = Some (drop (nat (i - Index0 l)) (Entries l) ! q)"
  by (auto simp: log_at_def idx_def nat_add_distrib add.commute intro!: arg_cong [where f = "(!) (Entries l)"])

lemma receive_either:
  assumes "Index0 l \<le> i"
    and same: "\<And>q e. q < length new \<Longrightarrow> log_at l (i + int q) = Some e \<Longrightarrow> Term e = Term (new ! q) \<Longrightarrow> e = new ! q"
  shows "receive l i new = l \<or> receive l i new = l\<lparr>Entries := take (nat (i - Index0 l)) (Entries l) @ new\<rparr>"
proof -
  have "merge_terms (drop (nat (i - Index0 l)) (Entries l)) new = drop (nat (i - Index0 l)) (Entries l)
      \<or> merge_terms (drop (nat (i - Index0 l)) (Entries l)) new = new"
    by (rule merge_terms_either) (use nth_drop_log [OF assms(1)] same in blast)
  then show ?thesis by (auto simp: receive_def)
qed

lemma receive_old:
  assumes "Index0 l \<le> i" and "i + int (length new) \<le> Len l"
    and same: "\<And>q e. q < length new \<Longrightarrow> log_at l (i + int q) = Some e \<Longrightarrow> Term e = Term (new ! q)"
  shows "receive l i new = l"
proof -
  have len: "length new \<le> length (drop (nat (i - Index0 l)) (Entries l))"
    using assms(1,2) by (auto simp: Len_def)
  then have "merge_terms (drop (nat (i - Index0 l)) (Entries l)) new = drop (nat (i - Index0 l)) (Entries l)"
    by (rule merge_terms_old) (use nth_drop_log [OF assms(1)] same len in fastforce)
  then show ?thesis by (simp add: receive_def)
qed

lemma log_at_replaced:
  assumes "Index0 l \<le> i" and "i \<le> Len l"
  shows "log_at (l\<lparr>Entries := take (nat (i - Index0 l)) (Entries l) @ new\<rparr>) j =
    (if j < i then log_at l j else idx new (j - i))"
  using assms
  by (auto simp: log_at_def idx_def Len_def nth_append nat_less_iff intro!: arg_cong [where f = "(!) new"])

text \<open>A log that fits takes the entries of a request and fits again.\<close>

lemma fits_receive:
  assumes H: "hist_ok H" and l: "fits H l" and a: "msg_ok H a"
    and prev: "log_at l (PrevLogIndex a) = Some p" "Term p = PrevLogTerm a"
  shows "fits H (receive l (PrevLogIndex a + 1) (aeEntries a))"
proof -
  let ?i = "PrevLogIndex a + 1" and ?new = "aeEntries a" and ?t = "aeTerm a"
  have i: "Index0 l \<le> ?i" "?i \<le> Len l" using prev(1) log_at_defined [of l "PrevLogIndex a"] by auto
  have new: "H ?t (?i + int q) = Some (?new ! q)" if "q < length ?new" for q
    using a that by (auto simp: msg_ok_def add.assoc)
  have below: "H ?t j = Some x" if "log_at l j = Some x" "j < ?i" for j x
    using fitsD [OF l prev(1) that(1)] that(2) a prev(2) hist_okD(3) [OF H, of ?t "PrevLogIndex a" _ j]
    by (auto simp: msg_ok_def)
  have "e = ?new ! q" if "q < length ?new" "log_at l (?i + int q) = Some e" "Term e = Term (?new ! q)" for q e
  proof -
    have "H (Term (?new ! q)) (?i + int q) = H ?t (?i + int q)"
      using hist_okD(3) [OF H new [OF that(1)]] by blast
    with fitsD [OF l that(2,2) order_refl] new [OF that(1)] that(3) show ?thesis by simp
  qed
  from receive_either [OF i(1) this] consider "receive l ?i ?new = l"
    | "receive l ?i ?new = l\<lparr>Entries := take (nat (?i - Index0 l)) (Entries l) @ ?new\<rparr>" by blast
  then show ?thesis
  proof cases
    case 2
    have at: "H ?t j = Some x" if "log_at (receive l ?i ?new) j = Some x" "?i \<le> j" for j x
      using that new [of "nat (j - ?i)"] unfolding 2 log_at_replaced [OF i] by (auto simp: idx_Some_iff)
    show ?thesis
      unfolding fits_def
    proof (intro allI impI)
      fix k e j x
      assume e: "log_at (receive l ?i ?new) k = Some e" and x: "log_at (receive l ?i ?new) j = Some x"
        and jk: "j \<le> k"
      show "H (Term e) j = Some x"
      proof (cases "k < ?i")
        case True
        with e x jk show ?thesis unfolding 2 log_at_replaced [OF i] by (auto intro: fitsD [OF l])
      next
        case False
        then have "H (Term e) j = H ?t j" using hist_okD(3) [OF H at [OF e]] jk by simp
        with at [OF x] below [of j x] x show ?thesis
          unfolding 2 log_at_replaced [OF i] by (cases "j < ?i") auto
      qed
    qed
  qed (use l in simp)
qed

text \<open>The terms of the entries stay below that of the request.\<close>

lemma receive_terms:
  assumes H: "hist_ok H" and a: "msg_ok H a" and prev: "log_at l (PrevLogIndex a) = Some p"
    and old: "\<And>k e. log_at l k = Some e \<Longrightarrow> Term e \<le> aeTerm a"
    and e: "log_at (receive l (PrevLogIndex a + 1) (aeEntries a)) k = Some e"
  shows "Term e \<le> aeTerm a"
proof -
  let ?i = "PrevLogIndex a + 1" and ?new = "aeEntries a"
  let ?old = "drop (nat (?i - Index0 l)) (Entries l)"
  have i: "Index0 l \<le> ?i" using prev log_at_defined [of l "PrevLogIndex a"] by auto
  have new: "Term x \<le> aeTerm a" if "x \<in> set ?new" for x
    using a that hist_okD(2) [OF H] by (fastforce simp: msg_ok_def in_set_conv_nth)
  have "set (merge_terms xs ys) \<subseteq> set xs \<union> set ys" for xs ys :: "'a Entry list"
    by (induction xs ys rule: merge_terms.induct) auto
  then have "x \<in> set (Entries l) \<union> set ?new" if "x \<in> set (Entries (receive l ?i ?new))" for x
    using that by (fastforce simp: receive_def dest: in_set_takeD in_set_dropD)
  moreover have "e \<in> set (Entries (receive l ?i ?new))"
    using e by (auto simp: log_at_def idx_Some_iff)
  moreover have "Term x \<le> aeTerm a" if "x \<in> set (Entries l)" for x
  proof -
    from that obtain m where "m < length (Entries l)" "Entries l ! m = x" by (auto simp: in_set_conv_nth)
    with old [of "Index0 l + int m" x] show ?thesis by (simp add: log_at_def)
  qed
  ultimately show ?thesis using new by blast
qed

section \<open>The handlers\<close>

lemma sent_Nil [simp]: "sent [] = []"
  by (simp add: sent_def)

lemma sent_append [simp]: "sent (xs @ ys) = sent xs @ sent ys"
  by (simp add: sent_def)

lemma AppendEntries_cases:
  assumes wf: "wf_log (rlog rf)" and new: "wf_entries (PrevLogIndex a + 1) (aeEntries a)"
    and ae: "AppendEntries C k a rf = Some (rf', reply, acts)"
  obtains (kept) "rlog rf' = rlog rf"
  | (stored) p where "log_at (rlog rf) (PrevLogIndex a) = Some p" "Term p = PrevLogTerm a"
      "currentTerm rf \<le> aeTerm a" "currentTerm rf' = aeTerm a"
      "rlog rf' = receive (rlog rf) (PrevLogIndex a + 1) (aeEntries a)"
proof (cases "currentTerm rf \<le> aeTerm a \<and>
    (\<exists>p. log_at (rlog rf) (PrevLogIndex a) = Some p \<and> Term p = PrevLogTerm a)")
  case True
  then obtain p where p: "log_at (rlog rf) (PrevLogIndex a) = Some p" "Term p = PrevLogTerm a"
    and t: "currentTerm rf \<le> aeTerm a" by blast
  from AppendEntries_refinement [OF wf t p new, of C k] ae stored [OF p t] show thesis by auto
next
  case False
  with ae have "rlog rf' = rlog rf"
    by (auto simp: AppendEntries_def AppendEntries_body_def Let_def setNewTerm_def bind_eq_Some_conv
        split: if_splits)
  then show thesis by (rule kept)
qed

lemma AppendEntries_sent:
  "AppendEntries C k a rf = Some (rf', reply, acts) \<Longrightarrow> sent acts = []"
  by (auto simp: AppendEntries_def AppendEntries_body_def AppendEntries_commit_def Let_def
      bind_eq_Some_conv sent_def split: if_splits)

text \<open>A leader that gets entries of its own term back keeps its log.\<close>

lemma owner_receive:
  assumes H: "hist_ok H" and rf: "wf_log (rlog rf)" "owns H rf" and a: "msg_ok H a" "aeTerm a = currentTerm rf"
    and prev: "log_at (rlog rf) (PrevLogIndex a) = Some p"
  shows "receive (rlog rf) (PrevLogIndex a + 1) (aeEntries a) = rlog rf"
proof (rule receive_old)
  let ?l = "rlog rf" and ?i = "PrevLogIndex a + 1"
  show "Index0 ?l \<le> ?i" using log_at_wf [OF rf(1) prev] by simp
  have new: "H (currentTerm rf) (?i + int q) = Some (aeEntries a ! q)" if "q < length (aeEntries a)" for q
    using a that by (auto simp: msg_ok_def add.assoc)
  show "?i + int (length (aeEntries a)) \<le> Len ?l"
  proof (cases "aeEntries a = []")
    case True
    then show ?thesis using log_at_wf [OF rf(1) prev] by simp
  next
    case False
    with new [of "length (aeEntries a) - 1"] rf(2) show ?thesis unfolding owns_def
      by (fastforce simp: of_nat_diff Suc_le_eq)
  qed
  show "Term e = Term (aeEntries a ! q)"
    if "q < length (aeEntries a)" "log_at ?l (?i + int q) = Some e" for q e
    using that new [OF that(1)] rf(2) unfolding owns_def by fastforce
qed

lemma AppendEntries_replica_ok:
  assumes H: "hist_ok H" and rf: "replica_ok H rf" and a: "msg_ok H a"
    and ae: "AppendEntries C k a rf = Some (rf', reply, acts)"
  shows "replica_ok H rf'"
proof -
  from rf have wf: "wf_log (rlog rf)" and fits: "fits H (rlog rf)" and t: "0 \<le> currentTerm rf"
    and terms: "\<And>k e. log_at (rlog rf) k = Some e \<Longrightarrow> Term e \<le> currentTerm rf"
    by (auto simp: replica_ok_def)
  have later: "currentTerm rf \<le> currentTerm rf'"
    using AppendEntries_later [OF ae] by (simp add: later_def)
  have lead: "owns H rf \<and> currentTerm rf' = currentTerm rf" if "state rf' = Leader"
    using AppendEntries_leader [OF ae that] rf by (simp add: replica_ok_def)
  from wf msg_wf [OF H a] ae show ?thesis
  proof (cases rule: AppendEntries_cases)
    case kept
    with rf later t lead show ?thesis by (fastforce simp: replica_ok_def owns_def)
  next
    case (stored p)
    have i: "Index0 (rlog rf) < PrevLogIndex a + 1" "PrevLogIndex a + 1 \<le> Len (rlog rf)"
      using log_at_wf [OF wf stored(1)] by auto
    have "owns H rf'" if "state rf' = Leader"
      using lead [OF that] owner_receive [OF H wf _ a _ stored(1)] stored(4,5) by (simp add: owns_def)
    moreover have "Term e \<le> aeTerm a" if "log_at (rlog rf') j = Some e" for j e
      using receive_terms [OF H a stored(1) _ that [unfolded stored(5)]] terms stored(3) by fastforce
    ultimately show ?thesis
      using wf_receive [OF wf i msg_wf [OF H a]] fits_receive [OF H fits a stored(1,2)] stored t
      by (auto simp: replica_ok_def)
  qed
qed

text \<open>The requests a leader sends are parts of its log.\<close>

lemma copy_entries_all: "copy_entries (length es) es = es"
  by (simp add: copy_entries_def)

lemma appendEntries_peer_sent:
  assumes rf: "wf_log (rlog rf)" "owns H rf" and lg: "Index lg = last_index (rlog rf)"
    and ae: "appendEntries_peer hb lg p rf = Some acts" and a: "a \<in> set (sent acts)"
  shows "msg_ok H a"
proof -
  let ?l = "rlog rf"
  from ae a obtain ni prev tail where ni: "Index0 ?l < ni" "0 \<le> Index lg - ni + 1"
    and prev: "log_at ?l (ni - 1) = Some prev" and tail: "Tail ?l ni = Some tail"
    and a: "a = \<lparr>aeTerm = currentTerm rf, LeaderId = me rf, PrevLogIndex = Index prev,
      PrevLogTerm = Term prev, aeEntries = copy_entries (nat (Index lg - ni + 1)) tail,
      LeaderCommit = commitIndex rf\<rparr>"
    by (auto simp: appendEntries_peer_def Let_def bind_eq_Some_conv sent_def not_less split: if_splits)
  from tail ni have tl: "tail = drop (nat (ni - Index0 ?l)) (Entries ?l)"
    by (auto simp: Tail_def slice_from_Some_iff)
  have "nat (Index lg - ni + 1) = length tail"
    using ni lg by (simp add: tl Len_def)
  then have es: "aeEntries a = tail" by (simp add: a copy_entries_all)
  have idx: "Index prev = ni - 1" using log_at_wf [OF rf(1) prev] by simp
  have "log_at ?l (ni + int m) = Some (tail ! m)" if "m < length tail" for m
    using nth_drop_log [of ?l ni m] that ni by (simp add: tl)
  with rf(2) prev show ?thesis
    unfolding msg_ok_def es by (auto simp: a idx owns_def)
qed

lemma appendEntries_loop_sent:
  assumes "wf_log (rlog rf)" "owns H rf" "Index lg = last_index (rlog rf)"
    and "appendEntries_loop k hb lg ps rf = Some (rf', acts)" and "a \<in> set (sent acts)"
  shows "msg_ok H a"
  using assms
proof (induction ps arbitrary: rf acts)
  case (Cons p ps)
  have own: "owns H (resetElectionTimer k rf)" using Cons.prems(2) by (simp add: owns_def)
  show ?case
  proof (cases "p = me rf")
    case True
    with Cons.prems(4) have "appendEntries_loop k hb lg ps (resetElectionTimer k rf) = Some (rf', acts)"
      by simp
    from Cons.IH [OF _ own _ this Cons.prems(5)] Cons.prems(1,3) show ?thesis by simp
  next
    case False
    with Cons.prems(4) obtain acts1 acts2 where "appendEntries_peer hb lg p rf = Some acts1"
      "appendEntries_loop k hb lg ps rf = Some (rf', acts2)" "acts = acts1 @ acts2"
      by (auto simp: bind_eq_Some_conv)
    with Cons.IH [OF Cons.prems(1-3)] appendEntries_peer_sent [OF Cons.prems(1-3)] Cons.prems(5)
    show ?thesis by auto
  qed
qed simp

lemma appendEntries_sent:
  assumes rf: "wf_log (rlog rf)" "owns H rf" and ae: "appendEntries k hb rf = Some (rf', acts)"
    and a: "a \<in> set (sent acts)"
  shows "msg_ok H a"
proof -
  from ae rf(1) have "appendEntries_loop k hb (last (Entries (rlog rf))) (peer_range rf) rf = Some (rf', acts)"
    by (simp add: appendEntries_def LastLog_wf)
  from appendEntries_loop_sent [OF rf Index_last [OF rf(1)] this a] show ?thesis .
qed

lemma owns_cong: "rlog rf' = rlog rf \<Longrightarrow> currentTerm rf' = currentTerm rf \<Longrightarrow> owns H rf' = owns H rf"
  by (simp add: owns_def)

text \<open>A server that keeps its log, and keeps or loses its leadership.\<close>

lemma replica_ok_same_log:
  assumes "replica_ok H rf" and "rlog rf' = rlog rf" and "later rf rf'"
    and "state rf' = Leader \<Longrightarrow> state rf = Leader \<and> currentTerm rf' = currentTerm rf"
  shows "replica_ok H rf'"
  using assms by (fastforce simp: replica_ok_def later_def owns_def)

lemma ticker_sent:
  assumes rf: "replica_ok H rf" and tick: "ticker_body C k k' rf = Some (rf', el, acts)" and a: "a \<in> set (sent acts)"
  shows "msg_ok H a"
proof -
  have none: "sent [GoCandidateRequest p args. p \<leftarrow> ps, P p] = []" for args :: RequestVoteArgs and ps P
    by (induction ps) (auto simp: sent_def)
  from tick a obtain rf1 acts1 where "(if state rf = Leader then appendEntries k True rf else Some (rf, []))
      = Some (rf1, acts1)" "a \<in> set (sent acts1)"
    by (auto simp: ticker_body_def leaderElection_def Let_def bind_eq_Some_conv none split: if_splits)
  with rf appendEntries_sent [of rf H] show ?thesis by (auto simp: replica_ok_def split: if_splits)
qed

lemma ticker_rlog: "ticker_body C k k' rf = Some (rf', el, acts) \<Longrightarrow> rlog rf' = rlog rf"
  by (auto simp: ticker_body_def leaderElection_def Let_def bind_eq_Some_conv
      dest!: appendEntries_result split: if_splits)

lemma RequestVote_rlog: "RequestVote C k a rf = Some (rf', reply) \<Longrightarrow> rlog rf' = rlog rf"
  by (auto simp: RequestVote_def Let_def setNewTerm_def bind_eq_Some_conv split: if_splits)

text \<open>Compaction gives up entries at the front.\<close>

lemma Snapshot_rlog:
  assumes wf: "wf_log (rlog rf)" and snap: "Snapshot C i snap rf = Some rf'"
  shows "rlog rf' = rlog rf \<or> wf_log (rlog rf') \<and> last_index (rlog rf') = last_index (rlog rf)
    \<and> (\<forall>k e. log_at (rlog rf') k = Some e \<longrightarrow> log_at (rlog rf) k = Some e)"
proof -
  let ?l = "rlog rf"
  have last: "LastLog ?l = Some (last (Entries ?l))" "Index (last (Entries ?l)) = last_index ?l"
    using wf by (simp_all add: LastLog_wf Index_last)
  show ?thesis
  proof (cases "i \<ge> last_index ?l \<or> i < Index0 ?l \<or> i > commitIndex rf")
    case True
    then have "Snapshot C i snap rf = Some rf" using last by (auto simp: Snapshot_def)
    with snap show ?thesis by simp
  next
    case False
    let ?d = "nat (i - Index0 ?l)"
    from False have i: "Index0 ?l \<le> i" "i < last_index ?l" by auto
    have es: "mapM (log_at ?l) [i..last_index ?l] = Some (drop ?d (Entries ?l))"
      using mapM_log_at_suffix [OF wf i(1)] i by simp
    from snap False last es have rf': "rlog rf' = \<lparr>Entries = drop ?d (Entries ?l), Index0 = i\<rparr>"
      by (auto simp: Snapshot_def Let_def bind_eq_Some_conv)
    have d: "?d < length (Entries ?l)" "Index0 ?l + int ?d = i" using i by (auto simp: Len_def)
    have "wf_log (rlog rf')"
      using wf wf_entries_drop [of "Index0 ?l" "Entries ?l" ?d] d i by (simp add: rf' wf_log_def)
    moreover have "last_index (rlog rf') = last_index ?l" using d by (simp add: rf' Len_def)
    moreover have "log_at ?l k = Some e" if "log_at (rlog rf') k = Some e" for k e
      using that nth_drop_log [of ?l i "nat (k - i)"] i by (auto simp: rf' log_at_def idx_Some_iff)
    ultimately show ?thesis by blast
  qed
qed

lemma Snapshot_replica_ok: "replica_ok H rf \<Longrightarrow> Snapshot C i snap rf = Some rf' \<Longrightarrow> replica_ok H rf'"
proof -
  assume rf: "replica_ok H rf" and snap: "Snapshot C i snap rf = Some rf'"
  note same = Snapshot_leader [OF snap]
  from rf have "wf_log (rlog rf)" by (simp add: replica_ok_def)
  from Snapshot_rlog [OF this snap] show ?thesis
  proof
    assume "rlog rf' = rlog rf"
    with rf same show ?thesis by (simp add: replica_ok_def owns_def)
  next
    assume "wf_log (rlog rf') \<and> last_index (rlog rf') = last_index (rlog rf)
      \<and> (\<forall>k e. log_at (rlog rf') k = Some e \<longrightarrow> log_at (rlog rf) k = Some e)"
    with rf same show ?thesis unfolding replica_ok_def owns_def fits_def by metis
  qed
qed

lemma local_replica_ok:
  assumes rf: "replica_ok H rf" and x: "local_call x" and ex: "exec C x rf = Some rf'"
  shows "replica_ok H rf'"
proof (cases "\<exists>i snap. x = CSnapshot i snap")
  case True
  with ex Snapshot_replica_ok [OF rf] show ?thesis by auto
next
  case False
  with x have plain: "plain_call x" by (cases x) auto
  have "rlog rf' = rlog rf"
    using False x ex
    by (cases x) (auto simp: SendSnapshot_reply_def LoopCommit_body_def Kill_def Let_def setNewTerm_def
        bind_eq_Some_conv elim!: leaderSendEntries_shape split: if_splits)
  with rf show ?thesis
    by (rule replica_ok_same_log) (use exec_later [OF ex] exec_leader [OF ex plain] in auto)
qed

section \<open>Steps keep the invariant\<close>

lemma led_mono:
  assumes led: "led n s t i" and inv: "sys_inv C n s'"
    and grant: "granted s \<subseteq> granted s'" and terms: "currentTerm (nodes s i) \<le> currentTerm (nodes s' i)"
    and el: "\<And>el. elections s' (i, t) = Some el \<Longrightarrow>
      currentTerm (nodes s i) < t \<or> (\<exists>el0. elections s (i, t) = Some el0 \<and> (becomeLeader el0 \<longrightarrow> becomeLeader el))"
  shows "led n s' t i"
proof -
  have "{v. (v, t, i) \<in> granted s'} \<subseteq> peer_ids n"
    using inv by (auto simp: sys_inv_def granted_ok_def)
  then have "majority n {v. (v, t, i) \<in> granted s'}"
    using led grant by (auto simp: led_def elim!: majority_mono)
  with led terms el show ?thesis by (fastforce simp: led_def)
qed

lemma rep_invD:
  assumes "rep_inv C n s M H"
  shows "sys_inv C n s" "hist_ok H" "i \<in> peer_ids n \<Longrightarrow> replica_ok H (nodes s i)" "a \<in> M \<Longrightarrow> msg_ok H a"
    "H t k = Some e \<Longrightarrow> t \<noteq> 0 \<Longrightarrow> \<exists>i. led n s t i" "elections s (c, t) = Some el \<Longrightarrow> 0 < t"
proof -
  show "\<exists>i. led n s t i" if "H t k = Some e" "t \<noteq> 0"
  proof -
    from that(1) have "H t \<noteq> Map.empty" by auto
    with that(2) assms show ?thesis unfolding rep_inv_def by blast
  qed
  show "0 < t" if "elections s (c, t) = Some el" using assms that unfolding rep_inv_def by blast
qed (use assms in \<open>auto simp: rep_inv_def\<close>)

text \<open>What a step has to show: it touches one server, adds requests, and may extend the history.\<close>

lemma rep_inv_step:
  assumes inv: "rep_inv C n s M H" and s': "sys_inv C n s'" and H': "hist_ok H'" "hist_le H H'"
    and i: "i \<in> peer_ids n" and nodes: "nodes s' = (nodes s)(i := rf)"
    and rf: "replica_ok H' rf" "later (nodes s i) rf"
    and others: "\<And>j. j \<in> peer_ids n \<Longrightarrow> j \<noteq> i \<Longrightarrow> state (nodes s j) = Leader \<Longrightarrow>
      H' (currentTerm (nodes s j)) = H (currentTerm (nodes s j))"
    and grant: "granted s \<subseteq> granted s'"
    and el: "\<And>c t el. elections s' (c, t) = Some el \<Longrightarrow>
      c \<in> peer_ids n \<and> currentTerm (nodes s c) < t
      \<or> (\<exists>el0. elections s (c, t) = Some el0 \<and> (becomeLeader el0 \<longrightarrow> becomeLeader el))"
    and M': "\<And>a. a \<in> M' \<Longrightarrow> a \<in> M \<or> msg_ok H' a"
    and used: "\<And>t. H t = Map.empty \<Longrightarrow> H' t \<noteq> Map.empty \<Longrightarrow> \<exists>j. led n s' t j"
  shows "rep_inv C n s' M' H'"
proof -
  have le: "currentTerm (nodes s j) \<le> currentTerm (nodes s' j)" for j
    using rf(2) by (simp add: nodes later_def)
  have "replica_ok H' (nodes s' j)" if j: "j \<in> peer_ids n" for j
  proof (cases "j = i")
    case False
    have "replica_ok H (nodes s j)" using inv j by (simp add: rep_inv_def)
    moreover have "owns H' (nodes s j)" if "state (nodes s j) = Leader"
      using \<open>replica_ok H (nodes s j)\<close> that others [OF j False that] by (simp add: replica_ok_def owns_def)
    ultimately show ?thesis
      using False fits_mono [OF _ H'(2)] by (auto simp: nodes replica_ok_def)
  qed (simp add: nodes rf)
  moreover have "msg_ok H' a" if "a \<in> M'" for a
    using M' [OF that] inv msg_ok_mono [OF _ H'(2)] by (auto simp: rep_inv_def)
  moreover have "t = 0 \<or> (\<exists>j. led n s' t j)" if "H' t \<noteq> Map.empty" for t
  proof (cases "H t = Map.empty")
    case False
    with inv have "t = 0 \<or> (\<exists>j. led n s t j)" by (simp add: rep_inv_def)
    then show ?thesis using led_mono [OF _ s' grant le] el by blast
  qed (use used that in blast)
  moreover have "0 < t" if "elections s' (c, t) = Some x" for c t x
    using el [OF that]
  proof
    assume "c \<in> peer_ids n \<and> currentTerm (nodes s c) < t"
    moreover from this have "0 \<le> currentTerm (nodes s c)"
      using rep_invD(3) [OF inv, of c] by (simp add: replica_ok_def)
    ultimately show ?thesis by simp
  qed (use rep_invD(6) [OF inv] in blast)
  ultimately show ?thesis
    using s' H' by (simp add: rep_inv_def)
qed

lemma unique_winner:
  assumes inv: "sys_inv C n s" and "majority n {v. (v, t, i) \<in> granted s}" "majority n {v. (v, t, j) \<in> granted s}"
  shows "i = j"
  using assms(2,3)
proof (rule maj.one_winner)
  show "c = d" if "(v, t, c) \<in> granted s" "(v, t, d) \<in> granted s" for v c d
    using inv that unfolding sys_inv_def granted_ok_def by blast
qed

text \<open>A leader appends an entry to its log and to the history of its term.\<close>

lemma hist_ok_append:
  assumes H: "hist_ok H" and top: "\<And>k e. H t k = Some e \<Longrightarrow> k < m" and e: "Term e = t" "Index e = m"
  shows "hist_ok (H(t := (H t)(m \<mapsto> e)))" and "hist_le H (H(t := (H t)(m \<mapsto> e)))"
proof -
  show "hist_le H (H(t := (H t)(m \<mapsto> e)))"
    using top by (auto simp: hist_le_def)
  show "hist_ok (H(t := (H t)(m \<mapsto> e)))"
    unfolding hist_ok_def
  proof (intro allI impI)
    fix u k x assume x: "(H(t := (H t)(m \<mapsto> e))) u k = Some x"
    show "Index x = k \<and> Term x \<le> u \<and> (\<forall>j \<le> k. (H(t := (H t)(m \<mapsto> e))) u j = (H(t := (H t)(m \<mapsto> e))) (Term x) j)"
    proof (cases "u = t \<and> k = m")
      case True
      with x e show ?thesis by simp
    next
      case False
      with x have old: "H u k = Some x" by (auto split: if_splits)
      then have "H (Term x) k = Some x" using hist_okD(3) [OF H old order_refl] by simp
      then have "k < m" if "Term x = t" using top that by blast
      moreover have "k < m" if "u = t" using top old that by blast
      ultimately show ?thesis using hist_okD [OF H old] by auto
    qed
  qed
qed

lemma log_at_snoc:
  "log_at (log_append l [e]) j = Some x \<longleftrightarrow> j < Len l \<and> log_at l j = Some x \<or> j = Len l \<and> x = e"
  by (auto simp: log_at_append idx_def)

lemma submit_inv:
  assumes inv: "rep_inv C n s M H" and s': "sys_inv C n (s\<lparr>nodes := (nodes s)(i := rf)\<rparr>)"
    and i: "i \<in> peer_ids n" and st: "Start C k c (nodes s i) = Some (rf, r, acts)"
  shows "\<exists>H'. rep_inv C n (s\<lparr>nodes := (nodes s)(i := rf)\<rparr>) (M \<union> set (sent acts)) H'"
proof (cases "state (nodes s i) = Leader")
  case False
  with st have "rf = nodes s i" "acts = []" by (auto simp: Start_def)
  with inv show ?thesis by (auto simp: fun_upd_idem)
next
  case True
  let ?rf = "nodes s i"
  let ?l = "rlog ?rf" and ?t = "currentTerm (nodes s i)"
  let ?e = "\<lparr>Command = Cmd c, Term = ?t, Index = Len ?l\<rparr>"
  let ?rf1 = "persist C (?rf\<lparr>rlog := log_append ?l [?e]\<rparr>)"
  let ?H = "H(?t := (H ?t)(Len ?l \<mapsto> ?e))"
  have node: "replica_ok H ?rf" and H: "hist_ok H" using rep_invD [OF inv] i by auto
  with True have wf: "wf_log ?l" and own: "owns H ?rf" and fits: "fits H ?l"
    and terms: "\<And>k e. log_at ?l k = Some e \<Longrightarrow> Term e \<le> ?t" and pos: "0 \<le> ?t"
    by (auto simp: replica_ok_def)
  have top: "k < Len ?l" if "H ?t k = Some x" for k x
    using own that unfolding owns_def by fastforce
  have H': "hist_ok ?H" "hist_le H ?H"
    using hist_ok_append [OF H top, where e = ?e] by simp_all
  from st True wf obtain r' where ae: "appendEntries k False ?rf1 = Some (rf, acts)"
    by (auto simp: Start_def Let_def bind_eq_Some_conv LastLog_wf Index_last)
  have rf: "rlog rf = log_append ?l [?e]" "currentTerm rf = ?t"
    using appendEntries_result [OF ae] by auto
  have at: "log_at (rlog rf) j = Some x \<longleftrightarrow> j < Len ?l \<and> log_at ?l j = Some x \<or> j = Len ?l \<and> x = ?e" for j x
    unfolding rf by (rule log_at_snoc)
  have wf1: "wf_log (rlog rf)" using wf by (simp add: rf wf_log_append)
  have own1: "owns ?H rf"
    using own less_imp_le [OF top] by (auto simp: owns_def log_at_snoc rf split: if_splits)
  have "fits ?H (rlog rf)"
    using fits_mono [OF fits H'(2)] own hist_leD [OF H'(2)] unfolding fits_def owns_def at by fastforce
  then have ok: "replica_ok ?H rf"
    using wf1 own1 terms pos by (auto simp: replica_ok_def rf(2) at)
  have msgs: "msg_ok ?H a" if "a \<in> set (sent acts)" for a
    by (rule appendEntries_sent [OF _ _ ae that]) (use wf1 own1 rf in \<open>simp_all add: owns_cong [of ?rf1 rf]\<close>)
  have alone: "currentTerm (nodes s j) \<noteq> ?t" if "j \<in> peer_ids n" "j \<noteq> i" "state (nodes s j) = Leader" for j
    using unique_winner [OF rep_invD(1) [OF inv], of ?t i j] rep_invD(1) [OF inv] that i True
    by (auto simp: sys_inv_def leaders_ok_def)
  have used: "H ?t \<noteq> Map.empty"
    using own LastLog_wf [OF wf] unfolding owns_def LastLog_def by fastforce
  have "rep_inv C n (s\<lparr>nodes := (nodes s)(i := rf)\<rparr>) (M \<union> set (sent acts)) ?H"
    by (rule rep_inv_step [OF inv s' H' i _ ok])
      (use alone msgs Start_later [OF st] used in \<open>auto split: if_splits\<close>)
  then show ?thesis by blast
qed

text \<open>A new leader starts the history of its term with its log.\<close>

lemma candidateRequest_outcome:
  assumes "candidateRequest C k True a reply el rf = Some (el', rf', acts)"
  obtains (kept) "rlog rf' = rlog rf" "acts = []" "becomeLeader el' = becomeLeader el"
      "state rf' = Leader \<Longrightarrow> state rf = Leader \<and> currentTerm rf' = currentTerm rf"
  | (won) rf1 where "\<not> becomeLeader el" "becomeLeader el'" "currentTerm rf = rvTerm a" "state rf' = Leader"
      "rlog rf1 = rlog rf" "currentTerm rf1 = currentTerm rf" "appendEntries k True rf1 = Some (rf', acts)"
proof (cases "becomeLeader el' \<and> \<not> becomeLeader el")
  case True
  with assms have "currentTerm rf = rvTerm a" "becomeLeader_do C k rf = Some (rf', acts)"
    by (auto simp: candidateRequest_def Let_def bind_eq_Some_conv split: if_splits)
  moreover from this(2) obtain ni mi where
    "appendEntries k True (persist C (rf\<lparr>state := Leader\<rparr>)\<lparr>nextIndex := ni, matchIndex := mi\<rparr>) = Some (rf', acts)"
    by (auto simp: becomeLeader_do_def Let_def bind_eq_Some_conv)
  moreover define rf1 where "rf1 = persist C (rf\<lparr>state := Leader\<rparr>)\<lparr>nextIndex := ni, matchIndex := mi\<rparr>"
  moreover have "rlog rf1 = rlog rf" "currentTerm rf1 = currentTerm rf" by (simp_all add: rf1_def)
  ultimately show thesis using True
    by (intro that(2) [of rf1]) (auto dest: becomeLeader_do_same)
next
  case False
  with assms that(1) show thesis
    by (auto simp: candidateRequest_def Let_def setNewTerm_def bind_eq_Some_conv split: if_splits)
qed

lemma hist_ok_start:
  assumes H: "hist_ok H" and free: "H t = Map.empty" and u: "H u m = Some x" "u \<le> t"
  defines "H' \<equiv> H(t := (\<lambda>k. if k \<le> m then H u k else None))"
  shows "hist_ok H'" and "hist_le H H'"
proof -
  show "hist_le H H'" using free by (auto simp: hist_le_def H'_def)
  have ne: "u \<noteq> t" using free u by auto
  show "hist_ok H'"
    unfolding hist_ok_def
  proof (intro allI impI)
    fix v k e assume e: "H' v k = Some e"
    define w where "w = (if v = t then u else v)"
    have old: "H w k = Some e" and k: "v = t \<Longrightarrow> k \<le> m"
      using e by (auto simp: H'_def w_def split: if_splits)
    have "H (Term e) k = Some e" using hist_okD(3) [OF H old order_refl] old by simp
    then have "Term e \<noteq> t" using free by auto
    moreover have "w \<noteq> t" using ne by (simp add: w_def)
    moreover have "w \<le> v" using u(2) by (simp add: w_def)
    moreover have "H' v j = H w j" if "j \<le> k" for j
      using that k by (auto simp: H'_def w_def)
    ultimately show "Index e = k \<and> Term e \<le> v \<and> (\<forall>j \<le> k. H' v j = H' (Term e) j)"
      using hist_okD [OF H old] by (auto simp: H'_def)
  qed
qed

lemma start_owns:
  assumes H: "hist_ok H" and rf: "replica_ok H rf" and t: "currentTerm rf = t" and free: "H t = Map.empty"
  shows "\<exists>H'. hist_ok H' \<and> hist_le H H' \<and> owns H' rf \<and> (\<forall>u. u \<noteq> t \<longrightarrow> H' u = H u)"
proof -
  let ?l = "rlog rf" and ?x = "last (Entries (rlog rf))"
  from rf have wf: "wf_log ?l" and fits: "fits H ?l"
    and terms: "\<And>k e. log_at ?l k = Some e \<Longrightarrow> Term e \<le> currentTerm rf"
    by (auto simp: replica_ok_def)
  have x: "log_at ?l (last_index ?l) = Some ?x" using LastLog_wf [OF wf] by (simp add: LastLog_def)
  note new = hist_ok_start [OF H free fitsD [OF fits x x order_refl] terms [OF x, unfolded t]]
  have "owns (H(t := \<lambda>k. if k \<le> last_index ?l then H (Term ?x) k else None)) rf"
    using fitsD [OF fits x] log_at_wf [OF wf] by (auto simp: owns_def t split: if_splits)
  with new show ?thesis by (intro exI conjI) (assumption | auto)+
qed

lemma lead_inv:
  assumes inv: "rep_inv C n s M H" and s': "sys_inv C n s'" and c: "c \<in> peer_ids n" and t: "0 < t"
    and cand: "currentTerm (nodes s c) = t" "elections s (c, t) = Some el" "\<not> becomeLeader el"
    and nodes: "nodes s' = (nodes s)(c := rf)" "granted s' = granted s" "elections s' = (elections s)((c, t) \<mapsto> el')"
    and rf: "state rf = Leader" "rlog rf = rlog (nodes s c)" "currentTerm rf = t" "later (nodes s c) rf"
    and el': "becomeLeader el'" and M': "\<And>H a. owns H rf \<Longrightarrow> a \<in> M' \<Longrightarrow> a \<in> M \<or> msg_ok H a"
  shows "\<exists>H'. rep_inv C n s' M' H'"
proof -
  have maj: "majority n {v. (v, t, c) \<in> granted s}"
    using s' c rf unfolding sys_inv_def leaders_ok_def by (auto simp: nodes)
  have free: "H t = Map.empty"
  proof (rule ccontr)
    assume "H t \<noteq> Map.empty"
    with inv t obtain i where i: "led n s t i" by (auto simp: rep_inv_def)
    then have "i = c" using unique_winner [OF rep_invD(1) [OF inv] _ maj] by (auto simp: led_def)
    with i cand show False by (simp add: led_def)
  qed
  obtain H' where H': "hist_ok H'" "hist_le H H'" "owns H' (nodes s c)" "\<forall>u. u \<noteq> t \<longrightarrow> H' u = H u"
    using start_owns [OF rep_invD(2) [OF inv] rep_invD(3) [OF inv c] cand(1) free] by blast
  have own: "owns H' rf" using H'(3) rf cand by (simp add: owns_def)
  have "replica_ok H (nodes s c)" using rep_invD(3) [OF inv c] .
  then have ok: "replica_ok H' rf"
    using own rf cand fits_mono [OF _ H'(2)] by (auto simp: replica_ok_def)
  have led: "led n s' t c" using maj c el' rf by (simp add: led_def nodes)
  have others: "currentTerm (nodes s j) \<noteq> t" if "j \<in> peer_ids n" "j \<noteq> c" "state (nodes s j) = Leader" for j
    using unique_winner [OF rep_invD(1) [OF inv] maj, of j] rep_invD(1) [OF inv] that
    by (auto simp: sys_inv_def leaders_ok_def)
  have "rep_inv C n s' M' H'"
  proof (rule rep_inv_step [OF inv s' H'(1,2) c nodes(1) ok rf(4)])
    show "H' (currentTerm (nodes s j)) = H (currentTerm (nodes s j))"
      if "j \<in> peer_ids n" "j \<noteq> c" "state (nodes s j) = Leader" for j
      using others [OF that] H'(4) by blast
    show "\<exists>j. led n s' u j" if "H u = Map.empty" "H' u \<noteq> Map.empty" for u
      using that led H'(4) by metis
  qed (use M' own cand el' in \<open>auto simp: nodes split: if_splits\<close>)
  then show ?thesis by blast
qed

lemma keep_inv:
  assumes inv: "rep_inv C n s M H" and s': "sys_inv C n s'" and i: "i \<in> peer_ids n"
    and nodes: "nodes s' = (nodes s)(i := rf)" and rf: "replica_ok H rf" "later (nodes s i) rf"
    and grant: "granted s \<subseteq> granted s'"
    and el: "\<And>c t el. elections s' (c, t) = Some el \<Longrightarrow>
      c \<in> peer_ids n \<and> currentTerm (nodes s c) < t
      \<or> (\<exists>el0. elections s (c, t) = Some el0 \<and> (becomeLeader el0 \<longrightarrow> becomeLeader el))"
    and M': "\<And>a. a \<in> M' \<Longrightarrow> a \<in> M \<or> msg_ok H a"
  shows "\<exists>H'. rep_inv C n s' M' H'"
  using rep_inv_step [OF inv s' rep_invD(2) [OF inv] hist_le_refl i nodes rf _ grant el M'] by blast

lemma answer_rep:
  assumes inv: "rep_inv C n s M H" and rpc: "rpcs s (c, t, p) = Some (Answered a reply)"
    and el: "elections s (c, t) = Some el"
    and cr: "candidateRequest C k True a reply el (nodes s c) = Some (el', rf, acts)"
    and s': "sys_inv C n s'" "nodes s' = (nodes s)(c := rf)" "granted s' = granted s"
      "elections s' = (elections s)((c, t) \<mapsto> el')"
  shows "\<exists>H'. rep_inv C n s' (M \<union> set (sent acts)) H'"
proof -
  from rep_invD(1) [OF inv] rpc have c: "c \<in> peer_ids n" and t: "rvTerm a = t"
    unfolding sys_inv_def rpcs_ok_def by fastforce+
  have later: "later (nodes s c) rf" using candidateRequest_later [OF cr] by simp
  from cr show ?thesis
  proof (cases rule: candidateRequest_outcome)
    case kept
    have "replica_ok H rf"
      using rep_invD(3) [OF inv c] kept(1) later by (rule replica_ok_same_log) (rule kept(4))
    then show ?thesis
      by (rule keep_inv [OF inv s'(1) c s'(2) _ later]) (use kept el in \<open>auto simp: s' split: if_splits\<close>)
  next
    case (won rf1)
    have rf: "rlog rf = rlog (nodes s c)" "currentTerm rf = t" "rlog rf1 = rlog rf" "currentTerm rf1 = t"
      using appendEntries_result [OF won(7)] won t by auto
    have wf: "wf_log (rlog rf1)" using rep_invD(3) [OF inv c] rf by (simp add: replica_ok_def)
    show ?thesis
    proof (rule lead_inv [OF inv s'(1) c _ _ el won(1) s'(2,3,4) won(4) rf(1,2) later won(2)])
      show "0 < t" using rep_invD(6) [OF inv el] .
      show "a \<in> M \<or> msg_ok H' a" if "owns H' rf" "a \<in> M \<union> set (sent acts)" for H' a
        using that appendEntries_sent [OF wf _ won(7)] rf owns_cong [of rf1 rf H'] by auto
    qed (use won t in simp)
  qed
qed

lemma rep_step_inv:
  assumes ok: "codec_ok C" and step: "rep_step C n x y" and inv: "rep_inv C n (fst x) (set (snd x)) H"
  shows "\<exists>H'. rep_inv C n (fst y) (set (snd y)) H'"
proof -
  have s': "sys_inv C n (fst y)"
    using sys_step_inv [OF ok rep_step_sys [OF step] rep_invD(1) [OF inv]] .
  note keep = keep_inv [OF inv s'] and node = rep_invD(3) [OF inv]
  from step show ?thesis
  proof (cases rule: rep_step.cases)
    case (idle i k k' s rf acts ms)
    have later: "later (nodes s i) rf" using ticker_body_later [OF idle(4)] by simp
    have "replica_ok H rf"
      by (rule replica_ok_same_log [OF _ ticker_rlog [OF idle(4)] later])
        (use node idle ticker_idle_leader [OF idle(4)] in auto)
    then show ?thesis
      by (intro keep [of i rf]) (use later idle ticker_sent [OF _ idle(4)] node in auto)
  next
    case (elect i k k' s rf el acts ms)
    have later: "later (nodes s i) rf" using ticker_body_later [OF elect(4)] by simp
    have new: "currentTerm rf = currentTerm (nodes s i) + 1" "state rf = Candidate"
      using elect(4) by (auto elim: ticker_elect)
    have "replica_ok H rf"
      by (rule replica_ok_same_log [OF _ ticker_rlog [OF elect(4)] later]) (use node elect new in auto)
    then show ?thesis
      by (intro keep [of i rf])
        (use later elect ticker_sent [OF _ elect(4)] node new in \<open>auto split: if_splits\<close>)
  next
    case (request s c t p a k rf reply ms)
    have p: "p \<in> peer_ids n"
      using rep_invD(1) [OF inv] request unfolding sys_inv_def rpcs_ok_def by fastforce
    have later: "later (nodes s p) rf" using RequestVote_later [OF request(4)] by simp
    have "replica_ok H rf"
      by (rule replica_ok_same_log [OF _ RequestVote_rlog [OF request(4)] later])
        (use node request p RequestVote_leader [OF request(4)] in auto)
    then show ?thesis
      by (intro keep [of p rf]) (use request p later in auto)
  next
    case (answer s c t p a reply el k el' rf acts ms)
    show ?thesis
      using answer_rep [OF _ answer(3,4,5), of n "set ms" H "fst y"] inv s' answer(1,2) by simp
  next
    case (lost s ms x)
    with inv s' show ?thesis by (intro exI [of _ H]) (auto simp: rep_inv_def led_def)
  next
    case (deliver i a ms k s rf reply acts)
    have later: "later (nodes s i) rf" using AppendEntries_later [OF deliver(5)] by simp
    have "replica_ok H rf"
      using AppendEntries_replica_ok [OF rep_invD(2) [OF inv] _ _ deliver(5)] node deliver
        rep_invD(4) [OF inv] by auto
    then show ?thesis
      by (intro keep [of i rf]) (use later deliver AppendEntries_sent [OF deliver(5)] in auto)
  next
    case (submit i k c s rf r acts ms)
    show ?thesis
      using submit_inv [OF _ _ submit(3,4), of "set ms" H] inv s' submit(1,2) by simp
  next
    case (local i x' s rf ms)
    have "replica_ok H rf" using local_replica_ok [OF _ local(4,5)] node local by auto
    then show ?thesis
      by (intro keep [of i rf]) (use exec_later [OF local(5)] local in auto)
  next
    case (crash i k s rf ms)
    have "durable C (nodes s i)" using sys_inv_durable [OF rep_invD(1) [OF inv]] crash by auto
    with ok crash(4) have same: "rlog rf = rlog (nodes s i)" "state rf = Follower" "later (nodes s i) rf"
      by (auto elim!: restart_durable [where k = k] simp: later_def)
    have "replica_ok H rf"
      by (rule replica_ok_same_log [OF _ same(1,3)]) (use node crash same in auto)
    then show ?thesis
      by (intro keep [of i rf]) (use same(3) crash in \<open>auto split: if_splits\<close>)
  qed
qed

lemma rep_init_inv: "\<exists>H. rep_inv C n (sys_init C n k) {} H"
proof -
  let ?e = "\<lparr>Command = IntCmd (-1), Term = 0, Index = 0\<rparr> :: 'a Entry"
  let ?H = "\<lambda>t j. if t = 0 \<and> j = 0 then Some ?e else None"
  have "\<exists>rf. Make C (k i) n i MakePersister = Some rf \<and> replica_ok ?H rf" for i
    using Make_fresh [of C "k i" n i]
    by (auto simp: replica_ok_def wf_log_def log_append_def makeEmptyLog_def fits_def log_at_def idx_def)
  then have "replica_ok ?H (the (Make C (k i) n i MakePersister))" for i
    by (metis option.sel)
  then have "rep_inv C n (sys_init C n k) {} ?H"
    using sys_init_inv [of C n k] by (auto simp: rep_inv_def hist_ok_def sys_init_def fun_eq_iff)
  then show ?thesis by blast
qed

lemma rep_reach_inv:
  assumes "codec_ok C"
  shows "rep_reach C n x \<Longrightarrow> \<exists>H. rep_inv C n (fst x) (set (snd x)) H"
proof (induction rule: rep_reach.induct)
  case (start k)
  then show ?case using rep_init_inv by simp
next
  case (step x y)
  then show ?case using rep_step_inv [OF assms] by blast
qed

lemma reach_fits:
  assumes "codec_ok C" and "rep_reach C n (s, ms)"
  obtains H where "\<And>i. i \<in> peer_ids n \<Longrightarrow> fits H (rlog (nodes s i))"
proof -
  obtain H where inv: "rep_inv C n s (set ms) H" using rep_reach_inv [OF assms] by auto
  have "fits H (rlog (nodes s i))" if "i \<in> peer_ids n" for i
    using rep_invD(3) [OF inv that] by (simp add: replica_ok_def)
  then show thesis by (rule that)
qed

text \<open>The logs of a cluster satisfy what the leader's reaction to a conflict relies on.\<close>

lemma reach_runs_agree:
  assumes "codec_ok C" and "rep_reach C n (s, ms)" and i: "i \<in> peer_ids n" and j: "j \<in> peer_ids n"
  shows "runs_agree (rlog (nodes s i)) (rlog (nodes s j))"
proof -
  from reach_fits [OF assms(1,2)] i j obtain H where
    fits: "fits H (rlog (nodes s i))" "fits H (rlog (nodes s j))" by metis
  have "c = b" if "log_at (rlog (nodes s i)) k = Some a" "log_at (rlog (nodes s j)) m = Some b"
    "Term a = Term b" "m \<le> k" "log_at (rlog (nodes s i)) m = Some c" for k m a b c
    using fitsD [OF fits(1) that(1,5,4)] fitsD [OF fits(2) that(2,2)] that(3) by simp
  then show ?thesis unfolding runs_agree_def by blast
qed

text \<open>
  C2. Log matching. In every reachable state of a cluster that replicates, compacts, crashes and
  restarts, with requests reordered, duplicated and lost (the snapshot RPC is not part of these runs): if two servers hold entries with the same
  index and term, then their logs agree on every entry up to that index that both still hold.
\<close>

theorem log_matching:
  assumes ok: "codec_ok C" and reach: "rep_reach C n (s, ms)" and ids: "i \<in> peer_ids n" "j \<in> peer_ids n"
    and e: "log_at (rlog (nodes s i)) k = Some e" and f: "log_at (rlog (nodes s j)) k = Some f"
    and same: "Term e = Term f" and m: "m \<le> k"
    and x: "log_at (rlog (nodes s i)) m = Some x" and y: "log_at (rlog (nodes s j)) m = Some y"
  shows "x = y"
proof -
  obtain H where inv: "rep_inv C n s (set ms) H" using rep_reach_inv [OF ok reach] by auto
  have "fits H (rlog (nodes s i))" and "fits H (rlog (nodes s j))"
    using rep_invD(3) [OF inv] ids by (auto simp: replica_ok_def)
  from fitsD [OF this(1) e x m] fitsD [OF this(2) f y m] same show ?thesis by simp
qed

text \<open>
  C3. The logs of a cluster are well-formed. In every reachable state of the same cluster, again without the
  snapshot RPC (\<open>InstallSnapShot\<close>, \<open>CondInstallSnapshot\<close>), every server's log is non-empty,
  its entries carry consecutive indices and terms that never decrease and never exceed the server's
  term, and its persister holds exactly its term, vote and log.
\<close>

theorem replica_logs_ok:
  assumes ok: "codec_ok C" and reach: "rep_reach C n (s, ms)" and i: "i \<in> peer_ids n"
  shows "wf_log (rlog (nodes s i)) \<and> sorted_terms (rlog (nodes s i)) \<and> durable C (nodes s i)
    \<and> Term (last (Entries (rlog (nodes s i)))) \<le> currentTerm (nodes s i)"
proof -
  let ?l = "rlog (nodes s i)"
  obtain H where inv: "rep_inv C n s (set ms) H" using rep_reach_inv [OF ok reach] by auto
  then have node: "replica_ok H (nodes s i)" and H: "hist_ok H" using i by (auto simp: rep_inv_def)
  then have wf: "wf_log ?l" and fits: "fits H ?l" by (auto simp: replica_ok_def)
  have at: "log_at ?l (Index0 ?l + int p) = Some (Entries ?l ! p)" if "p < length (Entries ?l)" for p
    using that by (simp add: log_at_def)
  have "sorted_terms ?l"
    unfolding sorted_terms_def sorted_iff_nth_mono
  proof (intro allI impI)
    fix p q assume "p \<le> q" and "q < length (map Term (Entries ?l))"
    then have "H (Term (Entries ?l ! q)) (Index0 ?l + int p) = Some (Entries ?l ! p)"
      using fitsD [OF fits at at, of q p] by simp
    then show "map Term (Entries ?l) ! p \<le> map Term (Entries ?l) ! q"
      using hist_okD(2) [OF H] \<open>p \<le> q\<close> \<open>q < length (map Term (Entries ?l))\<close> by simp
  qed
  moreover have "Term (last (Entries ?l)) \<le> currentTerm (nodes s i)"
    using node LastLog_wf [OF wf] by (auto simp: replica_ok_def LastLog_def)
  ultimately show ?thesis
    using wf sys_inv_durable [OF rep_invD(1) [OF inv] i] by simp
qed

section \<open>An example run\<close>

text \<open>
  Three servers: server 0 wins term 1 with the vote of server 1, takes a command, and its request
  reaches server 2, twice. The events are those steps of the cluster that the run needs.
\<close>

datatype 'c rep_event = REv "'c sys_event" | RAnswer int int int clock | RStart int 'c clock | RAppend int nat clock

fun rep_exec :: "'c codec \<Rightarrow> nat \<Rightarrow> 'c rep_event \<Rightarrow> 'c sys \<times> 'c AppendEntriesArgs list
    \<Rightarrow> ('c sys \<times> 'c AppendEntriesArgs list) option" where
  "rep_exec C n (REv (Tick i k k')) (s, ms) = do {
     (rf, e, acts) \<leftarrow> ticker_body C k k' (nodes s i);
     s' \<leftarrow> sys_exec C n (Tick i k k') s;
     Some (s', ms @ sent acts)
   }"
| "rep_exec C n (REv (Deliver c t p k)) (s, ms) = map_option (\<lambda>s'. (s', ms)) (sys_exec C n (Deliver c t p k) s)"
| "rep_exec C n (REv e) (s, ms) = None"
| "rep_exec C n (RAnswer c t p k) (s, ms) =
     (case rpcs s (c, t, p) of
        Some (Answered a reply) \<Rightarrow> do {
          el \<leftarrow> elections s (c, t);
          (el', rf, acts) \<leftarrow> candidateRequest C k True a reply el (nodes s c);
          s' \<leftarrow> sys_exec C n (Return c t p k) s;
          Some (s', ms @ sent acts)
        }
      | _ \<Rightarrow> None)"
| "rep_exec C n (RStart i c k) (s, ms) =
     (if i \<in> peer_ids n then do {
        (rf, r, acts) \<leftarrow> Start C k c (nodes s i);
        Some (s\<lparr>nodes := (nodes s)(i := rf)\<rparr>, ms @ sent acts)
      } else None)"
| "rep_exec C n (RAppend i m k) (s, ms) =
     (if i \<in> peer_ids n \<and> m < length ms then do {
        (rf, reply, acts) \<leftarrow> AppendEntries C k (ms ! m) (nodes s i);
        Some (s\<lparr>nodes := (nodes s)(i := rf)\<rparr>, ms @ sent acts)
      } else None)"

lemma rep_exec_step: "rep_exec C n e x = Some y \<Longrightarrow> rep_step C n x y"
proof (induction C n e x rule: rep_exec.induct)
  case (1 C n i k k' s ms)
  then obtain rf e acts where i: "i \<in> peer_ids n" "ticker_body C k k' (nodes s i) = Some (rf, e, acts)"
    and y: "y = ((case e of None \<Rightarrow> s\<lparr>nodes := (nodes s)(i := rf)\<rparr>
        | Some el \<Rightarrow> s\<lparr>nodes := (nodes s)(i := rf), granted := insert (i, currentTerm rf, i) (granted s),
            elections := (elections s)((i, currentTerm rf) \<mapsto> el), rpcs := launch i acts (rpcs s),
            tallied := (tallied s)((i, currentTerm rf) := {i})\<rparr>), ms @ sent acts)"
    by (cases "ticker_body C k k' (nodes s i)") (auto simp: bind_eq_Some_conv split: if_splits option.splits)
  show ?case
  proof (cases e)
    case None
    then show ?thesis using i unfolding y by (auto intro: rep_step.idle)
  next
    case (Some el)
    then show ?thesis using i unfolding y option.case by (auto intro: rep_step.elect)
  qed
next
  case (4 C n c t p k s ms)
  then obtain a reply el el' rf acts where r: "rpcs s (c, t, p) = Some (Answered a reply)"
      "elections s (c, t) = Some el" "candidateRequest C k True a reply el (nodes s c) = Some (el', rf, acts)"
    and y: "y = (s\<lparr>nodes := (nodes s)(c := rf), elections := (elections s)((c, t) \<mapsto> el'),
      rpcs := (rpcs s)((c, t, p) := None), tallied := (tallied s)((c, t) :=
        (if VoteGranted reply then insert p (tallied s (c, t)) else tallied s (c, t)))\<rparr>, ms @ sent acts)"
    by (auto simp: bind_eq_Some_conv split: option.splits vote_rpc.splits)
  show ?case unfolding y using r by (rule rep_step.answer)
next
  case (2 C n c t p k s ms)
  then obtain a reply rf where r: "rpcs s (c, t, p) = Some (Sent a)"
      "RequestVote C k a (nodes s p) = Some (rf, reply)"
    and y: "y = (s\<lparr>nodes := (nodes s)(p := rf),
      granted := (if VoteGranted reply then insert (p, t, c) (granted s) else granted s),
      rpcs := (rpcs s)((c, t, p) \<mapsto> Answered a reply)\<rparr>, ms)"
    by (auto simp: bind_eq_Some_conv split: option.splits vote_rpc.splits)
  show ?case unfolding y using r by (rule rep_step.request)
next
  case (6 C n i m k s ms)
  then show ?case by (auto simp: bind_eq_Some_conv split: if_splits
        intro: rep_step.deliver [OF _ nth_mem])
next
  case (5 C n i c k s ms)
  then show ?case by (auto simp: bind_eq_Some_conv split: if_splits intro: rep_step.submit)
qed simp_all

lemma rep_run_reach: "rep_reach C n x \<Longrightarrow> run (rep_exec C n) es x = Some y \<Longrightarrow> rep_reach C n y"
proof (induction es arbitrary: x)
  case (Cons e es)
  then obtain z where z: "rep_exec C n e x = Some z" "run (rep_exec C n) es z = Some y"
    by (auto simp: bind_eq_Some_conv)
  from Cons.IH [OF rep_reach.step [OF Cons.prems(1) rep_exec_step [OF z(1)]] z(2)] show ?case .
qed simp

definition sample_replication :: "(int sys \<times> int AppendEntriesArgs list) option" where
  "sample_replication = run (rep_exec sample_codec 3)
     [REv (Tick 0 sample_clock sample_clock), REv (Deliver 0 1 1 sample_clock), RAnswer 0 1 1 sample_clock,
      RStart 0 77 sample_clock, RAppend 2 2 sample_clock, RAppend 2 2 sample_clock]
     (sys_init sample_codec 3 (\<lambda>_. \<lparr>now = 0, rnd = 0\<rparr>), [])"

lemma sample_replication_logs:
  "map_option (\<lambda>(s, ms). (map (\<lambda>i. log_at (rlog (nodes s i)) 1) [0, 2], map (\<lambda>i. log_at (rlog (nodes s i)) 0) [0, 2]))
     sample_replication =
   Some ([Some \<lparr>Command = Cmd 77, Term = 1, Index = 1\<rparr>, Some \<lparr>Command = Cmd 77, Term = 1, Index = 1\<rparr>],
     [Some \<lparr>Command = IntCmd (-1), Term = 0, Index = 0\<rparr>, Some \<lparr>Command = IntCmd (-1), Term = 0, Index = 0\<rparr>])"
  by code_simp

lemma sample_replication_reach:
  obtains s ms where "sample_replication = Some (s, ms)" "rep_reach sample_codec 3 (s, ms)"
    "log_at (rlog (nodes s 0)) 1 = Some \<lparr>Command = Cmd 77, Term = 1, Index = 1\<rparr>"
    "log_at (rlog (nodes s 2)) 1 = Some \<lparr>Command = Cmd 77, Term = 1, Index = 1\<rparr>"
    "log_at (rlog (nodes s 0)) 0 = Some \<lparr>Command = IntCmd (-1), Term = 0, Index = 0\<rparr>"
    "log_at (rlog (nodes s 2)) 0 = Some \<lparr>Command = IntCmd (-1), Term = 0, Index = 0\<rparr>"
proof -
  from sample_replication_logs obtain s ms where s: "sample_replication = Some (s, ms)" by (cases sample_replication) auto
  moreover from s have "rep_reach sample_codec 3 (s, ms)"
    unfolding sample_replication_def by (rule rep_run_reach [OF rep_reach.start])
  moreover from sample_replication_logs have
    "log_at (rlog (nodes s 0)) 1 = Some \<lparr>Command = Cmd 77, Term = 1, Index = 1\<rparr>"
    "log_at (rlog (nodes s 2)) 1 = Some \<lparr>Command = Cmd 77, Term = 1, Index = 1\<rparr>"
    "log_at (rlog (nodes s 0)) 0 = Some \<lparr>Command = IntCmd (-1), Term = 0, Index = 0\<rparr>"
    "log_at (rlog (nodes s 2)) 0 = Some \<lparr>Command = IntCmd (-1), Term = 0, Index = 0\<rparr>"
    unfolding s by simp_all
  ultimately show thesis by (rule that)
qed

theorem log_matching_witness:
  "\<exists>s ms. sample_replication = Some (s, ms) \<and> rep_reach sample_codec 3 (s, ms)
     \<and> log_at (rlog (nodes s 0)) 1 = log_at (rlog (nodes s 2)) 1
     \<and> log_at (rlog (nodes s 0)) 0 = log_at (rlog (nodes s 2)) 0"
proof -
  obtain s ms where s: "sample_replication = Some (s, ms)" "rep_reach sample_codec 3 (s, ms)"
    and e: "log_at (rlog (nodes s 0)) 1 = Some \<lparr>Command = Cmd 77, Term = 1, Index = 1\<rparr>"
    "log_at (rlog (nodes s 2)) 1 = Some \<lparr>Command = Cmd 77, Term = 1, Index = 1\<rparr>"
    and x: "log_at (rlog (nodes s 0)) 0 = Some \<lparr>Command = IntCmd (-1), Term = 0, Index = 0\<rparr>"
    "log_at (rlog (nodes s 2)) 0 = Some \<lparr>Command = IntCmd (-1), Term = 0, Index = 0\<rparr>"
    by (rule sample_replication_reach)
  have "(0::int) \<in> peer_ids 3" "(2::int) \<in> peer_ids 3" by (simp_all add: peer_ids_def)
  note match = log_matching [OF sample_codec_ok s(2) this e refl _ x]
  have "\<lparr>Command = IntCmd (-1), Term = 0, Index = 0\<rparr> = (\<lparr>Command = IntCmd (-1), Term = 0, Index = 0\<rparr> :: int Entry)"
    by (rule match) simp
  with s e x show ?thesis by (intro exI [of _ s] exI [of _ ms]) simp
qed

theorem replica_logs_ok_witness:
  "\<exists>s ms. rep_reach sample_codec 3 (s, ms) \<and> sample_replication = Some (s, ms) \<and> sorted_terms (rlog (nodes s 2))
     \<and> Len (rlog (nodes s 2)) \<ge> 2"
proof -
  obtain s ms where s: "sample_replication = Some (s, ms)" "rep_reach sample_codec 3 (s, ms)"
    and e: "log_at (rlog (nodes s 2)) 1 = Some \<lparr>Command = Cmd 77, Term = 1, Index = 1\<rparr>"
    by (rule sample_replication_reach)
  have "(2::int) \<in> peer_ids 3" by (simp add: peer_ids_def)
  from replica_logs_ok [OF sample_codec_ok s(2) this] log_at_wf [OF _ e] s show ?thesis
    by (intro exI [of _ s] exI [of _ ms]) simp
qed

end
