(* ===== verification/PorcModel.thy ===== *)
theory PorcModel
  imports Prelude "HOL-Library.AList" "HOL-Library.List_Lexorder" "HOL-Library.Char_ord"
begin

text \<open>
  Histories and sequential models of the linearizability checker, \<open>src/src/porcupine/model.go\<close>, and
  the model of a key-value store, \<open>src/src/models/kv.go\<close>.

  The fields of a Go \<open>Model\<close> are function values that may be nil. \<open>interface{}\<close> values of a history
  are inputs or outputs of operations; a \<open>Step\<close> that is handed the wrong one fails in its type
  assertion. The functions of a model are otherwise total.
\<close>

section \<open>model.go\<close>

record ('i, 'o) Operation =
  ClientId :: int
  Input :: 'i
  Call :: int
  Output :: 'o
  Return :: int

datatype EventKind = CallEvent | ReturnEvent

datatype ('i, 'o) interface = InV 'i | OutV 'o

record ('i, 'o) Event =
  evClientId :: int
  Kind :: EventKind
  Value :: "('i, 'o) interface"
  evId :: int

record ('i, 'o, 's) Model =
  Partition :: "(('i, 'o) Operation list \<Rightarrow> ('i, 'o) Operation list list) option"
  PartitionEvent :: "(('i, 'o) Event list \<Rightarrow> ('i, 'o) Event list list) option"
  Init :: 's
  Step :: "'s \<Rightarrow> 'i \<Rightarrow> 'o \<Rightarrow> bool \<times> 's"
  Equal :: "('s \<Rightarrow> 's \<Rightarrow> bool) option"
  DescribeOperation :: "('i \<Rightarrow> 'o \<Rightarrow> string) option"
  DescribeState :: "('s \<Rightarrow> string) option"

definition NoPartition :: "('i, 'o) Operation list \<Rightarrow> ('i, 'o) Operation list list" where
  "NoPartition history = [history]"

definition NoPartitionEvent :: "('i, 'o) Event list \<Rightarrow> ('i, 'o) Event list list" where
  "NoPartitionEvent history = [history]"

definition ShallowEqual :: "'s \<Rightarrow> 's \<Rightarrow> bool" where
  "ShallowEqual state1 state2 \<longleftrightarrow> state1 = state2"

text \<open>\<open>fmt.Sprintf\<close> with the verb \<open>%v\<close> depends on the dynamic type: the formatter is an argument.\<close>

definition DefaultDescribeOperation :: "('i \<Rightarrow> string) \<Rightarrow> ('o \<Rightarrow> string) \<Rightarrow> 'i \<Rightarrow> 'o \<Rightarrow> string" where
  "DefaultDescribeOperation fmt_in fmt_out input output = fmt_in input @ '' -> '' @ fmt_out output"

definition DefaultDescribeState :: "('s \<Rightarrow> string) \<Rightarrow> 's \<Rightarrow> string" where
  "DefaultDescribeState fmt_state st = fmt_state st"

datatype CheckResult = Unknown | Ok | Illegal

section \<open>kv.go\<close>

record KvInput =
  Op :: "8 word"
  Key :: string
  kvValue :: string

record KvOutput =
  koValue :: string

type_synonym kv_op = "(KvInput, KvOutput) Operation"

text \<open>
  The map from keys to their operations. Appending to a missing key starts from the nil slice. The
  keys are collected from a \<open>range\<close> over the map, whose order is not specified; they are distinct
  and then sorted by \<open>sort.Strings\<close>, so that order does not matter.
\<close>

fun kv_group :: "kv_op list \<Rightarrow> (string \<times> kv_op list) list \<Rightarrow> (string \<times> kv_op list) list" where
  "kv_group [] m = m"
| "kv_group (v # vs) m =
     (let key = Key (Input v);
          old = (case map_of m key of None \<Rightarrow> [] | Some ops \<Rightarrow> ops)
      in kv_group vs (AList.update key (old @ [v]) m))"

definition KvPartition :: "kv_op list \<Rightarrow> kv_op list list" where
  "KvPartition history =
     (let m = kv_group history []; keys = sort (map fst m)
      in map (\<lambda>k. case map_of m k of None \<Rightarrow> [] | Some ops \<Rightarrow> ops) keys)"

definition KvStep :: "string \<Rightarrow> KvInput \<Rightarrow> KvOutput \<Rightarrow> bool \<times> string" where
  "KvStep st inp out =
     (if Op inp = 0 then (koValue out = st, st)
      else if Op inp = 1 then (True, kvValue inp)
      else (True, st @ kvValue inp))"

definition KvDescribeOperation :: "KvInput \<Rightarrow> KvOutput \<Rightarrow> string" where
  "KvDescribeOperation inp out =
     (if Op inp = 0 then ''get('' @ [CHR 0x27] @ Key inp @ [CHR 0x27] @ '') -> '' @ [CHR 0x27] @ koValue out @ [CHR 0x27]
      else if Op inp = 1
      then ''put('' @ [CHR 0x27] @ Key inp @ [CHR 0x27] @ '', '' @ [CHR 0x27] @ kvValue inp @ [CHR 0x27] @ '')''
      else if Op inp = 2
      then ''append('' @ [CHR 0x27] @ Key inp @ [CHR 0x27] @ '', '' @ [CHR 0x27] @ kvValue inp @ [CHR 0x27] @ '')''
      else ''<invalid>'')"

definition KvModel :: "(KvInput, KvOutput, string) Model" where
  "KvModel = \<lparr>Partition = Some KvPartition, PartitionEvent = None, Init = '''',
     Step = KvStep, Equal = None, DescribeOperation = Some KvDescribeOperation, DescribeState = None\<rparr>"

section \<open>Partitioning by key\<close>

abbreviation op_key :: "kv_op \<Rightarrow> string" where
  "op_key v \<equiv> Key (Input v)"

lemma kv_group_lookup:
  "map_of (kv_group vs m) k =
     (if \<exists>v \<in> set vs. op_key v = k
      then Some ((case map_of m k of None \<Rightarrow> [] | Some ops \<Rightarrow> ops) @ filter (\<lambda>v. op_key v = k) vs)
      else map_of m k)"
proof (induction vs arbitrary: m)
  case (Cons v vs)
  show ?case
    by (auto simp: Cons.IH Let_def update_conv' split: option.splits)
qed simp

lemma distinct_kv_group: "distinct (map fst m) \<Longrightarrow> distinct (map fst (kv_group vs m))"
proof (induction vs arbitrary: m)
  case (Cons v vs)
  then show ?case by (simp add: Let_def distinct_update)
qed simp

lemma keys_kv_group: "fst ` set (kv_group vs m) = fst ` set m \<union> op_key ` set vs"
proof (induction vs arbitrary: m)
  case (Cons v vs)
  show ?case by (auto simp: Cons.IH Let_def dom_update)
qed simp

text \<open>One partition per key, in the order of the keys, each the operations on it in their order.\<close>

lemma KvPartition_filters:
  "KvPartition history =
    map (\<lambda>k. filter (\<lambda>v. op_key v = k) history) (sorted_list_of_set (op_key ` set history))"
proof -
  have "sort (map fst (kv_group history [])) = sorted_list_of_set (set (map fst (kv_group history [])))"
    using distinct_kv_group [of "[]" history]
    by (simp only: sorted_list_of_set_sort_remdups distinct_remdups_id list.map distinct.simps)
  also have "set (map fst (kv_group history [])) = op_key ` set history"
    using keys_kv_group [of history "[]"] by simp
  finally have "sort (map fst (kv_group history [])) = sorted_list_of_set (op_key ` set history)" .
  then show ?thesis
    by (auto simp: KvPartition_def Let_def kv_group_lookup)
qed

end
