(* ===== verification/Bitset.thy ===== *)
theory Bitset
  imports Prelude
begin

unbundle bit_operations_syntax

text \<open>
  Bit sets of the linearizability checker: \<open>src/src/porcupine/bitset.go\<close>. A bit set is a slice of
  64-bit words. Go passes it by reference: \<open>set\<close> and \<open>clear\<close> update in place and return their
  receiver, so each is a function to the new contents here; \<open>clone\<close> makes the copy that callers
  need when they want to keep the old contents. An index beyond the last word panics.
\<close>

type_synonym bitset = "64 word list"

definition newBitset :: "nat \<Rightarrow> bitset" where
  "newBitset bits =
     (let extra = (if bits mod 64 \<noteq> 0 then 1 else 0); chunks = bits div 64 + extra
      in replicate chunks 0)"

definition bitset_clone :: "bitset \<Rightarrow> bitset" where
  "bitset_clone b = take (length b) b @ drop (length b) (replicate (length b) 0)"

definition bitsetIndex :: "nat \<Rightarrow> nat \<times> nat" where
  "bitsetIndex pos = (pos div 64, pos mod 64)"

definition bitset_set :: "bitset \<Rightarrow> nat \<Rightarrow> bitset option" where
  "bitset_set b pos = (case bitsetIndex pos of (major, minor) \<Rightarrow>
     do { w \<leftarrow> idx b (int major); idx_upd b (int major) (w OR push_bit minor 1) })"

definition bitset_clear :: "bitset \<Rightarrow> nat \<Rightarrow> bitset option" where
  "bitset_clear b pos = (case bitsetIndex pos of (major, minor) \<Rightarrow>
     do { w \<leftarrow> idx b (int major); idx_upd b (int major) (w AND NOT (push_bit minor 1)) })"

definition bitset_get :: "bitset \<Rightarrow> nat \<Rightarrow> bool option" where
  "bitset_get b pos = (case bitsetIndex pos of (major, minor) \<Rightarrow>
     do { w \<leftarrow> idx b (int major); Some (w AND push_bit minor 1 \<noteq> 0) })"

text \<open>\<open>bits.OnesCount64\<close> of the standard library.\<close>

definition OnesCount64 :: "64 word \<Rightarrow> nat" where
  "OnesCount64 w = length (filter (bit w) [0..<64])"

definition popcnt :: "bitset \<Rightarrow> nat" where
  "popcnt b = fold (\<lambda>v total. total + OnesCount64 v) b 0"

definition bitset_hash :: "bitset \<Rightarrow> 64 word" where
  "bitset_hash b = fold (\<lambda>v hash. hash XOR v) b (of_nat (popcnt b))"

fun equals_loop :: "bitset \<Rightarrow> bitset \<Rightarrow> nat list \<Rightarrow> bool" where
  "equals_loop b b2 [] = True"
| "equals_loop b b2 (i # is) = (if b ! i \<noteq> b2 ! i then False else equals_loop b b2 is)"

definition bitset_equals :: "bitset \<Rightarrow> bitset \<Rightarrow> bool" where
  "bitset_equals b b2 = (if length b \<noteq> length b2 then False else equals_loop b b2 [0..<length b])"

section \<open>The interface\<close>

text \<open>
  What the checker relies on: a set of numbers below a capacity fixed when it is made, with a
  comparison that is equality of the sets.
\<close>

locale id_set =
  fixes valid :: "nat \<Rightarrow> 'b \<Rightarrow> bool"
    and new :: "nat \<Rightarrow> 'b"
    and put :: "'b \<Rightarrow> nat \<Rightarrow> 'b option"
    and del :: "'b \<Rightarrow> nat \<Rightarrow> 'b option"
    and mem :: "'b \<Rightarrow> nat \<Rightarrow> bool option"
    and same :: "'b \<Rightarrow> 'b \<Rightarrow> bool"
  assumes valid_new: "valid n (new n)"
    and mem_new: "p < n \<Longrightarrow> mem (new n) p = Some False"
    and put: "valid n b \<Longrightarrow> p < n \<Longrightarrow>
      \<exists>b'. put b p = Some b' \<and> valid n b' \<and> (\<forall>q < n. mem b' q = (if q = p then Some True else mem b q))"
    and del: "valid n b \<Longrightarrow> p < n \<Longrightarrow>
      \<exists>b'. del b p = Some b' \<and> valid n b' \<and> (\<forall>q < n. mem b' q = (if q = p then Some False else mem b q))"
    and same_iff: "valid n b \<Longrightarrow> valid n c \<Longrightarrow> same b c \<longleftrightarrow> (\<forall>q < n. mem b q = mem c q)"
    and mem_defined: "valid n b \<Longrightarrow> p < n \<Longrightarrow> \<exists>x. mem b p = Some x"
begin

text \<open>The set that a value of capacity \<open>n\<close> stands for.\<close>

definition elems :: "nat \<Rightarrow> 'b \<Rightarrow> nat set" where
  "elems n b = {p. p < n \<and> mem b p = Some True}"

lemma elems_new: "elems n (new n) = {}"
  by (auto simp: elems_def mem_new)

lemma elems_put:
  assumes "valid n b" and "p < n"
  shows "\<exists>b'. put b p = Some b' \<and> valid n b' \<and> elems n b' = insert p (elems n b)"
proof -
  from put [OF assms] obtain b' where "put b p = Some b'" "valid n b'"
    "\<forall>q < n. mem b' q = (if q = p then Some True else mem b q)" by blast
  then show ?thesis using assms(2) by (auto simp: elems_def)
qed

lemma elems_del:
  assumes "valid n b" and "p < n"
  shows "\<exists>b'. del b p = Some b' \<and> valid n b' \<and> elems n b' = elems n b - {p}"
proof -
  from del [OF assms] obtain b' where "del b p = Some b'" "valid n b'"
    "\<forall>q < n. mem b' q = (if q = p then Some False else mem b q)" by blast
  then show ?thesis using assms(2) by (auto simp: elems_def split: if_splits)
qed

lemma same_elems:
  assumes "valid n b" and "valid n c"
  shows "same b c \<longleftrightarrow> elems n b = elems n c"
proof -
  have "mem b q = mem c q \<longleftrightarrow> (mem b q = Some True \<longleftrightarrow> mem c q = Some True)" if "q < n" for q
    using mem_defined [OF assms(1) that] mem_defined [OF assms(2) that] by auto
  then show ?thesis
    by (auto simp: same_iff [OF assms] elems_def set_eq_iff)
qed

end

section \<open>The implementation meets it\<close>

definition chunks :: "nat \<Rightarrow> nat" where
  "chunks n = (n + 63) div 64"

text \<open>A bit set of capacity \<open>n\<close>: as many words as \<open>newBitset n\<close>, no bit set from \<open>n\<close> on.\<close>

definition bitset_valid :: "nat \<Rightarrow> bitset \<Rightarrow> bool" where
  "bitset_valid n b \<longleftrightarrow> length b = chunks n \<and>
     (\<forall>p. n \<le> p \<longrightarrow> p < 64 * chunks n \<longrightarrow> \<not> bit (b ! (p div 64)) (p mod 64))"

lemma newBitset_replicate: "newBitset n = replicate (chunks n) 0"
proof -
  define q r where "q = n div 64" and "r = n mod 64"
  then have n: "n = 64 * q + r" and r: "r < 64" by simp_all
  have "(64 * q + r + 63) div 64 = q + (r + 63) div 64" by simp
  moreover have "(r + 63) div 64 = (if r \<noteq> 0 then 1 else 0)" using r by auto
  ultimately have "n div 64 + (if n mod 64 \<noteq> 0 then 1 else 0) = (n + 63) div 64"
    using n r by simp
  then show ?thesis by (simp add: newBitset_def chunks_def Let_def)
qed

lemma chunk_lt: "p < n \<Longrightarrow> p div 64 < chunks n"
  by (simp add: chunks_def)

lemma bitset_get_bit: "p div 64 < length b \<Longrightarrow> bitset_get b p = Some (bit (b ! (p div 64)) (p mod 64))"
  by (simp add: bitset_get_def bitsetIndex_def bit_iff_and_push_bit_not_eq_0 del: push_bit_of_1)

lemma bitset_set_upd:
  "p div 64 < length b \<Longrightarrow>
     bitset_set b p = Some (b[p div 64 := b ! (p div 64) OR push_bit (p mod 64) 1])"
  by (simp add: bitset_set_def bitsetIndex_def idx_upd_def del: push_bit_of_1)

lemma bitset_clear_upd:
  "p div 64 < length b \<Longrightarrow>
     bitset_clear b p = Some (b[p div 64 := b ! (p div 64) AND NOT (push_bit (p mod 64) 1)])"
  by (simp add: bitset_clear_def bitsetIndex_def idx_upd_def del: push_bit_of_1)

lemma same_place: "q div 64 = p div 64 \<and> q mod 64 = p mod 64 \<longleftrightarrow> q = (p::nat)"
  by (metis div_mult_mod_eq)

lemma bit_after_set:
  fixes b :: bitset
  assumes "p div 64 < length b"
  shows "bit (b[p div 64 := b ! (p div 64) OR push_bit (p mod 64) 1] ! (q div 64)) (q mod 64) \<longleftrightarrow>
    q = p \<or> bit (b ! (q div 64)) (q mod 64)"
  using assms same_place [of q p] by (cases "q div 64 = p div 64") (auto simp: bit_simps simp del: push_bit_of_1)

lemma bit_after_clear:
  fixes b :: bitset
  assumes "p div 64 < length b"
  shows "bit (b[p div 64 := b ! (p div 64) AND NOT (push_bit (p mod 64) 1)] ! (q div 64)) (q mod 64) \<longleftrightarrow>
    q \<noteq> p \<and> bit (b ! (q div 64)) (q mod 64)"
  using assms same_place [of q p] by (cases "q div 64 = p div 64") (auto simp: bit_simps simp del: push_bit_of_1)

lemma equals_loop_all: "equals_loop b c is \<longleftrightarrow> (\<forall>i \<in> set is. b ! i = c ! i)"
  by (induction "is") auto

lemma bitset_equals_eq: "bitset_equals b c \<longleftrightarrow> b = c"
  by (auto simp: bitset_equals_def equals_loop_all intro: nth_equalityI)

lemma bitset_clone_id [simp]: "bitset_clone b = b"
  by (simp add: bitset_clone_def)

lemma bitset_ext:
  assumes "bitset_valid n b" and "bitset_valid n c" and "\<forall>q < n. bitset_get b q = bitset_get c q"
  shows "b = c"
proof (rule nth_equalityI)
  show "length b = length c" using assms(1,2) by (simp add: bitset_valid_def)
  fix i assume i: "i < length b"
  show "b ! i = c ! i"
  proof (rule bit_eqI)
    fix m assume m: "possible_bit TYPE(64 word) m"
    let ?p = "64 * i + m"
    have p: "?p div 64 = i" "?p mod 64 = m" using m by (auto simp: possible_bit_def)
    then have "?p < 64 * chunks n" using i m assms(1) by (auto simp: bitset_valid_def possible_bit_def)
    show "bit (b ! i) m = bit (c ! i) m"
    proof (cases "?p < n")
      case True
      then show ?thesis
        using assms p bitset_get_bit [of ?p b] bitset_get_bit [of ?p c] i by (auto simp: bitset_valid_def)
    next
      case False
      then show ?thesis
        using assms(1,2) p \<open>?p < 64 * chunks n\<close> by (auto simp: bitset_valid_def dest!: spec [of _ ?p])
    qed
  qed
qed

interpretation bits: id_set bitset_valid newBitset bitset_set bitset_clear bitset_get bitset_equals
proof unfold_locales
  fix n
  show "bitset_valid n (newBitset n)"
    by (auto simp: bitset_valid_def newBitset_replicate div_less_iff_less_mult mult.commute)
next
  fix p n :: nat
  assume "p < n"
  then show "bitset_get (newBitset n) p = Some False"
    by (simp add: newBitset_replicate bitset_get_bit chunk_lt)
next
  fix n b and p :: nat
  assume v: "bitset_valid n b" and p: "p < n"
  then have len: "length b = chunks n" and lt: "p div 64 < length b"
    by (simp_all add: bitset_valid_def chunk_lt)
  show "\<exists>b'. bitset_set b p = Some b' \<and> bitset_valid n b' \<and>
      (\<forall>q<n. bitset_get b' q = (if q = p then Some True else bitset_get b q))"
    using v p len lt by (auto simp: bitset_set_upd bitset_valid_def bit_after_set bitset_get_bit chunk_lt
        simp del: push_bit_of_1)
  show "\<exists>b'. bitset_clear b p = Some b' \<and> bitset_valid n b' \<and>
      (\<forall>q<n. bitset_get b' q = (if q = p then Some False else bitset_get b q))"
    using v p len lt by (auto simp: bitset_clear_upd bitset_valid_def bit_after_clear bitset_get_bit chunk_lt
        simp del: push_bit_of_1)
next
  fix n b c
  assume "bitset_valid n b" and "bitset_valid n c"
  then show "bitset_equals b c \<longleftrightarrow> (\<forall>q<n. bitset_get b q = bitset_get c q)"
    using bitset_ext by (auto simp: bitset_equals_eq)
next
  fix n b and p :: nat
  assume "bitset_valid n b" and "p < n"
  then show "\<exists>x. bitset_get b p = Some x" by (simp add: bitset_get_bit bitset_valid_def chunk_lt)
qed

end
