(* ===== verification/Checker.thy ===== *)
theory Checker
  imports PorcModel Bitset
begin

text \<open>
  The linearizability checker: \<open>src/src/porcupine/checker.go\<close>.

  The doubly linked list of entries lives on a heap of nodes; a pointer is an address or nil, and
  \<open>load\<close> and the stores fail on nil. \<open>lift\<close> and \<open>unlift\<close> are the assignments of the code, one by one.
  \<open>checkSingle_loop\<close> is the loop of \<open>checkSingle\<close>: \<open>None\<close> is a panic or a loop that never ends, and
  that neither happens is proved in \<open>CheckerCorrect\<close>. What \<open>atomic.LoadInt32(kill)\<close> returns at the
  \<open>i\<close>-th round is the argument \<open>kill i\<close>. \<open>sort.Sort\<close> is not stable, so the sorted order of entries
  with the same time and kind is not determined: the sorting function is an argument.
\<close>

section \<open>Entries\<close>

datatype entryKind = callEntry | returnEntry

record ('i, 'o) entry =
  e_kind :: entryKind
  e_value :: "('i, 'o) interface"
  e_id :: int
  e_time :: int
  e_clientId :: int

text \<open>\<open>byTime.Less\<close>.\<close>

definition byTime_Less :: "('i, 'o) entry \<Rightarrow> ('i, 'o) entry \<Rightarrow> bool" where
  "byTime_Less a b =
     (if e_time a \<noteq> e_time b then e_time a < e_time b
      else e_kind a = callEntry \<and> e_kind b = returnEntry)"

fun makeEntries_loop :: "('i, 'o) Operation list \<Rightarrow> int \<Rightarrow> ('i, 'o) entry list" where
  "makeEntries_loop [] i = []"
| "makeEntries_loop (elem # rest) i =
     \<lparr>e_kind = callEntry, e_value = InV (Input elem), e_id = i, e_time = Call elem, e_clientId = ClientId elem\<rparr>
     # \<lparr>e_kind = returnEntry, e_value = OutV (Output elem), e_id = i, e_time = Return elem,
        e_clientId = ClientId elem\<rparr>
     # makeEntries_loop rest (i + 1)"

definition makeEntries ::
  "(('i, 'o) entry list \<Rightarrow> ('i, 'o) entry list) \<Rightarrow> ('i, 'o) Operation list \<Rightarrow> ('i, 'o) entry list" where
  "makeEntries sort_byTime history = sort_byTime (makeEntries_loop history 0)"

fun renumber_loop :: "('i, 'o) Event list \<Rightarrow> (int \<Rightarrow> int option) \<Rightarrow> int \<Rightarrow> ('i, 'o) Event list" where
  "renumber_loop [] m i = []"
| "renumber_loop (v # vs) m i =
     (case m (evId v) of
        Some r \<Rightarrow> \<lparr>evClientId = evClientId v, Kind = Kind v, Value = Value v, evId = r\<rparr> # renumber_loop vs m i
      | None \<Rightarrow> \<lparr>evClientId = evClientId v, Kind = Kind v, Value = Value v, evId = i\<rparr>
          # renumber_loop vs (m(evId v \<mapsto> i)) (i + 1))"

definition renumber :: "('i, 'o) Event list \<Rightarrow> ('i, 'o) Event list" where
  "renumber events = renumber_loop events (\<lambda>_. None) 0"

fun convertEntries_loop :: "('i, 'o) Event list \<Rightarrow> int \<Rightarrow> ('i, 'o) entry list" where
  "convertEntries_loop [] i = []"
| "convertEntries_loop (elem # rest) i =
     \<lparr>e_kind = (if Kind elem = ReturnEvent then returnEntry else callEntry), e_value = Value elem,
      e_id = evId elem, e_time = i, e_clientId = evClientId elem\<rparr>
     # convertEntries_loop rest (i + 1)"

definition convertEntries :: "('i, 'o) Event list \<Rightarrow> ('i, 'o) entry list" where
  "convertEntries events = convertEntries_loop events 0"

section \<open>The linked list\<close>

type_synonym ptr = "nat option"

record ('i, 'o) node =
  n_value :: "('i, 'o) interface option"
  n_match :: ptr
  n_id :: int
  n_next :: ptr
  n_prev :: ptr

type_synonym ('i, 'o) heap = "('i, 'o) node list"

definition load :: "('i, 'o) heap \<Rightarrow> ptr \<Rightarrow> ('i, 'o) node option" where
  "load h p = (case p of None \<Rightarrow> None | Some a \<Rightarrow> if a < length h then Some (h ! a) else None)"

text \<open>The assignments \<open>p.next = v\<close> and \<open>p.prev = v\<close>.\<close>

definition store_next :: "('i, 'o) heap \<Rightarrow> ptr \<Rightarrow> ptr \<Rightarrow> ('i, 'o) heap option" where
  "store_next h p v = (case p of None \<Rightarrow> None
     | Some a \<Rightarrow> if a < length h then Some (h[a := (h ! a)\<lparr>n_next := v\<rparr>]) else None)"

definition store_prev :: "('i, 'o) heap \<Rightarrow> ptr \<Rightarrow> ptr \<Rightarrow> ('i, 'o) heap option" where
  "store_prev h p v = (case p of None \<Rightarrow> None
     | Some a \<Rightarrow> if a < length h then Some (h[a := (h ! a)\<lparr>n_prev := v\<rparr>]) else None)"

definition insertBefore :: "('i, 'o) heap \<Rightarrow> ptr \<Rightarrow> ptr \<Rightarrow> ('i, 'o) heap option" where
  "insertBefore h n mark =
     (if mark \<noteq> None then do {
        m \<leftarrow> load h mark;
        let beforeMark = n_prev m;
        h \<leftarrow> store_prev h mark n;
        h \<leftarrow> store_next h n mark;
        if beforeMark \<noteq> None then do {
          h \<leftarrow> store_prev h n beforeMark;
          store_next h beforeMark n
        } else Some h
      } else Some h)"

partial_function (option) node_length :: "('i, 'o) heap \<Rightarrow> ptr \<Rightarrow> nat \<Rightarrow> nat option" where
  "node_length h n l =
     (if n \<noteq> None then do { nd \<leftarrow> load h n; node_length h (n_next nd) (l + 1) } else Some l)"

text \<open>\<open>&node{...}\<close> takes the next free address.\<close>

fun makeLinkedEntries_loop ::
  "('i, 'o) entry list \<Rightarrow> ('i, 'o) heap \<Rightarrow> ptr \<Rightarrow> (int \<Rightarrow> nat option) \<Rightarrow> (('i, 'o) heap \<times> ptr) option" where
  "makeLinkedEntries_loop [] h root match = Some (h, root)"
| "makeLinkedEntries_loop (elem # rest) h root match =
     (let entry = Some (length h) in
      if e_kind elem = returnEntry then do {
        let h = h @ [\<lparr>n_value = Some (e_value elem), n_match = None, n_id = e_id elem, n_next = None, n_prev = None\<rparr>];
        let match = match(e_id elem := entry);
        h \<leftarrow> insertBefore h entry root;
        makeLinkedEntries_loop rest h entry match
      } else do {
        let h = h @ [\<lparr>n_value = Some (e_value elem), n_match = match (e_id elem), n_id = e_id elem,
                      n_next = None, n_prev = None\<rparr>];
        h \<leftarrow> insertBefore h entry root;
        makeLinkedEntries_loop rest h entry match
      })"

text \<open>The loop runs from the last entry to the first.\<close>

definition makeLinkedEntries :: "('i, 'o) entry list \<Rightarrow> (('i, 'o) heap \<times> ptr) option" where
  "makeLinkedEntries entries = makeLinkedEntries_loop (rev entries) [] None (\<lambda>_. None)"

definition lift :: "('i, 'o) heap \<Rightarrow> ptr \<Rightarrow> ('i, 'o) heap option" where
  "lift h entry = do {
     e \<leftarrow> load h entry;
     h \<leftarrow> store_next h (n_prev e) (n_next e);
     e \<leftarrow> load h entry;
     h \<leftarrow> store_prev h (n_next e) (n_prev e);
     e \<leftarrow> load h entry;
     let match = n_match e;
     m \<leftarrow> load h match;
     h \<leftarrow> store_next h (n_prev m) (n_next m);
     m \<leftarrow> load h match;
     if n_next m \<noteq> None then store_prev h (n_next m) (n_prev m) else Some h
   }"

definition unlift :: "('i, 'o) heap \<Rightarrow> ptr \<Rightarrow> ('i, 'o) heap option" where
  "unlift h entry = do {
     e \<leftarrow> load h entry;
     let match = n_match e;
     m \<leftarrow> load h match;
     h \<leftarrow> store_next h (n_prev m) match;
     m \<leftarrow> load h match;
     h \<leftarrow> (if n_next m \<noteq> None then store_prev h (n_next m) match else Some h);
     e \<leftarrow> load h entry;
     h \<leftarrow> store_next h (n_prev e) entry;
     e \<leftarrow> load h entry;
     store_prev h (n_next e) entry
   }"

section \<open>The search\<close>

type_synonym 's cacheEntry = "bitset \<times> 's"

definition model_Equal :: "('i, 'o, 's) Model \<Rightarrow> 's \<Rightarrow> 's \<Rightarrow> bool option" where
  "model_Equal model s t = map_option (\<lambda>eq. eq s t) (Equal model)"

text \<open>\<open>&&\<close> evaluates \<open>model.Equal\<close> only after the bit sets compared equal.\<close>

fun cacheContains_loop :: "('i, 'o, 's) Model \<Rightarrow> 's cacheEntry list \<Rightarrow> 's cacheEntry \<Rightarrow> bool option" where
  "cacheContains_loop model [] entry = Some False"
| "cacheContains_loop model (elem # rest) entry =
     (if bitset_equals (fst entry) (fst elem) then do {
        eq \<leftarrow> model_Equal model (snd entry) (snd elem);
        if eq then Some True else cacheContains_loop model rest entry
      } else cacheContains_loop model rest entry)"

definition cacheContains ::
  "('i, 'o, 's) Model \<Rightarrow> (64 word \<Rightarrow> 's cacheEntry list) \<Rightarrow> 's cacheEntry \<Rightarrow> bool option" where
  "cacheContains model cache entry = cacheContains_loop model (cache (bitset_hash (fst entry))) entry"

text \<open>\<open>model.Step\<close> on the values of two nodes.\<close>

definition model_Step ::
  "('i, 'o, 's) Model \<Rightarrow> 's \<Rightarrow> ('i, 'o) interface option \<Rightarrow> ('i, 'o) interface option \<Rightarrow> (bool \<times> 's) option" where
  "model_Step model st v w =
     (case (v, w) of (Some (InV i), Some (OutV out)) \<Rightarrow> Some (Step model st i out) | _ \<Rightarrow> None)"

text \<open>\<open>uint(entry.id)\<close>, used as an index of a bit set; a negative number is out of its range.\<close>

definition uint_id :: "int \<Rightarrow> nat option" where
  "uint_id i = (if 0 \<le> i then Some (nat i) else None)"

text \<open>
  \<open>longest\<close> holds pointers to slices. A slice allocated by the \<open>r\<close>-th backtracking is \<open>(r, ids)\<close>.
\<close>

type_synonym seq_ptr = "(nat \<times> int list) option"

record ('i, 'o, 's) search =
  s_heap :: "('i, 'o) heap"
  s_entry :: ptr
  s_linearized :: bitset
  s_cache :: "64 word \<Rightarrow> 's cacheEntry list"
  s_calls :: "(ptr \<times> 's) list"
  s_longest :: "seq_ptr list"
  s_state :: 's
  s_round :: nat

definition call_ids :: "('i, 'o) heap \<Rightarrow> (ptr \<times> 's) list \<Rightarrow> int list option" where
  "call_ids h calls = mapM (\<lambda>v. map_option n_id (load h (fst v))) calls"

fun longest_loop :: "nat \<Rightarrow> nat \<times> int list \<Rightarrow> int list \<Rightarrow> seq_ptr list \<Rightarrow> seq_ptr list option" where
  "longest_loop callsLen seq [] longest = Some longest"
| "longest_loop callsLen seq (i # is) longest = do {
     l \<leftarrow> idx longest i;
     longest' \<leftarrow> (if (case l of None \<Rightarrow> True | Some s \<Rightarrow> callsLen > length (snd s))
       then idx_upd longest i (Some seq) else Some longest);
     longest_loop callsLen seq is longest'
   }"

text \<open>One round at a call entry: the node \<open>e\<close> is \<open>*entry\<close>, \<open>head\<close> is \<open>headEntry\<close>.\<close>

definition checkSingle_call ::
  "('i, 'o, 's) Model \<Rightarrow> ptr \<Rightarrow> ('i, 'o) node \<Rightarrow> ('i, 'o, 's) search \<Rightarrow> ('i, 'o, 's) search option" where
  "checkSingle_call model head e cs = do {
     matching \<leftarrow> load (s_heap cs) (n_match e);
     (ok, newState) \<leftarrow> model_Step model (s_state cs) (n_value e) (n_value matching);
     if ok then do {
       p \<leftarrow> uint_id (n_id e);
       newLinearized \<leftarrow> bitset_set (bitset_clone (s_linearized cs)) p;
       let newCacheEntry = (newLinearized, newState);
       seen \<leftarrow> cacheContains model (s_cache cs) newCacheEntry;
       if \<not> seen then do {
         let hash = bitset_hash newLinearized;
         linearized \<leftarrow> bitset_set (s_linearized cs) p;
         h \<leftarrow> lift (s_heap cs) (s_entry cs);
         hd \<leftarrow> load h head;
         Some (cs\<lparr>s_cache := (s_cache cs)(hash := s_cache cs hash @ [newCacheEntry]),
                 s_calls := s_calls cs @ [(s_entry cs, s_state cs)],
                 s_state := newState, s_linearized := linearized, s_heap := h,
                 s_entry := n_next hd\<rparr>)
       } else Some (cs\<lparr>s_entry := n_next e\<rparr>)
     } else Some (cs\<lparr>s_entry := n_next e\<rparr>)
   }"

text \<open>One round at a return entry; \<open>None\<close> inside is the \<open>return false\<close> of an empty stack.\<close>

definition checkSingle_return ::
  "bool \<Rightarrow> ('i, 'o, 's) search \<Rightarrow> ('i, 'o, 's) search option option" where
  "checkSingle_return computePartial cs =
     (if s_calls cs = [] then Some None
      else do {
        longest \<leftarrow> (if computePartial then do {
            ids \<leftarrow> call_ids (s_heap cs) (s_calls cs);
            longest_loop (length (s_calls cs)) (s_round cs, ids) ids (s_longest cs)
          } else Some (s_longest cs));
        let callsTop = last (s_calls cs);
        e \<leftarrow> load (s_heap cs) (fst callsTop);
        p \<leftarrow> uint_id (n_id e);
        linearized \<leftarrow> bitset_clear (s_linearized cs) p;
        h \<leftarrow> unlift (s_heap cs) (fst callsTop);
        e \<leftarrow> load h (fst callsTop);
        Some (Some (cs\<lparr>s_longest := longest, s_state := snd callsTop, s_linearized := linearized,
          s_calls := butlast (s_calls cs), s_heap := h, s_entry := n_next e\<rparr>))
      })"

partial_function (option) checkSingle_loop ::
  "('i, 'o, 's) Model \<Rightarrow> bool \<Rightarrow> (nat \<Rightarrow> bool) \<Rightarrow> ptr \<Rightarrow> ('i, 'o, 's) search \<Rightarrow> (bool \<times> seq_ptr list) option" where
  "checkSingle_loop model computePartial kill head cs = do {
     hd \<leftarrow> load (s_heap cs) head;
     if n_next hd \<noteq> None
     then if kill (s_round cs) then Some (False, s_longest cs)
     else do {
       e \<leftarrow> load (s_heap cs) (s_entry cs);
       if n_match e \<noteq> None
       then do {
         cs' \<leftarrow> checkSingle_call model head e cs;
         checkSingle_loop model computePartial kill head (cs'\<lparr>s_round := s_round cs' + 1\<rparr>)
       }
       else do {
         r \<leftarrow> checkSingle_return computePartial cs;
         case r of
           None \<Rightarrow> Some (False, s_longest cs)
         | Some cs' \<Rightarrow> checkSingle_loop model computePartial kill head (cs'\<lparr>s_round := s_round cs' + 1\<rparr>)
       }
     }
     else do {
       ids \<leftarrow> call_ids (s_heap cs) (s_calls cs);
       Some (True, map (\<lambda>_. Some (s_round cs, ids)) (s_longest cs))
     }
   }"

definition checkSingle ::
  "('i, 'o, 's) Model \<Rightarrow> ('i, 'o) entry list \<Rightarrow> bool \<Rightarrow> (nat \<Rightarrow> bool) \<Rightarrow> (bool \<times> seq_ptr list) option" where
  "checkSingle model history computePartial kill = do {
     (h, entry) \<leftarrow> makeLinkedEntries history;
     len \<leftarrow> node_length h entry 0;
     let n = len div 2;
     let head = Some (length h);
     let h = h @ [\<lparr>n_value = None, n_match = None, n_id = -1, n_next = None, n_prev = None\<rparr>];
     h \<leftarrow> insertBefore h head entry;
     checkSingle_loop model computePartial kill head
       \<lparr>s_heap = h, s_entry = entry, s_linearized = newBitset n, s_cache = (\<lambda>_. []), s_calls = [],
        s_longest = replicate n None, s_state = Init model, s_round = 0\<rparr>
   }"

end
