(* ===== verification/Linearizability.thy ===== *)
theory Linearizability
  imports Checker
begin

text \<open>
  What the checker decides. A history of operations is linearizable if its operations can be put in
  one sequence that the sequential model accepts and that keeps the order of operations of which
  one returned before the other was called. The search for such a sequence goes through
  configurations: the operations taken so far, and the state of the model after them.
\<close>

section \<open>Linearizations\<close>

text \<open>A sequence of operations that a step function accepts one after the other.\<close>

fun legal :: "('s \<Rightarrow> int \<Rightarrow> bool \<times> 's) \<Rightarrow> 's \<Rightarrow> int list \<Rightarrow> bool" where
  "legal stp s [] = True"
| "legal stp s (k # ks) = (fst (stp s k) \<and> legal stp (snd (stp s k)) ks)"

fun after :: "('s \<Rightarrow> int \<Rightarrow> bool \<times> 's) \<Rightarrow> 's \<Rightarrow> int list \<Rightarrow> 's" where
  "after stp s [] = s"
| "after stp s (k # ks) = after stp (snd (stp s k)) ks"

definition linearization ::
  "int set \<Rightarrow> (int \<Rightarrow> int \<Rightarrow> bool) \<Rightarrow> ('s \<Rightarrow> int \<Rightarrow> bool \<times> 's) \<Rightarrow> 's \<Rightarrow> int list \<Rightarrow> bool" where
  "linearization I prec stp s ks \<longleftrightarrow>
     distinct ks \<and> set ks = I \<and> sorted_wrt (\<lambda>a b. \<not> prec b a) ks \<and> legal stp s ks"

section \<open>The search space\<close>

text \<open>
  \<open>path\<close>: operations taken one by one, each only when all that must come before it have been taken.
\<close>

fun path ::
  "int set \<Rightarrow> (int \<Rightarrow> int \<Rightarrow> bool) \<Rightarrow> ('s \<Rightarrow> int \<Rightarrow> bool \<times> 's) \<Rightarrow> int set \<Rightarrow> 's \<Rightarrow> int list \<Rightarrow> bool" where
  "path I prec stp L s [] = True"
| "path I prec stp L s (k # ks) =
     (k \<in> I \<and> k \<notin> L \<and> (\<forall>a \<in> I. prec a k \<longrightarrow> a \<in> L) \<and> fst (stp s k)
      \<and> path I prec stp (insert k L) (snd (stp s k)) ks)"

definition completable ::
  "int set \<Rightarrow> (int \<Rightarrow> int \<Rightarrow> bool) \<Rightarrow> ('s \<Rightarrow> int \<Rightarrow> bool \<times> 's) \<Rightarrow> int set \<Rightarrow> 's \<Rightarrow> bool" where
  "completable I prec stp L s \<longleftrightarrow> (\<exists>ks. path I prec stp L s ks \<and> L \<union> set ks = I)"

lemma path_append:
  "path I prec stp L s (xs @ ys) \<longleftrightarrow>
     path I prec stp L s xs \<and> path I prec stp (L \<union> set xs) (after stp s xs) ys"
  by (induction xs arbitrary: L s) auto

lemma after_append: "after stp s (xs @ ys) = after stp (after stp s xs) ys"
  by (induction xs arbitrary: s) auto

lemma path_legal: "path I prec stp L s ks \<Longrightarrow> legal stp s ks"
  by (induction ks arbitrary: L s) auto

lemma path_distinct: "path I prec stp L s ks \<Longrightarrow> distinct ks \<and> set ks \<subseteq> I - L"
  by (induction ks arbitrary: L s) auto

lemma path_linearization_gen:
  assumes "\<forall>a. \<not> prec a a" and "L \<inter> set ks = {}" and "L \<union> set ks = I"
  shows "path I prec stp L s ks \<longleftrightarrow>
    distinct ks \<and> sorted_wrt (\<lambda>a b. \<not> prec b a) ks \<and> legal stp s ks"
  using assms(2,3)
proof (induction ks arbitrary: L s)
  case (Cons k ks)
  have "(\<forall>a \<in> I. prec a k \<longrightarrow> a \<in> L) \<longleftrightarrow> (\<forall>b \<in> set ks. \<not> prec b k)"
    using Cons.prems assms(1) by auto
  moreover have "path I prec stp (insert k L) s' ks \<longleftrightarrow>
      distinct ks \<and> sorted_wrt (\<lambda>a b. \<not> prec b a) ks \<and> legal stp s' ks" if "k \<notin> set ks" for s'
    using Cons.prems that by (intro Cons.IH) auto
  moreover have "path I prec stp (insert k L) s' ks \<Longrightarrow> k \<notin> set ks" for s'
    using path_distinct by fastforce
  ultimately show ?case
    using Cons.prems by auto
qed simp

text \<open>A full path from the empty configuration is the same as a linearization.\<close>

lemma completable_linearizable:
  assumes "\<forall>a. \<not> prec a a"
  shows "completable I prec stp {} s \<longleftrightarrow> (\<exists>ks. linearization I prec stp s ks)"
  using path_linearization_gen [where prec = prec and L = "{}" and stp = stp and s = s, OF assms]
  by (auto simp: completable_def linearization_def)

lemma completable_step:
  assumes "completable I prec stp L s" and "L \<noteq> I"
  obtains k where "k \<in> I" "k \<notin> L" "\<forall>a \<in> I. prec a k \<longrightarrow> a \<in> L" "fst (stp s k)"
    "completable I prec stp (insert k L) (snd (stp s k))"
proof -
  from assms(1) obtain ks where ks: "path I prec stp L s ks" "L \<union> set ks = I"
    by (auto simp: completable_def)
  with assms(2) obtain k ks' where [simp]: "ks = k # ks'" by (cases ks) auto
  show thesis
    by (rule that [of k]) (use ks in \<open>auto simp: completable_def\<close>)
qed

text \<open>States that a simulation relates allow the same completions.\<close>

lemma completable_simulation:
  assumes sim: "\<And>s t k. eq s t \<Longrightarrow> fst (stp s k) \<Longrightarrow> fst (stp t k) \<and> eq (snd (stp s k)) (snd (stp t k))"
    and "completable I prec stp L s" and "eq s t"
  shows "completable I prec stp L t"
proof -
  have "path I prec stp L s ks \<Longrightarrow> eq s t \<Longrightarrow> path I prec stp L t ks" for ks
  proof (induction ks arbitrary: L s t)
    case (Cons k ks)
    then show ?case using sim [of s t k] by auto
  qed simp
  with assms(2,3) show ?thesis by (auto simp: completable_def)
qed

section \<open>Histories as entries\<close>

text \<open>Each of \<open>n\<close> operations has a call with an input and a later return with an output.\<close>

definition wf_history :: "nat \<Rightarrow> ('i, 'o) entry list \<Rightarrow> bool" where
  "wf_history n H \<longleftrightarrow>
     distinct (map (\<lambda>e. (e_kind e, e_id e)) H)
     \<and> set (map (\<lambda>e. (e_kind e, e_id e)) H) = {callEntry, returnEntry} \<times> {0..<int n}
     \<and> (\<forall>j < length H. e_kind (H ! j) = returnEntry \<longrightarrow>
          (\<exists>i < j. e_kind (H ! i) = callEntry \<and> e_id (H ! i) = e_id (H ! j)))
     \<and> (\<forall>e \<in> set H. case e_value e of InV _ \<Rightarrow> e_kind e = callEntry | OutV _ \<Rightarrow> e_kind e = returnEntry)"

text \<open>The step of operation \<open>k\<close>, and the order of operations in real time.\<close>

definition entry_of :: "('i, 'o) entry list \<Rightarrow> entryKind \<Rightarrow> int \<Rightarrow> ('i, 'o) entry option" where
  "entry_of H kd k = find (\<lambda>e. e_kind e = kd \<and> e_id e = k) H"

definition hstep :: "('i, 'o, 's) Model \<Rightarrow> ('i, 'o) entry list \<Rightarrow> 's \<Rightarrow> int \<Rightarrow> bool \<times> 's" where
  "hstep M H s k = (case (entry_of H callEntry k, entry_of H returnEntry k) of
     (Some c, Some r) \<Rightarrow> (case (e_value c, e_value r) of
        (InV i, OutV out) \<Rightarrow> Step M s i out | _ \<Rightarrow> (False, s))
   | _ \<Rightarrow> (False, s))"

definition hprec :: "('i, 'o) entry list \<Rightarrow> int \<Rightarrow> int \<Rightarrow> bool" where
  "hprec H a b \<longleftrightarrow> (\<exists>j < length H. \<exists>i < j. e_kind (H ! i) = returnEntry \<and> e_id (H ! i) = a
     \<and> e_kind (H ! j) = callEntry \<and> e_id (H ! j) = b)"

definition linearizable :: "('i, 'o, 's) Model \<Rightarrow> ('i, 'o) entry list \<Rightarrow> bool" where
  "linearizable M H \<longleftrightarrow>
     (\<exists>ks. linearization {0..<int (length H div 2)} (hprec H) (hstep M H) (Init M) ks)"

lemma length_wf_history: "wf_history n H \<Longrightarrow> length H = 2 * n"
proof -
  assume wf: "wf_history n H"
  then have "length H = card (set (map (\<lambda>e. (e_kind e, e_id e)) H))"
    by (metis distinct_card length_map wf_history_def)
  also have "\<dots> = 2 * n" using wf by (simp add: wf_history_def)
  finally show ?thesis .
qed

lemma wf_history_unique:
  "wf_history n H \<Longrightarrow> i < length H \<Longrightarrow> j < length H \<Longrightarrow> e_kind (H ! i) = e_kind (H ! j)
     \<Longrightarrow> e_id (H ! i) = e_id (H ! j) \<Longrightarrow> i = j"
  by (auto simp: wf_history_def distinct_conv_nth)

lemma wf_history_id: "wf_history n H \<Longrightarrow> i < length H \<Longrightarrow> e_id (H ! i) \<in> {0..<int n}"
proof -
  assume wf: "wf_history n H" and i: "i < length H"
  then have "(e_kind (H ! i), e_id (H ! i)) \<in> set (map (\<lambda>e. (e_kind e, e_id e)) H)"
    by auto
  with wf show ?thesis by (simp add: wf_history_def)
qed

lemma wf_history_place:
  assumes "wf_history n H" and "k \<in> {0..<int n}"
  obtains i where "i < length H" "e_kind (H ! i) = kd" "e_id (H ! i) = k"
proof -
  have "(kd, k) \<in> {callEntry, returnEntry} \<times> {0..<int n}"
    using assms(2) by (cases kd) auto
  with assms(1) have "(kd, k) \<in> set (map (\<lambda>e. (e_kind e, e_id e)) H)"
    by (simp add: wf_history_def)
  then show thesis using that by (auto simp: in_set_conv_nth)
qed

lemma wf_history_call_before:
  assumes "wf_history n H" and "i < length H" "j < length H" and "e_kind (H ! i) = callEntry"
    "e_kind (H ! j) = returnEntry" "e_id (H ! i) = e_id (H ! j)"
  shows "i < j"
proof -
  from assms obtain i' where "i' < j" "e_kind (H ! i') = callEntry" "e_id (H ! i') = e_id (H ! j)"
    by (auto simp: wf_history_def)
  with assms wf_history_unique [OF assms(1), of i i'] show ?thesis by auto
qed

lemma hprec_irrefl:
  assumes "wf_history n H"
  shows "\<forall>a. \<not> hprec H a a"
proof (intro allI notI)
  fix a assume "hprec H a a"
  then obtain i j where "j < length H" "i < j" "e_kind (H ! i) = returnEntry" "e_id (H ! i) = a"
    "e_kind (H ! j) = callEntry" "e_id (H ! j) = a" by (auto simp: hprec_def)
  with wf_history_call_before [OF assms, of j i] show False by simp
qed

lemma entry_of_nth:
  assumes "wf_history n H" and "i < length H"
  shows "entry_of H (e_kind (H ! i)) (e_id (H ! i)) = Some (H ! i)"
proof -
  have "\<not> (e_kind (H ! j) = e_kind (H ! i) \<and> e_id (H ! j) = e_id (H ! i))" if "j < i" for j
    using wf_history_unique [OF assms(1), of j i] assms(2) that by auto
  with assms(2) show ?thesis unfolding entry_of_def find_Some_iff by blast
qed

lemma hstep_nth:
  assumes "wf_history n H" and "i < length H" "j < length H" and "e_kind (H ! i) = callEntry"
    "e_kind (H ! j) = returnEntry" "e_id (H ! i) = k" "e_id (H ! j) = k"
  shows "\<exists>inp out. e_value (H ! i) = InV inp \<and> e_value (H ! j) = OutV out \<and> hstep M H s k = Step M s inp out"
proof -
  have kinds: "case e_value (H ! m) of InV _ \<Rightarrow> e_kind (H ! m) = callEntry | OutV _ \<Rightarrow> e_kind (H ! m) = returnEntry"
    if "m < length H" for m
    using assms(1) nth_mem [OF that] unfolding wf_history_def by blast
  obtain inp where "e_value (H ! i) = InV inp"
    using kinds [OF assms(2)] assms(4) by (cases "e_value (H ! i)") auto
  moreover obtain out where "e_value (H ! j) = OutV out"
    using kinds [OF assms(3)] assms(5) by (cases "e_value (H ! j)") auto
  moreover have "entry_of H callEntry k = Some (H ! i)" "entry_of H returnEntry k = Some (H ! j)"
    using entry_of_nth [OF assms(1,2)] entry_of_nth [OF assms(1,3)] assms(4-7) by auto
  ultimately show ?thesis by (simp add: hstep_def)
qed

end
