(* ===== verification/LinkedEntries.thy ===== *)
theory LinkedEntries
  imports Checker
begin

text \<open>
  The doubly linked list of \<open>checker.go\<close>. \<open>dlist h as\<close> says that the nodes at the addresses \<open>as\<close> are
  linked in this order in the heap \<open>h\<close>. \<open>makeLinkedEntries\<close> builds such a list, \<open>lift\<close> takes a call
  and its return out of it, and \<open>unlift\<close> on the result gives back the very same heap.
\<close>

section \<open>Lists in the heap\<close>

definition linked :: "('i, 'o) heap \<Rightarrow> nat \<Rightarrow> nat \<Rightarrow> bool" where
  "linked h a b \<longleftrightarrow> n_next (h ! a) = Some b \<and> n_prev (h ! b) = Some a"

definition dlist :: "('i, 'o) heap \<Rightarrow> nat list \<Rightarrow> bool" where
  "dlist h as \<longleftrightarrow> distinct as \<and> set as \<subseteq> {..<length h} \<and> successively (linked h) as
     \<and> (as \<noteq> [] \<longrightarrow> n_next (h ! last as) = None)"

text \<open>Everything of the nodes but the links.\<close>

definition same_data :: "('i, 'o) heap \<Rightarrow> ('i, 'o) heap \<Rightarrow> bool" where
  "same_data h h' \<longleftrightarrow> length h' = length h
     \<and> (\<forall>a < length h. n_value (h' ! a) = n_value (h ! a) \<and> n_match (h' ! a) = n_match (h ! a)
          \<and> n_id (h' ! a) = n_id (h ! a))"

lemma same_data_refl [simp]: "same_data h h"
  by (simp add: same_data_def)

lemma same_data_trans: "same_data h h' \<Longrightarrow> same_data h' h'' \<Longrightarrow> same_data h h''"
  by (simp add: same_data_def)

lemma in_set_tl: "b \<in> set (tl as) \<Longrightarrow> b \<in> set as"
  by (cases as) auto

lemma successively_linked_frame:
  assumes "\<forall>a \<in> set (butlast as). n_next (h' ! a) = n_next (h ! a)"
    and "\<forall>b \<in> set (tl as). n_prev (h' ! b) = n_prev (h ! b)"
  shows "successively (linked h') as = successively (linked h) as"
  using assms
proof (induction as rule: induct_list012)
  case (3 x y zs)
  then show ?case by (auto simp: linked_def)
qed simp_all

lemma dlist_next:
  assumes "dlist h (xs @ a # ys)"
  shows "n_next (h ! a) = (case ys of [] \<Rightarrow> None | y # _ \<Rightarrow> Some y)"
  using assms by (cases ys) (auto simp: dlist_def successively_append_iff linked_def)

lemma dlist_prev:
  assumes "dlist h (xs @ [p] @ a # ys)"
  shows "n_prev (h ! a) = Some p"
  using assms by (auto simp: dlist_def successively_append_iff successively_Cons linked_def)

lemma dlist_lt: "dlist h as \<Longrightarrow> a \<in> set as \<Longrightarrow> a < length h"
  by (auto simp: dlist_def)

lemma load_Some [simp]: "a < length h \<Longrightarrow> load h (Some a) = Some (h ! a)"
  by (simp add: load_def)

lemma load_None [simp]: "load h None = None"
  by (simp add: load_def)

lemma node_restore:
  "n_next nd = v \<Longrightarrow> nd\<lparr>n_next := v\<rparr> = nd" "n_prev nd = v \<Longrightarrow> nd\<lparr>n_prev := v\<rparr> = nd"
  by (cases nd, simp)+

section \<open>Unlinking one node\<close>

definition unlink :: "('i, 'o) heap \<Rightarrow> ptr \<Rightarrow> ('i, 'o) heap option" where
  "unlink h p = do {
     m \<leftarrow> load h p;
     h \<leftarrow> store_next h (n_prev m) (n_next m);
     m \<leftarrow> load h p;
     if n_next m \<noteq> None then store_prev h (n_next m) (n_prev m) else Some h
   }"

definition relink :: "('i, 'o) heap \<Rightarrow> ptr \<Rightarrow> ('i, 'o) heap option" where
  "relink h p = do {
     m \<leftarrow> load h p;
     h \<leftarrow> store_next h (n_prev m) p;
     m \<leftarrow> load h p;
     if n_next m \<noteq> None then store_prev h (n_next m) p else Some h
   }"

lemma unlink_middle:
  assumes d: "dlist h (xs @ [p] @ a # y # ys)"
  defines "h' \<equiv> h[p := (h ! p)\<lparr>n_next := Some y\<rparr>, y := (h ! y)\<lparr>n_prev := Some p\<rparr>]"
  shows "unlink h (Some a) = Some h'" "dlist h' (xs @ [p] @ y # ys)" "relink h' (Some a) = Some h"
    "same_data h h'" "h' ! a = h ! a"
proof -
  have ne: "p \<noteq> a" "p \<noteq> y" "a \<noteq> y" "p \<notin> set xs" "y \<notin> set ys" "p \<notin> set ys" "y \<notin> set xs"
    and lt: "p < length h" "a < length h" "y < length h"
    using d by (auto simp: dlist_def)
  have nx: "n_next (h ! a) = Some y" using dlist_next [of h "xs @ [p]" a "y # ys"] d by simp
  have pv: "n_prev (h ! a) = Some p" using d by (rule dlist_prev)
  have py: "n_prev (h ! y) = Some a" using dlist_prev [of h "xs @ [p]" a y ys] d by simp
  have np: "n_next (h ! p) = Some a" using dlist_next [of h xs p "a # y # ys"] d by simp
  show a: "h' ! a = h ! a" using ne by (simp add: h'_def)
  show "unlink h (Some a) = Some h'"
    using ne lt nx pv by (simp add: unlink_def store_next_def store_prev_def h'_def)
  show "same_data h h'"
    using lt by (auto simp: same_data_def h'_def nth_list_update)
  have "relink h' (Some a) = Some (h'[p := (h' ! p)\<lparr>n_next := Some a\<rparr>, y := (h' ! y)\<lparr>n_prev := Some a\<rparr>])"
    using ne lt nx pv by (simp add: relink_def store_next_def store_prev_def h'_def)
  also have "\<dots> = Some h"
    using ne lt py np by (auto simp: h'_def nth_list_update node_restore intro!: nth_equalityI)
  finally show "relink h' (Some a) = Some h" .
  have "successively (linked h') (xs @ [p]) = successively (linked h) (xs @ [p])"
    using ne lt d by (intro successively_linked_frame)
      (auto simp: h'_def nth_list_update dlist_def dest: in_set_butlastD dest!: in_set_tl split: if_splits)
  moreover have "successively (linked h') (y # ys) = successively (linked h) (y # ys)"
    using ne lt d by (intro successively_linked_frame)
      (auto simp: h'_def nth_list_update dlist_def dest: in_set_butlastD split: if_splits)
  moreover have "linked h' p y" using ne lt by (simp add: linked_def h'_def)
  moreover have "n_next (h' ! last (y # ys)) = n_next (h ! last (y # ys))"
    using ne lt by (auto simp: h'_def nth_list_update)
  ultimately show "dlist h' (xs @ [p] @ y # ys)"
    using d by (auto simp: dlist_def successively_append_iff successively_Cons h'_def)
qed

lemma unlink_last:
  assumes d: "dlist h (xs @ [p, a])"
  defines "h' \<equiv> h[p := (h ! p)\<lparr>n_next := None\<rparr>]"
  shows "unlink h (Some a) = Some h'" "dlist h' (xs @ [p])" "relink h' (Some a) = Some h"
    "same_data h h'" "h' ! a = h ! a"
proof -
  have ne: "p \<noteq> a" "p \<notin> set xs" and lt: "p < length h" "a < length h"
    using d by (auto simp: dlist_def)
  have nx: "n_next (h ! a) = None" using dlist_next [of h "xs @ [p]" a "[]"] d by simp
  have pv: "n_prev (h ! a) = Some p" using dlist_prev [of h xs p a "[]"] d by simp
  have np: "n_next (h ! p) = Some a" using dlist_next [of h xs p "[a]"] d by simp
  show a: "h' ! a = h ! a" using ne by (simp add: h'_def)
  show "unlink h (Some a) = Some h'"
    using ne lt nx pv by (simp add: unlink_def store_next_def store_prev_def h'_def)
  show "same_data h h'"
    using lt by (auto simp: same_data_def h'_def nth_list_update)
  have "relink h' (Some a) = Some (h'[p := (h' ! p)\<lparr>n_next := Some a\<rparr>])"
    using ne lt nx pv by (simp add: relink_def store_next_def store_prev_def h'_def)
  also have "\<dots> = Some h"
    using ne lt np by (auto simp: h'_def nth_list_update node_restore intro!: nth_equalityI)
  finally show "relink h' (Some a) = Some h" .
  have "successively (linked h') (xs @ [p]) = successively (linked h) (xs @ [p])"
    using ne lt d by (intro successively_linked_frame)
      (auto simp: h'_def nth_list_update dlist_def dest: in_set_butlastD dest!: in_set_tl split: if_splits)
  then show "dlist h' (xs @ [p])"
    using d lt by (auto simp: dlist_def successively_append_iff h'_def)
qed

lemma unlink_dlist:
  assumes "dlist h (xs @ a # ys)" and "xs \<noteq> []"
  obtains h' where "unlink h (Some a) = Some h'" "dlist h' (xs @ ys)" "relink h' (Some a) = Some h"
    "same_data h h'" "h' ! a = h ! a"
proof -
  obtain xs' p where xs: "xs = xs' @ [p]" using assms(2) by (cases xs rule: rev_cases) auto
  show thesis
  proof (cases ys)
    case Nil
    then show thesis using that unlink_last [of h xs' p a] assms(1) xs by simp
  next
    case (Cons y ys')
    then show thesis using that unlink_middle [of h xs' p a y ys'] assms(1) xs by simp
  qed
qed

section \<open>Lifting a call\<close>

lemma lift_unlink:
  assumes "a < length h" "b < length h" "p < length h" and "n_next (h ! a) = Some b" and "n_prev (h ! a) = Some p"
    and "p \<noteq> a" and "b \<noteq> a" and "n_match (h ! a) = Some m"
  shows "lift h (Some a) = Option.bind (unlink h (Some a)) (\<lambda>h'. unlink h' (Some m))"
  using assms by (simp add: Let_def lift_def unlink_def store_next_def [of h] store_prev_def [of "list_update h p _"])

lemma unlift_relink:
  assumes "a < length h" and "n_match (h ! a) = Some m" and m: "relink h (Some m) = Some h1"
    and "n_next (h1 ! a) = Some b" "n_prev (h1 ! a) = Some p" "p \<noteq> a" "p < length h" "length h1 = length h"
    and a: "relink h1 (Some a) = Some h2"
  shows "unlift h (Some a) = Some h2"
proof -
  have "unlift h (Some a) = do {
     h \<leftarrow> relink h (Some m);
     e \<leftarrow> load h (Some a);
     h \<leftarrow> store_next h (n_prev e) (Some a);
     e \<leftarrow> load h (Some a);
     store_prev h (n_next e) (Some a)
   }"
    using assms(1,2) by (simp add: Let_def unlift_def relink_def cong: if_cong)
  also have "\<dots> = relink h1 (Some a)"
    using assms by (simp add: m relink_def [of h1] store_next_def [of h1])
  finally show ?thesis using a by simp
qed

text \<open>
  In a list \<open>head, pre, a, mid, m, post\<close> where \<open>m\<close> is the return of the call \<open>a\<close>, \<open>lift\<close> leaves
  \<open>head, pre, mid, post\<close>, and \<open>unlift\<close> undoes it.
\<close>

lemma lift_dlist:
  assumes d: "dlist h (r # pre @ a # mid @ m # post)" and m: "n_match (h ! a) = Some m"
  obtains h' where "lift h (Some a) = Some h'" "dlist h' (r # pre @ mid @ post)" "same_data h h'"
    "unlift h' (Some a) = Some h"
proof -
  have d1: "dlist h ((r # pre) @ a # (mid @ m # post))" using d by simp
  from unlink_dlist [OF d1] obtain h1 where h1: "unlink h (Some a) = Some h1"
    "dlist h1 ((r # pre) @ (mid @ m # post))" "relink h1 (Some a) = Some h" "same_data h h1" "h1 ! a = h ! a"
    by auto
  have d2: "dlist h1 ((r # pre @ mid) @ m # post)" using h1(2) by simp
  from unlink_dlist [OF d2] obtain h2 where h2: "unlink h1 (Some m) = Some h2"
    "dlist h2 ((r # pre @ mid) @ post)" "relink h2 (Some m) = Some h1" "same_data h1 h2"
    by auto
  have a: "a < length h" using d by (auto simp: dlist_def)
  obtain b where b: "n_next (h ! a) = Some b" and ba: "b \<in> set (mid @ [m])"
    using dlist_next [OF d1] by (cases mid) auto
  then have bl: "b < length h" using d by (auto simp: dlist_def)
  obtain xs p where xp: "r # pre = xs @ [p]" by (cases "r # pre" rule: rev_cases) auto
  have p: "n_prev (h ! a) = Some p" using d1 dlist_prev [of h xs p a "mid @ m # post"] xp by simp
  have ne: "p \<noteq> a" "b \<noteq> a" "p < length h" using d1 ba unfolding xp by (auto simp: dlist_def)
  have "lift h (Some a) = Some h2"
    using lift_unlink [OF a bl ne(3) b p ne(1,2) m] h1(1) h2(1) by simp
  moreover have "unlift h2 (Some a) = Some h"
  proof (rule unlift_relink [OF _ _ h2(3) _ _ ne(1) _ _ h1(3)])
    show "n_next (h1 ! a) = Some b" "n_prev (h1 ! a) = Some p" using h1(5) b p by simp_all
  qed (use h1(4) h2(4) a m ne in \<open>auto simp: same_data_def\<close>)
  ultimately show thesis
    using that [of h2] h2(2) same_data_trans [OF h1(4) h2(4)] by simp
qed

section \<open>Building the list\<close>

text \<open>The address of the \<open>i\<close>-th entry counts from the end; so does the entry at an address.\<close>

definition ent :: "('i, 'o) entry list \<Rightarrow> nat \<Rightarrow> ('i, 'o) entry" where
  "ent H a = H ! (length H - 1 - a)"

lemma ent_rev: "a < length H \<Longrightarrow> ent H a = rev H ! a"
  by (simp add: ent_def rev_nth)

text \<open>The address of the return among the addresses below \<open>m\<close>.\<close>

definition ret_addr :: "('i, 'o) entry list \<Rightarrow> nat \<Rightarrow> int \<Rightarrow> nat option" where
  "ret_addr H m k = find (\<lambda>a. e_kind (ent H a) = returnEntry \<and> e_id (ent H a) = k) (rev [0..<m])"

definition node_ok :: "('i, 'o) entry list \<Rightarrow> ('i, 'o) node \<Rightarrow> nat \<Rightarrow> bool" where
  "node_ok H nd a \<longleftrightarrow> n_value nd = Some (e_value (ent H a)) \<and> n_id nd = e_id (ent H a)
     \<and> n_match nd = (if e_kind (ent H a) = returnEntry then None else ret_addr H a (e_id (ent H a)))"

lemma insertBefore_front:
  assumes d: "dlist h as" and as: "as \<noteq> []" and first: "n_prev (h ! hd as) = None"
    and new: "n_next nd = None" "n_prev nd = None"
  shows "\<exists>h'. insertBefore (h @ [nd]) (Some (length h)) (Some (hd as)) = Some h' \<and> dlist h' (length h # as)
    \<and> same_data (h @ [nd]) h' \<and> n_prev (h' ! length h) = None"
proof -
  let ?r = "hd as" and ?n = "length h"
  have r: "?r \<in> set as" "?r < ?n" using d hd_in_set [OF as] by (auto simp: dlist_def)
  have n: "?n \<notin> set as" using d by (auto simp: dlist_def)
  define h' where "h' = (h @ [nd])[?r := (h ! ?r)\<lparr>n_prev := Some ?n\<rparr>, ?n := nd\<lparr>n_next := Some ?r\<rparr>]"
  have "insertBefore (h @ [nd]) (Some ?n) (Some ?r) = Some h'"
    using r first by (auto simp: insertBefore_def store_prev_def store_next_def nth_append h'_def
        list_update_append)
  have lts: "\<forall>a \<in> set as. a < length h" using d by (auto simp: dlist_def)
  have next_same: "n_next (h' ! a) = n_next (h ! a)" if "a \<in> set as" for a
    using that r lts by (cases "a = ?r") (auto simp: h'_def nth_list_update nth_append)
  have "successively (linked h') as = successively (linked h) as"
  proof (rule successively_linked_frame)
    show "\<forall>a \<in> set (butlast as). n_next (h' ! a) = n_next (h ! a)"
      by (auto dest: in_set_butlastD intro: next_same)
    have "?r \<notin> set (tl as)" using d as by (cases as) (auto simp: dlist_def)
    then have "n_prev (h' ! b) = n_prev (h ! b)" if "b \<in> set (tl as)" for b
      using that lts in_set_tl [OF that] by (cases "b = ?r") (auto simp: h'_def nth_list_update nth_append)
    then show "\<forall>b \<in> set (tl as). n_prev (h' ! b) = n_prev (h ! b)" by blast
  qed
  moreover have "linked h' ?n ?r" using r by (auto simp: linked_def h'_def nth_append)
  moreover have "n_next (h' ! last as) = n_next (h ! last as)"
    using last_in_set [OF as] by (rule next_same)
  ultimately have "dlist h' (?n # as)"
    using d as n by (auto simp: dlist_def successively_Cons h'_def)
  moreover have "same_data (h @ [nd]) h'"
    using r by (auto simp: same_data_def h'_def nth_list_update nth_append)
  moreover have "n_prev (h' ! ?n) = None" using r new by (simp add: h'_def nth_append)
  ultimately show ?thesis using \<open>insertBefore _ _ _ = _\<close> by blast
qed

definition built :: "('i, 'o) entry list \<Rightarrow> nat \<Rightarrow> ('i, 'o) heap \<Rightarrow> bool" where
  "built H m h \<longleftrightarrow> length h = m \<and> dlist h (rev [0..<m]) \<and> (0 < m \<longrightarrow> n_prev (h ! (m - 1)) = None)
     \<and> (\<forall>a < m. node_ok H (h ! a) a)"

abbreviation top_ptr :: "nat \<Rightarrow> ptr" where
  "top_ptr m \<equiv> (if m = 0 then None else Some (m - 1))"

lemma node_ok_same: "same_data h h' \<Longrightarrow> a < length h \<Longrightarrow> node_ok H (h ! a) a \<Longrightarrow> node_ok H (h' ! a) a"
  by (simp add: same_data_def node_ok_def)

lemma built_Suc:
  assumes b: "built H m h" and nd: "node_ok H nd m" "n_next nd = None" "n_prev nd = None"
  shows "\<exists>h'. insertBefore (h @ [nd]) (Some m) (top_ptr m) = Some h' \<and> built H (Suc m) h'"
proof (cases "m = 0")
  case True
  then have "h = []" using b by (simp add: built_def)
  then show ?thesis
    using True nd by (simp add: insertBefore_def built_def dlist_def)
next
  case False
  have len: "length h = m" and d: "dlist h (rev [0..<m])" using b by (simp_all add: built_def)
  have hd: "hd (rev [0..<m]) = m - 1" using False by (simp add: hd_rev last_upt)
  obtain h' where h': "insertBefore (h @ [nd]) (Some m) (Some (m - 1)) = Some h'"
    "dlist h' (m # rev [0..<m])" "same_data (h @ [nd]) h'" "n_prev (h' ! m) = None"
    using insertBefore_front [OF d, of nd] False b nd hd len by (auto simp: built_def)
  moreover have "node_ok H (h' ! a) a" if "a < Suc m" for a
    using node_ok_same [OF h'(3), of a H] that b nd(1) len
    by (cases "a = m") (auto simp: built_def nth_append)
  moreover have "length h' = Suc m" using h'(3) len by (simp add: same_data_def)
  ultimately show ?thesis using False by (auto simp: built_def)
qed

lemma ret_addr_Suc:
  "ret_addr H (Suc m) k =
     (if e_kind (ent H m) = returnEntry \<and> e_id (ent H m) = k then Some m else ret_addr H m k)"
  by (simp add: ret_addr_def)

lemma makeLinkedEntries_loop_built:
  assumes "rest = drop m (rev H)" and "m \<le> length H" and "built H m h" and "match = ret_addr H m"
  shows "\<exists>h'. makeLinkedEntries_loop rest h (top_ptr m) match = Some (h', top_ptr (length H)) \<and> built H (length H) h'"
  using assms
proof (induction rest arbitrary: m h match)
  case Nil
  then show ?case by auto
next
  case (Cons elem rest)
  have m: "m < length H" using Cons.prems(1) by (cases "m < length H") auto
  have "elem # rest = rev H ! m # drop (Suc m) (rev H)"
    using Cons.prems(1) Cons_nth_drop_Suc [of m "rev H"] m by (metis length_rev)
  then have elem: "elem = ent H m" and rest: "rest = drop (Suc m) (rev H)"
    using m by (simp_all add: ent_rev)
  have len: "length h = m" using Cons.prems(3) by (simp add: built_def)
  let ?match = "if e_kind elem = returnEntry then match(e_id elem := Some m) else match"
  let ?nd = "\<lparr>n_value = Some (e_value elem),
    n_match = (if e_kind elem = returnEntry then None else match (e_id elem)), n_id = e_id elem,
    n_next = None, n_prev = None\<rparr>"
  have "node_ok H ?nd m" using Cons.prems(4) elem by (simp add: node_ok_def)
  then obtain h' where h': "insertBefore (h @ [?nd]) (Some m) (top_ptr m) = Some h'" "built H (Suc m) h'"
    using built_Suc [OF Cons.prems(3)] by fastforce
  have match: "?match = ret_addr H (Suc m)"
    using Cons.prems(4) elem by (auto simp: ret_addr_Suc fun_eq_iff)
  have "makeLinkedEntries_loop (elem # rest) h (top_ptr m) match =
      makeLinkedEntries_loop rest h' (top_ptr (Suc m)) ?match"
    using h'(1) len by (cases "e_kind elem") (auto simp: Let_def)
  with Cons.IH [OF rest _ h'(2) match] m show ?case by auto
qed

text \<open>
  \<open>makeLinkedEntries\<close> never fails; it links all entries in their order, with the call of an operation
  pointing to its return.
\<close>

lemma makeLinkedEntries_built:
  "\<exists>h. makeLinkedEntries H = Some (h, top_ptr (length H)) \<and> built H (length H) h"
proof -
  have "built H 0 []" by (simp add: built_def dlist_def)
  moreover have "(\<lambda>_. None) = ret_addr H 0" by (simp add: ret_addr_def fun_eq_iff)
  ultimately show ?thesis
    using makeLinkedEntries_loop_built [of "rev H" 0 H "[]" "\<lambda>_. None"]
    by (simp add: makeLinkedEntries_def)
qed

lemma node_length_dlist:
  "dlist h as \<Longrightarrow> node_length h (case as of [] \<Rightarrow> None | a # _ \<Rightarrow> Some a) l = Some (l + length as)"
proof (induction as arbitrary: l)
  case Nil
  then show ?case by (simp add: node_length.simps)
next
  case (Cons a as)
  have "dlist h as" using Cons.prems by (cases as) (auto simp: dlist_def successively_Cons)
  with Cons.IH [of "l + 1"] Cons.prems dlist_next [of h "[]" a as] show ?case
    by (subst node_length.simps) (auto simp: dlist_def)
qed

end
