(* ===== verification/CheckerCorrect.thy ===== *)
theory CheckerCorrect
  imports Linearizability LinkedEntries
begin

text \<open>
  The search of \<open>checkSingle\<close> decides linearizability. The invariant of the loop relates the linked
  list to the operations not yet taken, the stack of calls to a path in the search space, and the
  cache to configurations that are either on the stack or known to lead nowhere. A weight that
  every round lowers shows that the loop ends.
\<close>

section \<open>The entries that remain\<close>

definition remaining :: "('i, 'o) entry list \<Rightarrow> int set \<Rightarrow> nat list" where
  "remaining H L = filter (\<lambda>a. e_id (ent H a) \<notin> L) (rev [0..<length H])"

abbreviation op_ids :: "('i, 'o) entry list \<Rightarrow> int set" where
  "op_ids H \<equiv> {0..<int (length H div 2)}"

abbreviation hcomp :: "('i, 'o, 's) Model \<Rightarrow> ('i, 'o) entry list \<Rightarrow> int set \<Rightarrow> 's \<Rightarrow> bool" where
  "hcomp M H \<equiv> completable (op_ids H) (hprec H) (hstep M H)"

abbreviation hpath :: "('i, 'o, 's) Model \<Rightarrow> ('i, 'o) entry list \<Rightarrow> int list \<Rightarrow> bool" where
  "hpath M H \<equiv> path (op_ids H) (hprec H) (hstep M H) {} (Init M)"

text \<open>A call that leads nowhere from a configuration.\<close>

definition dead :: "('i, 'o, 's) Model \<Rightarrow> ('i, 'o) entry list \<Rightarrow> int set \<Rightarrow> 's \<Rightarrow> nat \<Rightarrow> bool" where
  "dead M H L s a \<longleftrightarrow> e_kind (ent H a) = callEntry \<and>
     \<not> (fst (hstep M H s (e_id (ent H a))) \<and>
        hcomp M H (insert (e_id (ent H a)) L) (snd (hstep M H s (e_id (ent H a)))))"

lemma sorted_remaining: "sorted_wrt (>) (remaining H L)"
  unfolding remaining_def by (intro sorted_wrt_filter) (simp add: sorted_wrt_rev)

lemma in_remaining: "a \<in> set (remaining H L) \<longleftrightarrow> a < length H \<and> e_id (ent H a) \<notin> L"
  by (auto simp: remaining_def)

lemma remaining_insert: "remaining H (insert k L) = filter (\<lambda>a. e_id (ent H a) \<noteq> k) (remaining H L)"
  by (simp add: remaining_def) (metis (mono_tags))

lemma ent_unique:
  assumes "wf_history n H" and "a < length H" "b < length H" and "e_kind (ent H a) = e_kind (ent H b)"
    "e_id (ent H a) = e_id (ent H b)"
  shows "a = b"
proof -
  have "length H - 1 - a = length H - 1 - b"
    using wf_history_unique [OF assms(1), of "length H - 1 - a" "length H - 1 - b"] assms(2-5)
    unfolding ent_def by linarith
  with assms(2,3) show ?thesis by linarith
qed

lemma ent_id: "wf_history n H \<Longrightarrow> a < length H \<Longrightarrow> e_id (ent H a) \<in> {0..<int n}"
  unfolding ent_def by (rule wf_history_id) auto

lemma ent_place:
  assumes "wf_history n H" and "k \<in> {0..<int n}"
  obtains a where "a < length H" "e_kind (ent H a) = kd" "e_id (ent H a) = k"
proof -
  obtain i where i: "i < length H" "e_kind (H ! i) = kd" "e_id (H ! i) = k"
    using wf_history_place [OF assms] .
  then have "ent H (length H - 1 - i) = H ! i" by (simp add: ent_def)
  with i show thesis by (intro that [of "length H - 1 - i"]) auto
qed

lemma ent_hprec:
  assumes "b < a" and "a < length H" and "e_kind (ent H a) = returnEntry" and "e_kind (ent H b) = callEntry"
  shows "hprec H (e_id (ent H a)) (e_id (ent H b))"
  using assms unfolding hprec_def ent_def
  by (intro exI [of _ "length H - 1 - b"] conjI exI [of _ "length H - 1 - a"]) auto

lemma hprec_ent:
  assumes "hprec H j k"
  obtains a b where "b < a" "a < length H" "e_kind (ent H a) = returnEntry" "e_id (ent H a) = j"
    "e_kind (ent H b) = callEntry" "e_id (ent H b) = k"
proof -
  from assms obtain i j' where i: "j' < length H" "i < j'" "e_kind (H ! i) = returnEntry" "e_id (H ! i) = j"
    "e_kind (H ! j') = callEntry" "e_id (H ! j') = k" by (auto simp: hprec_def)
  then have "ent H (length H - 1 - i) = H ! i" "ent H (length H - 1 - j') = H ! j'"
    by (auto simp: ent_def)
  with i show thesis by (intro that [of "length H - 1 - j'" "length H - 1 - i"]) auto
qed

text \<open>At a return, with only dead calls before it, the configuration cannot be completed.\<close>

lemma blocked:
  assumes wf: "wf_history n H" and split: "remaining H L = pre @ a # post"
    and pre: "\<forall>b \<in> set pre. dead M H L s b" and ret: "e_kind (ent H a) = returnEntry"
  shows "\<not> hcomp M H L s"
proof
  assume comp: "hcomp M H L s"
  have len: "length H div 2 = n" using length_wf_history [OF wf] by simp
  have a: "a < length H" "e_id (ent H a) \<notin> L" using split in_remaining [of a H L] by auto
  then have "e_id (ent H a) \<in> op_ids H" using ent_id [OF wf] len by simp
  with a comp obtain k where k: "k \<in> op_ids H" "k \<notin> L" "\<forall>j \<in> op_ids H. hprec H j k \<longrightarrow> j \<in> L"
    "fst (hstep M H s k)" "hcomp M H (insert k L) (snd (hstep M H s k))"
    by (auto elim: completable_step)
  obtain b where b: "b < length H" "e_kind (ent H b) = callEntry" "e_id (ent H b) = k"
    using ent_place [OF wf] k(1) len by auto
  then have "b \<in> set (pre @ a # post)" using k(2) in_remaining [of b H L] split by auto
  moreover have "b \<notin> set pre" using pre k b by (auto simp: dead_def)
  moreover have "b \<noteq> a" using b ret by auto
  ultimately have "b \<in> set post" by auto
  then have "b < a" using sorted_remaining [of H L] split by (auto simp: sorted_wrt_append)
  then have "hprec H (e_id (ent H a)) k" using ent_hprec [OF _ a(1) ret] b by auto
  with k(3) a(2) \<open>e_id (ent H a) \<in> op_ids H\<close> show False by blast
qed

text \<open>A call whose predecessors are all calls may be taken.\<close>

lemma available:
  assumes wf: "wf_history n H" and split: "remaining H L = pre @ a # post"
    and pre: "\<forall>b \<in> set pre. e_kind (ent H b) = callEntry" and call: "e_kind (ent H a) = callEntry"
  shows "\<forall>j \<in> op_ids H. hprec H j (e_id (ent H a)) \<longrightarrow> j \<in> L"
proof (intro ballI impI, rule ccontr)
  fix j assume "hprec H j (e_id (ent H a))" and j: "j \<notin> L"
  then obtain r c where rc: "c < r" "r < length H" "e_kind (ent H r) = returnEntry" "e_id (ent H r) = j"
    "e_kind (ent H c) = callEntry" "e_id (ent H c) = e_id (ent H a)" by (elim hprec_ent)
  have "a < length H" using split in_remaining [of a H L] by auto
  then have "c = a" using ent_unique [OF wf, of c a] rc call by auto
  have "r \<in> set (remaining H L)" using rc j by (simp add: in_remaining)
  moreover have "r \<notin> set post" using sorted_remaining [of H L] split rc(1) \<open>c = a\<close>
    by (auto simp: sorted_wrt_append)
  ultimately have "r \<in> set pre" using split rc(1) \<open>c = a\<close> by auto
  with pre rc(3) show False by auto
qed

text \<open>The return of a remaining call comes later in the list; taking both out.\<close>

lemma matching_return:
  assumes wf: "wf_history n H" and split: "remaining H L = pre @ a # post" and call: "e_kind (ent H a) = callEntry"
  obtains m mid post' where "ret_addr H a (e_id (ent H a)) = Some m" "post = mid @ m # post'"
    "m < length H" "e_kind (ent H m) = returnEntry" "e_id (ent H m) = e_id (ent H a)"
    "remaining H (insert (e_id (ent H a)) L) = pre @ mid @ post'"
proof -
  let ?k = "e_id (ent H a)"
  have a: "a < length H" "?k \<notin> L" using split in_remaining [of a H L] by auto
  obtain m where m: "m < length H" "e_kind (ent H m) = returnEntry" "e_id (ent H m) = ?k"
    using ent_place [OF wf ent_id [OF wf a(1)]] .
  have "length H - 1 - a < length H - 1 - m"
    using wf_history_call_before [OF wf, of "length H - 1 - a" "length H - 1 - m"] a m call
    by (auto simp: ent_def)
  then have ma: "m < a" by linarith
  have "m \<in> set (remaining H L)" using m a(2) by (simp add: in_remaining)
  moreover have "m \<notin> set pre" using sorted_remaining [of H L] split ma by (auto simp: sorted_wrt_append)
  ultimately have "m \<in> set post" using split ma by auto
  then obtain mid post' where post: "post = mid @ m # post'" by (auto simp: in_set_conv_decomp)
  have "find (\<lambda>x. e_kind (ent H x) = returnEntry \<and> e_id (ent H x) = ?k) (rev [0..<a]) = Some m"
  proof (subst find_Some_iff, intro exI [of _ "a - 1 - m"] conjI allI impI)
    fix j assume "j < a - 1 - m"
    then have "rev [0..<a] ! j = a - 1 - j" "a - 1 - j \<noteq> m" "a - 1 - j < length H"
      using a(1) by (auto simp: rev_nth)
    then show "\<not> (e_kind (ent H (rev [0..<a] ! j)) = returnEntry \<and> e_id (ent H (rev [0..<a] ! j)) = ?k)"
      using ent_unique [OF wf, of "a - 1 - j" m] m by auto
  qed (use ma m in \<open>auto simp: rev_nth\<close>)
  then have "ret_addr H a ?k = Some m" by (simp add: ret_addr_def)
  moreover have "remaining H (insert ?k L) = pre @ mid @ post'"
  proof -
    have d: "distinct (pre @ a # mid @ m # post')"
      using sorted_remaining [of H L] split post by (metis (mono_tags, lifting) remaining_def distinct_filter distinct_rev distinct_upt)
    have "e_id (ent H b) \<noteq> ?k" if "b \<in> set (pre @ a # mid @ m # post')" "b \<noteq> a" "b \<noteq> m" for b
    proof
      assume eq: "e_id (ent H b) = ?k"
      have "b < length H" using that(1) split post in_remaining [of b H L] by auto
      with eq that(2,3) show False
        using ent_unique [OF wf, of b a] ent_unique [OF wf, of b m] a(1) m call by (cases "e_kind (ent H b)") auto
    qed
    then have "filter (\<lambda>b. e_id (ent H b) \<noteq> ?k) xs = xs" if "set xs \<subseteq> set (pre @ mid @ post')" for xs
      using d that by (intro filter_True) auto
    then have "filter (\<lambda>b. e_id (ent H b) \<noteq> ?k) (pre @ a # mid @ m # post') = pre @ mid @ post'"
      using m(3) by (simp add: Un_assoc subset_iff)
    then show ?thesis using split post by (simp add: remaining_insert)
  qed
  ultimately show thesis using that post m by blast
qed

section \<open>The stack\<close>

text \<open>
  \<open>stack M H h0 calls L s h S ids w\<close>: the calls on the stack lead from the initial configuration
  over the heap \<open>h0\<close> to the configuration \<open>(L, s)\<close> over the heap \<open>h\<close>, taking the operations \<open>ids\<close>
  and passing through the configurations \<open>S\<close>; \<open>w\<close> weighs the entries still to be tried at the
  levels below the top.
\<close>

definition base :: "('i, 'o) entry list \<Rightarrow> nat" where
  "base H = length H + 2"

inductive stack for M :: "('i, 'o, 's) Model" and H h0 where
  empty: "stack M H h0 [] {} (Init M) h0 {} [] 0"
| push: "stack M H h0 cs L s h S ids w \<Longrightarrow> remaining H L = pre @ a # post \<Longrightarrow>
    \<forall>b \<in> set pre. dead M H L s b \<Longrightarrow> e_kind (ent H a) = callEntry \<Longrightarrow>
    k = e_id (ent H a) \<Longrightarrow> hstep M H s k = (True, s') \<Longrightarrow> lift h (Some a) = Some h' \<Longrightarrow>
    stack M H h0 (cs @ [(Some a, s)]) (insert k L) s' h' (insert (insert k L, s') S) (ids @ [k])
      (w + length post * base H ^ (length H - length ids))"

inductive_cases stack_emptyE: "stack M H h0 [] L s h S ids w"
inductive_cases stack_snocE: "stack M H h0 (cs @ [v]) L s h S ids w"

text \<open>A heap with the entries of \<open>H\<close> and the head node behind them, linked as the list \<open>as\<close>.\<close>

definition heap_ok :: "('i, 'o) entry list \<Rightarrow> ('i, 'o) heap \<Rightarrow> nat list \<Rightarrow> bool" where
  "heap_ok H h as \<longleftrightarrow> length h = length H + 1 \<and> (\<forall>a < length H. node_ok H (h ! a) a)
     \<and> dlist h (length H # as)"

lemma heap_ok_lift:
  assumes wf: "wf_history n H" and h: "heap_ok H h (remaining H L)"
    and split: "remaining H L = pre @ a # post" and call: "e_kind (ent H a) = callEntry"
  obtains h' where "lift h (Some a) = Some h'" "heap_ok H h' (remaining H (insert (e_id (ent H a)) L))"
    "unlift h' (Some a) = Some h"
proof -
  obtain m mid post' where m: "ret_addr H a (e_id (ent H a)) = Some m" "post = mid @ m # post'"
      "remaining H (insert (e_id (ent H a)) L) = pre @ mid @ post'"
    using matching_return [OF wf split call] .
  have "a < length H" using split in_remaining [of a H L] by auto
  then have "n_match (h ! a) = Some m"
    using h call m(1) by (auto simp: heap_ok_def node_ok_def)
  moreover have d: "dlist h (length H # pre @ a # mid @ m # post')"
    using h split m(2) by (simp add: heap_ok_def)
  ultimately obtain h' where h': "lift h (Some a) = Some h'" "dlist h' (length H # pre @ mid @ post')"
    "same_data h h'" "unlift h' (Some a) = Some h" by (elim lift_dlist)
  have "heap_ok H h' (remaining H (insert (e_id (ent H a)) L))"
    using h h'(2,3) m(3) node_ok_same [OF h'(3)] by (auto simp: heap_ok_def same_data_def)
  with h'(1,4) show thesis by (intro that)
qed

lemma stack_heap:
  assumes wf: "wf_history n H" and h0: "heap_ok H h0 (remaining H {})" and "stack M H h0 cs L s h S ids w"
  shows "heap_ok H h (remaining H L)"
  using assms(3)
proof induction
  case empty
  show ?case by (rule h0)
next
  case (push cs L s h S ids w pre a post k s' h')
  from heap_ok_lift [OF wf push.IH push.hyps(2,4)] push.hyps(5,7) show ?case by force
qed

lemma stack_path:
  assumes wf: "wf_history n H" and "stack M H h0 cs L s h S ids w"
  shows "hpath M H ids \<and> after (hstep M H) (Init M) ids = s \<and> set ids = L \<and> length cs = length ids
    \<and> (\<forall>(K, t) \<in> S. K \<subseteq> L) \<and> list_all2 (\<lambda>v k. \<exists>a < length H. fst v = Some a \<and> e_id (ent H a) = k) cs ids"
  using assms(2)
proof induction
  case (push cs L s h S ids w pre a post k s' h')
  have a: "a < length H" "k \<notin> L" using push in_remaining [of a H L] by auto
  have "length H div 2 = n" using length_wf_history [OF wf] by simp
  then have k: "k \<in> op_ids H" using ent_id [OF wf a(1)] push by simp
  have "\<forall>j \<in> op_ids H. hprec H j k \<longrightarrow> j \<in> L"
    using available [OF wf, of L pre a post] push by (auto simp: dead_def)
  then have "hpath M H (ids @ [k])" and "after (hstep M H) (Init M) (ids @ [k]) = s'"
    using push a k by (auto simp: path_append after_append)
  with push a show ?case by (auto simp: list_all2_append)
qed simp

lemma call_ids_stack:
  assumes "list_all2 (\<lambda>v k. \<exists>a < length H. fst v = Some a \<and> e_id (ent H a) = k) cs ids" and "heap_ok H h as"
  shows "call_ids h cs = Some ids"
  using assms(1) unfolding call_ids_def
proof induction
  case (Cons v cs k ids)
  then show ?case using assms(2) by (auto simp: heap_ok_def node_ok_def)
qed simp

section \<open>The invariant of the loop\<close>

abbreviation op_set :: "('i, 'o) entry list \<Rightarrow> bitset \<Rightarrow> int set" where
  "op_set H b \<equiv> int ` bits.elems (length H div 2) b"

definition cache_ok ::
  "('i, 'o, 's) Model \<Rightarrow> ('i, 'o) entry list \<Rightarrow> (int set \<times> 's) set \<Rightarrow> (64 word \<Rightarrow> 's cacheEntry list) \<Rightarrow> bool" where
  "cache_ok M H S cache \<longleftrightarrow> (\<forall>hash. \<forall>(b, t) \<in> set (cache hash). bitset_valid (length H div 2) b
     \<and> (\<not> hcomp M H (op_set H b) t \<or> (op_set H b, t) \<in> S))"

definition longest_ok :: "('i, 'o, 's) Model \<Rightarrow> ('i, 'o) entry list \<Rightarrow> seq_ptr list \<Rightarrow> bool" where
  "longest_ok M H longest \<longleftrightarrow> length longest = length H div 2
     \<and> (\<forall>r seq. Some (r, seq) \<in> set longest \<longrightarrow> hpath M H seq)"

definition search_inv :: "('i, 'o, 's) Model \<Rightarrow> ('i, 'o) entry list \<Rightarrow> ('i, 'o) heap \<Rightarrow> ('i, 'o, 's) search \<Rightarrow> nat \<Rightarrow> bool" where
  "search_inv M H h0 cs weight \<longleftrightarrow> (\<exists>L S ids w pre rest.
     stack M H h0 (s_calls cs) L (s_state cs) (s_heap cs) S ids w
     \<and> bitset_valid (length H div 2) (s_linearized cs) \<and> op_set H (s_linearized cs) = L
     \<and> cache_ok M H S (s_cache cs) \<and> longest_ok M H (s_longest cs)
     \<and> remaining H L = pre @ rest \<and> (\<forall>b \<in> set pre. dead M H L (s_state cs) b)
     \<and> s_entry cs = (case rest of [] \<Rightarrow> None | a # _ \<Rightarrow> Some a) \<and> (rest = [] \<longrightarrow> pre = [])
     \<and> weight = w + length rest * base H ^ (length H - length ids))"

text \<open>What the checker needs of \<open>model.Equal\<close>: it is there, and states it relates behave alike.\<close>

definition equal_ok :: "('i, 'o, 's) Model \<Rightarrow> bool" where
  "equal_ok M \<longleftrightarrow> (\<exists>eq. Equal M = Some eq \<and> (\<forall>s t i out. eq s t \<longrightarrow>
     fst (Step M s i out) \<longrightarrow> fst (Step M t i out) \<and> eq (snd (Step M s i out)) (snd (Step M t i out))))"

lemma hstep_equal:
  assumes "Equal M = Some eq" and "\<forall>s t i out. eq s t \<longrightarrow> fst (Step M s i out) \<longrightarrow>
     fst (Step M t i out) \<and> eq (snd (Step M s i out)) (snd (Step M t i out))" and "eq s t"
    and "fst (hstep M H s k)"
  shows "fst (hstep M H t k) \<and> eq (snd (hstep M H s k)) (snd (hstep M H t k))"
  using assms(2-4) by (auto simp: hstep_def split: option.splits interface.splits)

lemma cacheContains_loop_iff:
  assumes "Equal M = Some eq"
  shows "cacheContains_loop M es e =
    Some (\<exists>(b, t) \<in> set es. bitset_equals (fst e) b \<and> eq (snd e) t)"
  using assms by (induction es) (auto simp: model_Equal_def)

text \<open>A configuration that the cache knows, and that is larger than what is on the stack, is hopeless.\<close>

lemma cache_hit_dead:
  assumes ok: "equal_ok M" and cache: "cache_ok M H S cache" and S: "\<forall>(K, t) \<in> S. K \<subseteq> L"
    and b: "bitset_valid (length H div 2) b" and new: "\<not> op_set H b \<subseteq> L"
    and hit: "cacheContains M cache (b, t) = Some True"
  shows "\<not> hcomp M H (op_set H b) t"
proof -
  obtain eq where eq: "Equal M = Some eq" and sim: "\<forall>s t i out. eq s t \<longrightarrow>
     fst (Step M s i out) \<longrightarrow> fst (Step M t i out) \<and> eq (snd (Step M s i out)) (snd (Step M t i out))"
    using ok by (auto simp: equal_ok_def)
  from hit obtain b' t' where bt: "(b', t') \<in> set (cache (bitset_hash b))" "bitset_equals b b'" "eq t t'"
    by (auto simp: cacheContains_def cacheContains_loop_iff [OF eq])
  then have "b' = b" by (simp add: bitset_equals_eq)
  have "(op_set H b, t') \<notin> S" using S new by blast
  then have "\<not> hcomp M H (op_set H b) t'"
    using cache bt(1) \<open>b' = b\<close> by (fastforce simp: cache_ok_def)
  then show ?thesis
    using completable_simulation [where eq = eq and stp = "hstep M H", OF hstep_equal [OF eq sim]] bt(3) by blast
qed

lemma op_set_insert:
  assumes "bitset_valid (length H div 2) b" and "k \<in> op_ids H"
  shows "\<exists>b'. bitset_set b (nat k) = Some b' \<and> bitset_valid (length H div 2) b'
    \<and> op_set H b' = insert k (op_set H b)"
proof -
  have "nat k < length H div 2" using assms(2) by (simp add: nat_less_iff)
  from bits.elems_put [OF assms(1) this] assms(2) show ?thesis by auto
qed

lemma op_set_remove:
  assumes "bitset_valid (length H div 2) b" and "k \<in> op_ids H"
  shows "\<exists>b'. bitset_clear b (nat k) = Some b' \<and> bitset_valid (length H div 2) b'
    \<and> op_set H b' = op_set H b - {k}"
proof -
  have "nat k < length H div 2" using assms(2) by (simp add: nat_less_iff)
  from bits.elems_del [OF assms(1) this] obtain b' where
    "bitset_clear b (nat k) = Some b'" "bitset_valid (length H div 2) b'"
    "bits.elems (length H div 2) b' = bits.elems (length H div 2) b - {nat k}" by auto
  then show ?thesis using assms(2) by (auto simp: image_set_diff)
qed

text \<open>The weight of a level is less than one entry of the level below it.\<close>

lemma weight_push:
  assumes "length H - length ids = Suc d" and "l \<le> length H"
  shows "w + p * base H ^ (length H - length ids) + l * base H ^ d
    < w + Suc p * base H ^ (length H - length ids)"
proof -
  have "l * base H ^ d < base H * base H ^ d"
    using assms(2) by (intro mult_strict_right_mono) (simp_all add: base_def)
  then show ?thesis using assms(1) by simp
qed

lemma inv_round [simp]: "search_inv M H h0 (cs\<lparr>s_round := r\<rparr>) = search_inv M H h0 cs"
  by (simp add: search_inv_def fun_eq_iff)

text \<open>The parts of the invariant at a node.\<close>

lemma inv_at_node:
  assumes "search_inv M H h0 cs weight" and "s_entry cs = Some a"
  obtains L S ids w pre post where "stack M H h0 (s_calls cs) L (s_state cs) (s_heap cs) S ids w"
    "bitset_valid (length H div 2) (s_linearized cs)" "op_set H (s_linearized cs) = L"
    "cache_ok M H S (s_cache cs)" "longest_ok M H (s_longest cs)" "remaining H L = pre @ a # post"
    "\<forall>b \<in> set pre. dead M H L (s_state cs) b"
    "weight = w + Suc (length post) * base H ^ (length H - length ids)"
proof -
  from assms(1) obtain L S ids w pre rest where *: "stack M H h0 (s_calls cs) L (s_state cs) (s_heap cs) S ids w"
    "bitset_valid (length H div 2) (s_linearized cs)" "op_set H (s_linearized cs) = L"
    "cache_ok M H S (s_cache cs)" "longest_ok M H (s_longest cs)" "remaining H L = pre @ rest"
    "\<forall>b \<in> set pre. dead M H L (s_state cs) b" "s_entry cs = (case rest of [] \<Rightarrow> None | a # _ \<Rightarrow> Some a)"
    "weight = w + length rest * base H ^ (length H - length ids)"
    unfolding search_inv_def by blast
  then obtain post where "rest = a # post" using assms(2) by (cases rest) auto
  with * show thesis by (intro that) auto
qed

lemma inv_intro:
  assumes "stack M H h0 (s_calls cs) L (s_state cs) (s_heap cs) S ids w"
    "bitset_valid (length H div 2) (s_linearized cs)" "op_set H (s_linearized cs) = L"
    "cache_ok M H S (s_cache cs)" "longest_ok M H (s_longest cs)" "remaining H L = pre @ rest"
    "\<forall>b \<in> set pre. dead M H L (s_state cs) b" "s_entry cs = (case rest of [] \<Rightarrow> None | a # _ \<Rightarrow> Some a)"
    "rest = [] \<longrightarrow> pre = []"
  shows "search_inv M H h0 cs (w + length rest * base H ^ (length H - length ids))"
  unfolding search_inv_def using assms by blast

lemma ent_step:
  assumes "wf_history n H" and "a < length H" "m < length H" and "e_kind (ent H a) = callEntry"
    "e_kind (ent H m) = returnEntry" "e_id (ent H a) = k" "e_id (ent H m) = k"
  shows "model_Step M s (Some (e_value (ent H a))) (Some (e_value (ent H m))) = Some (hstep M H s k)"
proof -
  have "length H - 1 - a < length H" "length H - 1 - m < length H" using assms(2,3) by linarith+
  from hstep_nth [OF assms(1) this, of k M s] assms(4-7) show ?thesis
    by (auto simp: ent_def model_Step_def)
qed

section \<open>A round of the loop\<close>

text \<open>Going on to the next entry when the call at hand is dead.\<close>

lemma inv_advance:
  assumes wf: "wf_history n H" and h0: "heap_ok H h0 (remaining H {})"
    and st: "stack M H h0 (s_calls cs) L (s_state cs) (s_heap cs) S ids w"
    and ok: "bitset_valid (length H div 2) (s_linearized cs)" "op_set H (s_linearized cs) = L"
      "cache_ok M H S (s_cache cs)" "longest_ok M H (s_longest cs)"
    and split: "remaining H L = pre @ a # post" and pre: "\<forall>b \<in> set pre. dead M H L (s_state cs) b"
    and dead: "dead M H L (s_state cs) a"
  shows "search_inv M H h0 (cs\<lparr>s_entry := n_next (s_heap cs ! a)\<rparr>) (w + length post * base H ^ (length H - length ids))"
proof (rule inv_intro)
  have "heap_ok H (s_heap cs) (remaining H L)" using stack_heap [OF wf h0 st] .
  then have "dlist (s_heap cs) ((length H # pre) @ a # post)" using split by (simp add: heap_ok_def)
  from dlist_next [OF this] show "s_entry (cs\<lparr>s_entry := n_next (s_heap cs ! a)\<rparr>) = (case post of [] \<Rightarrow> None | a # _ \<Rightarrow> Some a)"
    by simp
  have "post \<noteq> []" using dead by (auto simp: dead_def elim!: matching_return [OF wf split])
  then show "post = [] \<longrightarrow> pre @ [a] = []" by simp
qed (use st ok split pre dead in auto)

lemma length_stack:
  assumes wf: "wf_history n H" and st: "stack M H h0 cs L s h S ids w" and k: "k \<in> op_ids H" "k \<notin> L"
  shows "length ids < length H"
proof -
  have "hpath M H ids" "set ids = L" using stack_path [OF wf st] by auto
  then have "distinct (k # ids)" "set (k # ids) \<subseteq> op_ids H" using path_distinct k by fastforce+
  then have "Suc (length ids) \<le> card (op_ids H)"
    by (metis card_mono distinct_card finite_atLeastLessThan_int length_Cons)
  then show ?thesis by simp
qed

lemma round_call:
  assumes wf: "wf_history n H" and eq: "equal_ok M" and h0: "heap_ok H h0 (remaining H {})"
    and inv: "search_inv M H h0 cs weight" and entry: "s_entry cs = Some a"
    and call: "e_kind (ent H a) = callEntry"
  shows "\<exists>cs' weight'. checkSingle_call M (Some (length H)) (s_heap cs ! a) cs = Some cs'
    \<and> search_inv M H h0 cs' weight' \<and> weight' < weight"
proof -
  let ?k = "e_id (ent H a)" and ?s = "s_state cs"
  obtain L S ids w pre post where *: "stack M H h0 (s_calls cs) L ?s (s_heap cs) S ids w"
    "bitset_valid (length H div 2) (s_linearized cs)" "op_set H (s_linearized cs) = L"
    "cache_ok M H S (s_cache cs)" "longest_ok M H (s_longest cs)" "remaining H L = pre @ a # post"
    "\<forall>b \<in> set pre. dead M H L ?s b"
    "weight = w + Suc (length post) * base H ^ (length H - length ids)"
    using inv_at_node [OF inv entry] .
  note advance = inv_advance [OF wf h0 *(1-7)]
  have heap: "heap_ok H (s_heap cs) (remaining H L)" using stack_heap [OF wf h0 *(1)] .
  have a: "a < length H" "?k \<notin> L" using *(6) in_remaining [of a H L] by auto
  have k: "?k \<in> op_ids H" using ent_id [OF wf a(1)] length_wf_history [OF wf] by simp
  obtain m mid post' where m: "ret_addr H a ?k = Some m" "post = mid @ m # post'" "m < length H"
    "e_kind (ent H m) = returnEntry" "e_id (ent H m) = ?k"
    using matching_return [OF wf *(6) call] .
  have nodes: "n_match (s_heap cs ! a) = Some m" "n_value (s_heap cs ! a) = Some (e_value (ent H a))"
    "n_id (s_heap cs ! a) = ?k" "n_value (s_heap cs ! m) = Some (e_value (ent H m))"
    "m < length (s_heap cs)"
    using heap a(1) m(1,3) call by (auto simp: heap_ok_def node_ok_def)
  have step: "model_Step M ?s (n_value (s_heap cs ! a)) (n_value (s_heap cs ! m)) = Some (hstep M H ?s ?k)"
    using ent_step [OF wf a(1) m(3) call m(4) refl m(5)] nodes by simp
  have less: "w + length post * base H ^ (length H - length ids) < weight"
    using *(8) by (simp add: base_def)
  have uint: "uint_id ?k = Some (nat ?k)" using k by (simp add: uint_id_def)
  obtain b where b: "bitset_set (s_linearized cs) (nat ?k) = Some b" "bitset_valid (length H div 2) b"
    "op_set H b = insert ?k L"
    using op_set_insert [OF *(2) k] *(3) by auto
  obtain seen where seen: "cacheContains M (s_cache cs) (b, snd (hstep M H ?s ?k)) = Some seen"
    using eq cacheContains_loop_iff by (fastforce simp: equal_ok_def cacheContains_def)
  consider (no) "\<not> fst (hstep M H ?s ?k)" | (hit) "fst (hstep M H ?s ?k)" "seen"
    | (new) "fst (hstep M H ?s ?k)" "\<not> seen" by blast
  then show ?thesis
  proof cases
    case no
    then have "dead M H L ?s a" using call by (simp add: dead_def)
    moreover have "checkSingle_call M (Some (length H)) (s_heap cs ! a) cs = Some (cs\<lparr>s_entry := n_next (s_heap cs ! a)\<rparr>)"
      using no step nodes by (simp add: checkSingle_call_def case_prod_beta)
    ultimately show ?thesis using advance less by blast
  next
    case hit
    have "\<forall>(K, t) \<in> S. K \<subseteq> L" using stack_path [OF wf *(1)] by blast
    from cache_hit_dead [OF eq *(4) this b(2), of "snd (hstep M H ?s ?k)"] hit seen b(3) a(2)
    have "dead M H L ?s a" using call by (auto simp: dead_def)
    moreover have "checkSingle_call M (Some (length H)) (s_heap cs ! a) cs = Some (cs\<lparr>s_entry := n_next (s_heap cs ! a)\<rparr>)"
      using hit step nodes uint b(1) seen by (simp add: checkSingle_call_def case_prod_beta)
    ultimately show ?thesis using advance less by blast
  next
    case new
    let ?s' = "snd (hstep M H ?s ?k)"
    obtain h' where h': "lift (s_heap cs) (Some a) = Some h'" "heap_ok H h' (remaining H (insert ?k L))"
      using heap_ok_lift [OF wf heap *(6) call] .
    let ?rest = "remaining H (insert ?k L)"
    let ?cs = "cs\<lparr>s_cache := (s_cache cs)(bitset_hash b := s_cache cs (bitset_hash b) @ [(b, ?s')]),
      s_calls := s_calls cs @ [(Some a, ?s)], s_state := ?s', s_linearized := b, s_heap := h',
      s_entry := n_next (h' ! length H)\<rparr>"
    have "checkSingle_call M (Some (length H)) (s_heap cs ! a) cs = Some ?cs"
      using new step nodes uint b(1) seen h' entry
      by (simp add: checkSingle_call_def case_prod_beta heap_ok_def Let_def)
    moreover have "search_inv M H h0 ?cs (w + length post * base H ^ (length H - length ids)
        + length ?rest * base H ^ (length H - length (ids @ [?k])))"
    proof (rule inv_intro)
      show "stack M H h0 (s_calls ?cs) (insert ?k L) (s_state ?cs) (s_heap ?cs) (insert (insert ?k L, ?s') S)
          (ids @ [?k]) (w + length post * base H ^ (length H - length ids))"
        using stack.push [OF *(1,6,7) call refl, of ?s' h'] new h'(1) by (simp add: prod_eq_iff)
      show "cache_ok M H (insert (insert ?k L, ?s') S) (s_cache ?cs)"
        using *(4) b(2,3) by (fastforce simp: cache_ok_def)
      show "s_entry ?cs = (case ?rest of [] \<Rightarrow> None | a # _ \<Rightarrow> Some a)"
        using h'(2) dlist_next [of h' "[]" "length H" ?rest] by (simp add: heap_ok_def)
    qed (use b *(5) in auto)
    moreover have "w + length post * base H ^ (length H - length ids)
        + length ?rest * base H ^ (length H - length (ids @ [?k])) < weight"
    proof -
      have "length H - length ids = Suc (length H - length (ids @ [?k]))"
        using length_stack [OF wf *(1) k a(2)] by simp
      moreover have "length ?rest \<le> length H" by (simp add: remaining_def le_trans [OF length_filter_le])
      ultimately show ?thesis unfolding *(8) by (rule weight_push)
    qed
    ultimately show ?thesis by blast
  qed
qed

lemma longest_loop_ok:
  assumes "longest_ok M H longest" and "hpath M H (snd seq)" and "set ks \<subseteq> op_ids H"
  shows "\<exists>longest'. longest_loop len seq ks longest = Some longest' \<and> longest_ok M H longest'"
  using assms(1,3)
proof (induction ks arbitrary: longest)
  case (Cons k ks)
  let ?b = "case longest ! nat k of None \<Rightarrow> True | Some s \<Rightarrow> len > length (snd s)"
  let ?longest = "if ?b then longest[nat k := Some seq] else longest"
  have k: "0 \<le> k" "k < int (length longest)" using Cons.prems by (auto simp: longest_ok_def)
  have "longest_ok M H ?longest"
    using Cons.prems(1) assms(2) by (auto simp: longest_ok_def dest!: set_update_subset_insert [THEN subsetD])
  with Cons.IH Cons.prems obtain longest' where
    "longest_loop len seq ks ?longest = Some longest'" "longest_ok M H longest'" by auto
  moreover have "longest_loop len seq (k # ks) longest = longest_loop len seq ks ?longest"
    using k by (simp add: idx_def idx_upd_def)
  ultimately show ?case by simp
qed simp

lemma round_return:
  assumes wf: "wf_history n H" and h0: "heap_ok H h0 (remaining H {})"
    and inv: "search_inv M H h0 cs weight" and entry: "s_entry cs = Some a" and ret: "e_kind (ent H a) = returnEntry"
  shows "s_calls cs = [] \<and> \<not> hcomp M H {} (Init M) \<or>
    (\<exists>cs' weight'. checkSingle_return computePartial cs = Some (Some cs') \<and> s_calls cs \<noteq> []
      \<and> search_inv M H h0 cs' weight' \<and> weight' < weight)"
proof -
  obtain L S ids w pre post where *: "stack M H h0 (s_calls cs) L (s_state cs) (s_heap cs) S ids w"
    "bitset_valid (length H div 2) (s_linearized cs)" "op_set H (s_linearized cs) = L"
    "cache_ok M H S (s_cache cs)" "longest_ok M H (s_longest cs)" "remaining H L = pre @ a # post"
    "\<forall>b \<in> set pre. dead M H L (s_state cs) b"
    "weight = w + Suc (length post) * base H ^ (length H - length ids)"
    using inv_at_node [OF inv entry] .
  have hopeless: "\<not> hcomp M H L (s_state cs)" using blocked [OF wf *(6,7) ret] .
  show ?thesis
  proof (cases "s_calls cs" rule: rev_cases)
    case Nil
    with *(1) hopeless show ?thesis by (auto elim: stack_emptyE)
  next
    case (snoc calls v)
    from *(1) [unfolded snoc] obtain L1 s1 h1 S1 ids1 w1 pre1 a1 post1 k where
      st: "stack M H h0 calls L1 s1 h1 S1 ids1 w1" and v: "v = (Some a1, s1)"
      and sp: "remaining H L1 = pre1 @ a1 # post1" and pre1: "\<forall>b \<in> set pre1. dead M H L1 s1 b"
      and call: "e_kind (ent H a1) = callEntry" and k: "k = e_id (ent H a1)"
      and step: "hstep M H s1 k = (True, s_state cs)" and lift: "lift h1 (Some a1) = Some (s_heap cs)"
      and L: "L = insert k L1" and S: "S = insert (insert k L1, s_state cs) S1" and ids: "ids = ids1 @ [k]"
      and w: "w = w1 + length post1 * base H ^ (length H - length ids1)"
      by (auto elim!: stack_snocE)
    have heap: "heap_ok H (s_heap cs) (remaining H L)" and heap1: "heap_ok H h1 (remaining H L1)"
      using stack_heap [OF wf h0 *(1)] stack_heap [OF wf h0 st] .
    obtain h2 where "lift h1 (Some a1) = Some h2" "unlift h2 (Some a1) = Some h1"
      using heap_ok_lift [OF wf heap1 sp call] .
    then have unlift: "unlift (s_heap cs) (Some a1) = Some h1" using lift by simp
    have a1: "a1 < length H" "k \<notin> L1" using sp in_remaining [of a1 H L1] k by auto
    have kI: "k \<in> op_ids H" using ent_id [OF wf a1(1)] length_wf_history [OF wf] k by simp
    have path: "hpath M H ids" "set ids = L" "list_all2 (\<lambda>v k. \<exists>a < length H. fst v = Some a \<and> e_id (ent H a) = k) (s_calls cs) ids"
      using stack_path [OF wf *(1)] by auto
    have "call_ids (s_heap cs) (s_calls cs) = Some ids" using call_ids_stack [OF path(3) heap] .
    moreover obtain longest where
      "longest_loop (length (s_calls cs)) (s_round cs, ids) ids (s_longest cs) = Some longest" "longest_ok M H longest"
      using longest_loop_ok [OF *(5), of "(s_round cs, ids)" ids] path path_distinct [OF path(1)] by auto
    ultimately obtain longest' where longest: "(if computePartial then do {
            ids \<leftarrow> call_ids (s_heap cs) (s_calls cs);
            longest_loop (length (s_calls cs)) (s_round cs, ids) ids (s_longest cs)
          } else Some (s_longest cs)) = Some longest'" "longest_ok M H longest'"
      using *(5) by (cases computePartial) auto
    obtain b where b: "bitset_clear (s_linearized cs) (nat k) = Some b" "bitset_valid (length H div 2) b" "op_set H b = L1"
      using op_set_remove [OF *(2) kI] *(3) L a1(2) by auto
    let ?cs = "cs\<lparr>s_longest := longest', s_state := s1, s_linearized := b, s_calls := calls, s_heap := h1\<rparr>"
    let ?cs' = "?cs\<lparr>s_entry := n_next (h1 ! a1)\<rparr>"
    have "n_id (s_heap cs ! a1) = k" "uint_id k = Some (nat k)" "a1 < length (s_heap cs)" "a1 < length h1"
      using heap heap1 a1 k kI by (auto simp: heap_ok_def node_ok_def uint_id_def)
    then have "checkSingle_return computePartial cs = Some (Some ?cs')"
      using longest(1) b(1) unlift unfolding checkSingle_return_def snoc v by simp
    moreover have "search_inv M H h0 ?cs' (w1 + length post1 * base H ^ (length H - length ids1))"
    proof -
      have "dead M H L1 s1 a1" using hopeless call k step L by (simp add: dead_def)
      moreover have "cache_ok M H S1 (s_cache cs)"
        using *(4) hopeless unfolding S L cache_ok_def by fastforce
      ultimately show ?thesis
        using inv_advance [OF wf h0, of M ?cs L1 S1 ids1 w1 pre1 a1 post1] st b longest(2) sp pre1 by simp
    qed
    moreover have "w1 + length post1 * base H ^ (length H - length ids1) < weight"
      unfolding *(8) w by (simp add: base_def)
    moreover have "s_calls cs \<noteq> []" using snoc by simp
    ultimately show ?thesis by blast
  qed
qed

section \<open>The search is correct and ends\<close>

text \<open>What a result says; \<open>complete\<close> is whether the search was never interrupted.\<close>

definition result_ok :: "('i, 'o, 's) Model \<Rightarrow> ('i, 'o) entry list \<Rightarrow> bool \<Rightarrow> bool \<times> seq_ptr list \<Rightarrow> bool" where
  "result_ok M H complete r \<longleftrightarrow> (fst r \<longrightarrow> hcomp M H {} (Init M))
     \<and> (complete \<longrightarrow> \<not> fst r \<longrightarrow> \<not> hcomp M H {} (Init M)) \<and> longest_ok M H (snd r)"

lemma inv_load:
  assumes wf: "wf_history n H" and h0: "heap_ok H h0 (remaining H {})" and inv: "search_inv M H h0 cs weight"
  shows "length H < length (s_heap cs)"
    "s_entry cs \<noteq> None \<longleftrightarrow> n_next (s_heap cs ! length H) \<noteq> None"
    "s_entry cs = Some a \<Longrightarrow> a < length (s_heap cs) \<and> (n_match (s_heap cs ! a) \<noteq> None \<longleftrightarrow> e_kind (ent H a) = callEntry)"
proof -
  from inv obtain L S ids w pre rest where *: "stack M H h0 (s_calls cs) L (s_state cs) (s_heap cs) S ids w"
    "remaining H L = pre @ rest" "s_entry cs = (case rest of [] \<Rightarrow> None | a # _ \<Rightarrow> Some a)" "rest = [] \<longrightarrow> pre = []"
    unfolding search_inv_def by blast
  have heap: "heap_ok H (s_heap cs) (remaining H L)" using stack_heap [OF wf h0 *(1)] .
  then show "length H < length (s_heap cs)" by (simp add: heap_ok_def)
  have "n_next (s_heap cs ! length H) = (case remaining H L of [] \<Rightarrow> None | y # _ \<Rightarrow> Some y)"
    using heap dlist_next [of "s_heap cs" "[]" "length H"] by (simp add: heap_ok_def)
  then show "s_entry cs \<noteq> None \<longleftrightarrow> n_next (s_heap cs ! length H) \<noteq> None"
    using *(2-4) by (auto split: list.splits)
  show "a < length (s_heap cs) \<and> (n_match (s_heap cs ! a) \<noteq> None \<longleftrightarrow> e_kind (ent H a) = callEntry)"
    if entry: "s_entry cs = Some a"
  proof -
    obtain post where sp: "remaining H L = pre @ a # post" using *(2,3) entry by (cases rest) auto
    then have a: "a < length H" using in_remaining [of a H L] by auto
    have "ret_addr H a (e_id (ent H a)) \<noteq> None" if "e_kind (ent H a) = callEntry"
      using matching_return [OF wf sp that] by auto
    with a heap show ?thesis by (cases "e_kind (ent H a)") (auto simp: heap_ok_def node_ok_def)
  qed
qed

lemma search_done:
  assumes wf: "wf_history n H" and h0: "heap_ok H h0 (remaining H {})" and inv: "search_inv M H h0 cs weight"
    and "s_entry cs = None"
  shows "\<exists>ids. call_ids (s_heap cs) (s_calls cs) = Some ids \<and> hpath M H ids \<and> set ids = op_ids H
    \<and> longest_ok M H (map (\<lambda>_. Some (s_round cs, ids)) (s_longest cs))"
proof -
  from inv assms(4) obtain L S ids w pre rest where *: "stack M H h0 (s_calls cs) L (s_state cs) (s_heap cs) S ids w"
    "remaining H L = pre @ rest" "longest_ok M H (s_longest cs)" "rest = [] \<longrightarrow> pre = []"
    "s_entry cs = (case rest of [] \<Rightarrow> None | a # _ \<Rightarrow> Some a)"
    unfolding search_inv_def by blast
  then have empty: "remaining H L = []" using assms(4) by (cases rest) auto
  have path: "hpath M H ids" "set ids = L" "list_all2 (\<lambda>v k. \<exists>a < length H. fst v = Some a \<and> e_id (ent H a) = k) (s_calls cs) ids"
    using stack_path [OF wf *(1)] by auto
  have "k \<in> L" if "k \<in> op_ids H" for k
  proof -
    have "k \<in> {0..<int n}" using that length_wf_history [OF wf] by simp
    then obtain a where "a < length H" "e_id (ent H a) = k" by (rule ent_place [OF wf, where kd = callEntry])
    then show ?thesis using empty in_remaining [of a H L] by auto
  qed
  then have "L = op_ids H" using path path_distinct [OF path(1)] by auto
  then show ?thesis
    using path *(3) call_ids_stack [OF path(3) stack_heap [OF wf h0 *(1)]] by (auto simp: longest_ok_def)
qed

lemma checkSingle_loop_correct:
  assumes wf: "wf_history n H" and eq: "equal_ok M" and h0: "heap_ok H h0 (remaining H {})"
    and "search_inv M H h0 cs weight"
  shows "\<exists>r. checkSingle_loop M computePartial kill (Some (length H)) cs = Some r
    \<and> result_ok M H (\<forall>i. \<not> kill i) r"
  using assms(4)
proof (induction weight arbitrary: cs rule: less_induct)
  case (less weight)
  note load = inv_load [OF wf h0 less.prems]
  have longest: "longest_ok M H (s_longest cs)" using less.prems by (auto simp: search_inv_def)
  note unfold = checkSingle_loop.simps [of M computePartial kill "Some (length H)" cs]
  show ?case
  proof (cases "s_entry cs")
    case None
    from search_done [OF wf h0 less.prems None] obtain ids where
      ids: "call_ids (s_heap cs) (s_calls cs) = Some ids" "hpath M H ids" "set ids = op_ids H"
      "longest_ok M H (map (\<lambda>_. Some (s_round cs, ids)) (s_longest cs))" by blast
    have "hcomp M H {} (Init M)" using ids(2,3) by (auto simp: completable_def)
    then show ?thesis using ids load(1,2) None by (subst unfold) (simp add: result_ok_def)
  next
    case (Some a)
    note at = load(3) [OF Some]
    show ?thesis
    proof (cases "kill (s_round cs)")
      case True
      then show ?thesis using load(1,2) Some longest by (subst unfold) (auto simp: result_ok_def)
    next
      case alive: False
      show ?thesis
      proof (cases "e_kind (ent H a)")
        case callEntry
        obtain cs' weight' where "checkSingle_call M (Some (length H)) (s_heap cs ! a) cs = Some cs'"
          "search_inv M H h0 cs' weight'" "weight' < weight"
          using round_call [OF wf eq h0 less.prems Some callEntry] by blast
        with less.IH [of weight' "cs'\<lparr>s_round := s_round cs' + 1\<rparr>"] show ?thesis
          using load(1,2) Some alive at callEntry by (subst unfold) auto
      next
        case returnEntry
        from round_return [OF wf h0 less.prems Some returnEntry, of computePartial] show ?thesis
        proof
          assume "s_calls cs = [] \<and> \<not> hcomp M H {} (Init M)"
          then show ?thesis
            using load(1,2) Some alive at returnEntry longest
            by (subst unfold) (auto simp: checkSingle_return_def result_ok_def)
        next
          assume "\<exists>cs' weight'. checkSingle_return computePartial cs = Some (Some cs') \<and> s_calls cs \<noteq> []
            \<and> search_inv M H h0 cs' weight' \<and> weight' < weight"
          then obtain cs' weight' where "checkSingle_return computePartial cs = Some (Some cs')"
            "search_inv M H h0 cs' weight'" "weight' < weight" by blast
          with less.IH [of weight' "cs'\<lparr>s_round := s_round cs' + 1\<rparr>"] show ?thesis
            using load(1,2) Some alive at returnEntry by (subst unfold) auto
        qed
      qed
    qed
  qed
qed

lemma search_start:
  assumes wf: "wf_history n H" and h: "built H (length H) h"
  defines "nd \<equiv> \<lparr>n_value = None, n_match = None, n_id = -1, n_next = None, n_prev = None\<rparr>"
  shows "\<exists>h0. insertBefore (h @ [nd]) (Some (length h)) (top_ptr (length H)) = Some h0
    \<and> heap_ok H h0 (remaining H {})"
proof -
  let ?N = "length H"
  have len: "length h = ?N" and d: "dlist h (rev [0..<?N])" and nodes: "\<forall>a < ?N. node_ok H (h ! a) a"
    using h by (auto simp: built_def)
  have rem: "remaining H {} = rev [0..<?N]" by (simp add: remaining_def)
  show ?thesis
  proof (cases "?N = 0")
    case True
    then show ?thesis
      using len rem by (simp add: insertBefore_def heap_ok_def dlist_def nd_def)
  next
    case False
    then have hd: "hd (rev [0..<?N]) = ?N - 1" by (simp add: hd_rev last_upt)
    obtain h0 where h0: "insertBefore (h @ [nd]) (Some (length h)) (Some (?N - 1)) = Some h0"
      "dlist h0 (?N # rev [0..<?N])" "same_data (h @ [nd]) h0"
      using insertBefore_front [OF d, of nd] False h hd len by (auto simp: built_def nd_def)
    have "node_ok H (h0 ! a) a" if "a < ?N" for a
      using node_ok_same [OF h0(3), of a H] nodes that len by (simp add: nth_append)
    then show ?thesis using h0 False len rem by (auto simp: heap_ok_def same_data_def)
  qed
qed

lemma checkSingle_result:
  assumes wf: "wf_history n H" and eq: "equal_ok M"
  shows "\<exists>r. checkSingle M H computePartial kill = Some r \<and> result_ok M H (\<forall>i. \<not> kill i) r"
proof -
  let ?N = "length H"
  obtain h where h: "makeLinkedEntries H = Some (h, top_ptr ?N)" "built H ?N h"
    using makeLinkedEntries_built by blast
  have len: "length h = ?N" using h(2) by (simp add: built_def)
  have "node_length h (top_ptr ?N) 0 = Some ?N"
    using node_length_dlist [of h "rev [0..<?N]" 0] h(2)
    by (cases "?N") (auto simp: built_def)
  moreover obtain h0 where h0: "insertBefore
      (h @ [\<lparr>n_value = None, n_match = None, n_id = -1, n_next = None, n_prev = None\<rparr>])
      (Some (length h)) (top_ptr ?N) = Some h0" "heap_ok H h0 (remaining H {})"
    using search_start [OF wf h(2)] by blast
  let ?cs = "\<lparr>s_heap = h0, s_entry = top_ptr ?N, s_linearized = newBitset (?N div 2), s_cache = (\<lambda>_. []),
    s_calls = [], s_longest = replicate (?N div 2) None, s_state = Init M, s_round = 0\<rparr>"
  have "search_inv M H h0 ?cs (0 + length (remaining H {}) * base H ^ (length H - length ([] :: int list)))"
  proof (rule inv_intro)
    show "stack M H h0 (s_calls ?cs) {} (s_state ?cs) (s_heap ?cs) {} [] 0"
      by (simp add: stack.empty)
    show "s_entry ?cs = (case remaining H {} of [] \<Rightarrow> None | a # _ \<Rightarrow> Some a)"
      by (cases "?N") (simp_all add: remaining_def)
  qed (auto simp: bits.valid_new bits.elems_new cache_ok_def longest_ok_def)
  from checkSingle_loop_correct [OF wf eq h0(2) this, of computePartial kill]
  have "\<exists>r. checkSingle_loop M computePartial kill (Some ?N) ?cs = Some r \<and> result_ok M H (\<forall>i. \<not> kill i) r" .
  moreover have "checkSingle M H computePartial kill = checkSingle_loop M computePartial kill (Some ?N) ?cs"
    using calculation(1) h(1) h0(1) len by (cases "H = []") (simp_all add: checkSingle_def Let_def)
  ultimately show ?thesis by (simp only:)
qed

lemma linearizable_comp: "wf_history n H \<Longrightarrow> linearizable M H \<longleftrightarrow> hcomp M H {} (Init M)"
  using completable_linearizable [of "hprec H" "op_ids H" "hstep M H" "Init M"] hprec_irrefl [of n H]
  by (simp add: linearizable_def)

text \<open>
  C22. \<open>checkSingle\<close> decides linearizability. On a history in which every operation has a call and a
  later return, with a state equality that the model respects, the search ends without a panic for
  any way its kill flag is set. A positive answer means that the history is linearizable; a
  negative one, unless the search was interrupted, that it is not. Every partial linearization it
  reports is a sequence of operations in an allowed order that the model accepts.
\<close>

theorem checkSingle_decides:
  assumes "wf_history n H" and "equal_ok M"
  shows "\<exists>ok longest. checkSingle M H computePartial kill = Some (ok, longest)
    \<and> (ok \<longrightarrow> linearizable M H) \<and> ((\<forall>i. \<not> kill i) \<longrightarrow> linearizable M H \<longrightarrow> ok)
    \<and> (\<forall>r seq. Some (r, seq) \<in> set longest \<longrightarrow>
          distinct seq \<and> set seq \<subseteq> op_ids H \<and> legal (hstep M H) (Init M) seq)"
proof -
  from checkSingle_result [OF assms] obtain ok longest where
    "checkSingle M H computePartial kill = Some (ok, longest)" "result_ok M H (\<forall>i. \<not> kill i) (ok, longest)"
    by force
  then show ?thesis
    using linearizable_comp [OF assms(1), of M] path_legal path_distinct
    by (fastforce simp: result_ok_def longest_ok_def)
qed

end
