(* ===== verification/CheckerApi.thy ===== *)
theory CheckerApi
  imports CheckerCorrect "HOL-Library.Multiset"
begin

text \<open>
  The entry points of the checker: the rest of \<open>src/src/porcupine/checker.go\<close>, and
  \<open>src/src/porcupine/porcupine.go\<close>.

  \<open>checkParallel\<close> starts one goroutine per partition and collects their results from a channel in
  the order in which they finish. That order, together with the moment of the timeout, is the list of
  \<open>arrival\<close>s; a list that ends before the loop is left means that the loop waits for ever, and the
  result is \<open>None\<close>. The loop stores into the flag \<open>kill\<close> that all goroutines read: \<open>flags\<close> are its values
  before the loop and after each arrival, and \<open>seen i r\<close> is the number of arrivals the loop has handled when
  the goroutine of partition \<open>i\<close> reads the flag in its round \<open>r\<close>. The order of a \<open>range\<close> over the Go map of
  pointers is \<open>iter\<close>.
\<close>

section \<open>checker.go, continued\<close>

record ('i, 'o) linearizationInfo =
  li_history :: "('i, 'o) entry list list"
  partialLinearizations :: "int list list list"

text \<open>The two default descriptions format values with \<open>%v\<close>; they are the arguments \<open>dop\<close> and \<open>dst\<close>.\<close>

definition fillDefault ::
  "('i \<Rightarrow> 'o \<Rightarrow> string) \<Rightarrow> ('s \<Rightarrow> string) \<Rightarrow> ('i, 'o, 's) Model \<Rightarrow> ('i, 'o, 's) Model" where
  "fillDefault dop dst model =
     (let model = (if Partition model = None then model\<lparr>Partition := Some NoPartition\<rparr> else model);
          model = (if PartitionEvent model = None then model\<lparr>PartitionEvent := Some NoPartitionEvent\<rparr> else model);
          model = (if Equal model = None then model\<lparr>Equal := Some ShallowEqual\<rparr> else model);
          model = (if DescribeOperation model = None then model\<lparr>DescribeOperation := Some dop\<rparr> else model);
          model = (if DescribeState model = None then model\<lparr>DescribeState := Some dst\<rparr> else model)
      in model)"

datatype arrival = Result nat | TimedOut

text \<open>
  What a read of the flag returns. A result that is received has been computed before, so the reads that
  led to it come no later than the last value known when it is received.
\<close>

definition flag_at :: "bool list \<Rightarrow> nat \<Rightarrow> bool" where
  "flag_at flags k = flags ! min k (length flags - 1)"

definition goroutine ::
  "('i, 'o, 's) Model \<Rightarrow> ('i, 'o) entry list list \<Rightarrow> bool \<Rightarrow> (nat \<Rightarrow> nat \<Rightarrow> nat) \<Rightarrow> nat \<Rightarrow> bool list
     \<Rightarrow> (bool \<times> seq_ptr list) option" where
  "goroutine model history computeInfo seen i flags = do {
     subhistory \<leftarrow> idx history (int i);
     checkSingle model subhistory computeInfo (\<lambda>r. flag_at flags (seen i r))
   }"

text \<open>
  The loop with the \<open>select\<close>: whether all results were positive, how many arrived, whether the timer
  fired, and the values of the flag. Without a timeout the timer's channel is nil and nothing is ever
  received from it. \<open>result i flags\<close> is what the goroutine of partition \<open>i\<close> sends.
\<close>

fun collect ::
  "(nat \<Rightarrow> bool list \<Rightarrow> bool option) \<Rightarrow> bool \<Rightarrow> bool \<Rightarrow> nat \<Rightarrow> arrival list \<Rightarrow> bool \<Rightarrow> nat \<Rightarrow> bool list
     \<Rightarrow> (bool \<times> nat \<times> bool \<times> bool list) option" where
  "collect result computeInfo timer n [] ok cnt flags = None"
| "collect result computeInfo timer n (Result i # rest) ok cnt flags = do {
     res \<leftarrow> result i flags;
     let cnt = cnt + 1;
     let ok = (ok \<and> res);
     if \<not> ok \<and> \<not> computeInfo then Some (ok, cnt, False, flags @ [True])
     else if cnt \<ge> n then Some (ok, cnt, False, flags @ [last flags])
     else collect result computeInfo timer n rest ok cnt (flags @ [last flags])
   }"
| "collect result computeInfo timer n (TimedOut # rest) ok cnt flags =
     (if timer then Some (ok, cnt, True, flags @ [True])
      else collect result computeInfo timer n rest ok cnt (flags @ [last flags]))"

definition unique_partials ::
  "((nat \<times> int list) list \<Rightarrow> (nat \<times> int list) list) \<Rightarrow> seq_ptr list \<Rightarrow> int list list" where
  "unique_partials iter longest = map snd (iter (remdups (List.map_filter (\<lambda>v. v) longest)))"

text \<open>With \<open>computeInfo\<close> the function waits for the goroutines that are still running.\<close>

definition checkParallel ::
  "((nat \<times> int list) list \<Rightarrow> (nat \<times> int list) list) \<Rightarrow> arrival list \<Rightarrow> (nat \<Rightarrow> nat \<Rightarrow> nat) \<Rightarrow>
   ('i, 'o, 's) Model \<Rightarrow> ('i, 'o) entry list list \<Rightarrow> bool \<Rightarrow> int \<Rightarrow>
   (CheckResult \<times> ('i, 'o) linearizationInfo option) option" where
  "checkParallel iter arrivals seen model history computeInfo timeout = do {
     (ok, cnt, timedOut, flags) \<leftarrow> collect (\<lambda>i flags. map_option fst (goroutine model history computeInfo seen i flags))
       computeInfo (timeout > 0) (length history) arrivals True 0 [False];
     info \<leftarrow> (if computeInfo
       then do {
         rs \<leftarrow> mapM (\<lambda>i. goroutine model history computeInfo seen i flags) [0..<length history];
         Some (Some \<lparr>li_history = history, partialLinearizations = map (unique_partials iter \<circ> snd) rs\<rparr>)
       } else Some None);
     Some (if \<not> ok then Illegal else if timedOut then Unknown else Ok, info)
   }"

definition checkEvents ::
  "('i \<Rightarrow> 'o \<Rightarrow> string) \<Rightarrow> ('s \<Rightarrow> string) \<Rightarrow>
   ((nat \<times> int list) list \<Rightarrow> (nat \<times> int list) list) \<Rightarrow> arrival list \<Rightarrow> (nat \<Rightarrow> nat \<Rightarrow> nat) \<Rightarrow>
   ('i, 'o, 's) Model \<Rightarrow> ('i, 'o) Event list \<Rightarrow> bool \<Rightarrow> int \<Rightarrow>
   (CheckResult \<times> ('i, 'o) linearizationInfo option) option" where
  "checkEvents dop dst iter arrivals seen model history verbose timeout = do {
     let model = fillDefault dop dst model;
     part \<leftarrow> PartitionEvent model;
     let l = map (convertEntries \<circ> renumber) (part history);
     checkParallel iter arrivals seen model l verbose timeout
   }"

definition checkOperations ::
  "('i \<Rightarrow> 'o \<Rightarrow> string) \<Rightarrow> ('s \<Rightarrow> string) \<Rightarrow> (('i, 'o) entry list \<Rightarrow> ('i, 'o) entry list) \<Rightarrow>
   ((nat \<times> int list) list \<Rightarrow> (nat \<times> int list) list) \<Rightarrow> arrival list \<Rightarrow> (nat \<Rightarrow> nat \<Rightarrow> nat) \<Rightarrow>
   ('i, 'o, 's) Model \<Rightarrow> ('i, 'o) Operation list \<Rightarrow> bool \<Rightarrow> int \<Rightarrow>
   (CheckResult \<times> ('i, 'o) linearizationInfo option) option" where
  "checkOperations dop dst sort_byTime iter arrivals seen model history verbose timeout = do {
     let model = fillDefault dop dst model;
     part \<leftarrow> Partition model;
     let l = map (makeEntries sort_byTime) (part history);
     checkParallel iter arrivals seen model l verbose timeout
   }"

section \<open>porcupine.go\<close>

definition CheckOperations where
  "CheckOperations dop dst sort_byTime iter arrivals seen model history = do {
     (res, _) \<leftarrow> checkOperations dop dst sort_byTime iter arrivals seen model history False 0;
     Some (res = Ok)
   }"

definition CheckOperationsTimeout where
  "CheckOperationsTimeout dop dst sort_byTime iter arrivals seen model history timeout = do {
     (res, _) \<leftarrow> checkOperations dop dst sort_byTime iter arrivals seen model history False timeout;
     Some res
   }"

definition CheckOperationsVerbose where
  "CheckOperationsVerbose dop dst sort_byTime iter arrivals seen model history timeout =
     checkOperations dop dst sort_byTime iter arrivals seen model history True timeout"

definition CheckEvents where
  "CheckEvents dop dst iter arrivals seen model history = do {
     (res, _) \<leftarrow> checkEvents dop dst iter arrivals seen model history False 0;
     Some (res = Ok)
   }"

definition CheckEventsTimeout where
  "CheckEventsTimeout dop dst iter arrivals seen model history timeout = do {
     (res, _) \<leftarrow> checkEvents dop dst iter arrivals seen model history False timeout;
     Some res
   }"

definition CheckEventsVerbose where
  "CheckEventsVerbose dop dst iter arrivals seen model history timeout =
     checkEvents dop dst iter arrivals seen model history True timeout"

section \<open>Histories of operations\<close>

text \<open>What \<open>sort.Sort\<close> promises: the same entries, none before an entry that is less.\<close>

definition sort_ok :: "(('i, 'o) entry list \<Rightarrow> ('i, 'o) entry list) \<Rightarrow> bool" where
  "sort_ok f \<longleftrightarrow> (\<forall>es. mset (f es) = mset es \<and> sorted_wrt (\<lambda>a b. \<not> byTime_Less b a) (f es))"

text \<open>Linearizability of a list of operations, in terms of their times, inputs and outputs.\<close>

definition op_linearizable :: "('i, 'o, 's) Model \<Rightarrow> ('i, 'o) Operation list \<Rightarrow> bool" where
  "op_linearizable M ops \<longleftrightarrow> (\<exists>ks. linearization {0..<int (length ops)}
     (\<lambda>a b. Return (ops ! nat a) < Call (ops ! nat b))
     (\<lambda>s k. Step M s (Input (ops ! nat k)) (Output (ops ! nat k))) (Init M) ks)"

definition call_of :: "('i, 'o) Operation \<Rightarrow> int \<Rightarrow> ('i, 'o) entry" where
  "call_of v k = \<lparr>e_kind = callEntry, e_value = InV (Input v), e_id = k, e_time = Call v, e_clientId = ClientId v\<rparr>"

definition return_of :: "('i, 'o) Operation \<Rightarrow> int \<Rightarrow> ('i, 'o) entry" where
  "return_of v k = \<lparr>e_kind = returnEntry, e_value = OutV (Output v), e_id = k, e_time = Return v,
     e_clientId = ClientId v\<rparr>"

lemma image_nth_Cons:
  "(\<lambda>j. f ((v # ops) ! j) (i + int j)) ` {..<Suc n} = insert (f v i) ((\<lambda>j. f (ops ! j) (i + 1 + int j)) ` {..<n})"
  by (simp add: lessThan_Suc_eq_insert_0 image_image add.assoc)

lemma set_makeEntries_loop:
  "set (makeEntries_loop ops i) =
     (\<lambda>j. call_of (ops ! j) (i + int j)) ` {..<length ops} \<union> (\<lambda>j. return_of (ops ! j) (i + int j)) ` {..<length ops}"
proof (induction ops arbitrary: i)
  case (Cons v ops)
  show ?case
    unfolding list.size(4) add_0_right add_Suc_right
      image_nth_Cons [where f = call_of] image_nth_Cons [where f = return_of]
    using Cons.IH [of "i + 1"] by (auto simp: call_of_def [of v] return_of_def [of v])
qed simp

lemma distinct_makeEntries_loop:
  "distinct (map (\<lambda>e. (e_kind e, e_id e)) (makeEntries_loop ops i)) \<and> (\<forall>e \<in> set (makeEntries_loop ops i). i \<le> e_id e)"
  by (induction ops arbitrary: i) (fastforce)+

lemma makeEntries_facts:
  assumes "sort_ok f"
  shows "set (makeEntries f ops) = set (makeEntries_loop ops 0)"
    and "distinct (map (\<lambda>e. (e_kind e, e_id e)) (makeEntries f ops))"
    and "sorted_wrt (\<lambda>a b. \<not> byTime_Less b a) (makeEntries f ops)"
proof -
  have m: "mset (makeEntries f ops) = mset (makeEntries_loop ops 0)"
    using assms by (simp add: sort_ok_def makeEntries_def)
  then show "set (makeEntries f ops) = set (makeEntries_loop ops 0)" by (metis set_mset_mset)
  have "mset (map (\<lambda>e. (e_kind e, e_id e)) (makeEntries f ops)) =
      mset (map (\<lambda>e. (e_kind e, e_id e)) (makeEntries_loop ops 0))"
    using m by simp
  then show "distinct (map (\<lambda>e. (e_kind e, e_id e)) (makeEntries f ops))"
    using distinct_makeEntries_loop [of ops 0] by (metis mset_eq_imp_distinct_iff)
  show "sorted_wrt (\<lambda>a b. \<not> byTime_Less b a) (makeEntries f ops)"
    using assms by (simp add: sort_ok_def makeEntries_def)
qed

lemma makeEntries_entry:
  assumes "sort_ok f" and "e \<in> set (makeEntries f ops)"
  shows "0 \<le> e_id e \<and> e_id e < int (length ops) \<and>
    e = (if e_kind e = callEntry then call_of (ops ! nat (e_id e)) (e_id e) else return_of (ops ! nat (e_id e)) (e_id e))"
  using assms(2) unfolding makeEntries_facts(1) [OF assms(1)]
  by (auto simp: set_makeEntries_loop call_of_def return_of_def)

lemma makeEntries_has:
  assumes "sort_ok f" and "j < length ops"
  shows "call_of (ops ! j) (int j) \<in> set (makeEntries f ops)" "return_of (ops ! j) (int j) \<in> set (makeEntries f ops)"
  using assms(2) unfolding makeEntries_facts(1) [OF assms(1)] by (auto simp: set_makeEntries_loop)

lemma makeEntries_place:
  assumes "sort_ok f" and "k \<in> {0..<int (length ops)}"
  shows "\<exists>i < length (makeEntries f ops). makeEntries f ops ! i = call_of (ops ! nat k) k"
    and "\<exists>i < length (makeEntries f ops). makeEntries f ops ! i = return_of (ops ! nat k) k"
proof -
  have "nat k < length ops" using assms(2) by (simp add: nat_less_iff)
  from makeEntries_has [OF assms(1) this] assms(2)
  show "\<exists>i < length (makeEntries f ops). makeEntries f ops ! i = call_of (ops ! nat k) k"
    and "\<exists>i < length (makeEntries f ops). makeEntries f ops ! i = return_of (ops ! nat k) k"
    by (auto simp: in_set_conv_nth)
qed

text \<open>Entries that \<open>byTime\<close> compares come in that order.\<close>

lemma makeEntries_order:
  assumes "sort_ok f" and "i < length (makeEntries f ops)" "j < length (makeEntries f ops)"
    and "byTime_Less (makeEntries f ops ! i) (makeEntries f ops ! j)"
  shows "i < j"
proof (rule ccontr)
  assume "\<not> i < j"
  moreover have "i \<noteq> j" using assms(4) by (auto simp: byTime_Less_def)
  ultimately have "j < i" by simp
  then show False
    using makeEntries_facts(3) [OF assms(1), of ops] assms(2,4) by (auto simp: sorted_wrt_iff_nth_less)
qed

lemma wf_makeEntries:
  assumes f: "sort_ok f" and times: "\<forall>v \<in> set ops. Call v \<le> Return v"
  shows "wf_history (length ops) (makeEntries f ops)"
proof -
  let ?H = "makeEntries f ops"
  have kinds: "kd \<in> {callEntry, returnEntry}" for kd by (cases kd) auto
  have keys: "set (map (\<lambda>e. (e_kind e, e_id e)) ?H) = {callEntry, returnEntry} \<times> {0..<int (length ops)}"
  proof
    show "set (map (\<lambda>e. (e_kind e, e_id e)) ?H) \<subseteq> {callEntry, returnEntry} \<times> {0..<int (length ops)}"
      using makeEntries_entry [OF f, of _ ops] kinds by (auto simp del: insert_iff)
    show "{callEntry, returnEntry} \<times> {0..<int (length ops)} \<subseteq> set (map (\<lambda>e. (e_kind e, e_id e)) ?H)"
    proof clarify
      fix kd k assume "kd \<in> {callEntry, returnEntry}" and k: "k \<in> {0..<int (length ops)}"
      then show "(kd, k) \<in> set (map (\<lambda>e. (e_kind e, e_id e)) ?H)"
        using makeEntries_has [OF f, of "nat k" ops] by (force simp: call_of_def return_of_def)
    qed
  qed
  have order: "\<exists>i < j. e_kind (?H ! i) = callEntry \<and> e_id (?H ! i) = e_id (?H ! j)"
    if j: "j < length ?H" and ret: "e_kind (?H ! j) = returnEntry" for j
  proof -
    define k where "k = e_id (?H ! j)"
    let ?v = "ops ! nat k"
    have r: "0 \<le> k" "k < int (length ops)" "?H ! j = return_of ?v k"
      using makeEntries_entry [OF f, of "?H ! j" ops] j ret unfolding k_def by auto
    then have "call_of ?v k \<in> set ?H" using makeEntries_has(1) [OF f, of "nat k" ops] by simp
    then obtain i where i: "i < length ?H" "?H ! i = call_of ?v k" by (auto simp: in_set_conv_nth)
    have "Call ?v \<le> Return ?v" using times r(1,2) by simp
    then have "byTime_Less (?H ! i) (?H ! j)"
      unfolding i(2) r(3) by (auto simp: byTime_Less_def call_of_def return_of_def)
    then have "i < j" using makeEntries_order [OF f i(1) j] by simp
    then show ?thesis using i(2) by (auto simp: call_of_def k_def)
  qed
  have "case e_value e of InV _ \<Rightarrow> e_kind e = callEntry | OutV _ \<Rightarrow> e_kind e = returnEntry" if "e \<in> set ?H" for e
    using that unfolding makeEntries_facts(1) [OF f] set_makeEntries_loop
    by (auto simp: call_of_def return_of_def)
  with keys order makeEntries_facts(2) [OF f, of ops] show ?thesis by (simp add: wf_history_def)
qed

lemma hprec_makeEntries:
  assumes f: "sort_ok f" and "a \<in> {0..<int (length ops)}" "b \<in> {0..<int (length ops)}"
  shows "hprec (makeEntries f ops) a b \<longleftrightarrow> Return (ops ! nat a) < Call (ops ! nat b)"
proof -
  let ?H = "makeEntries f ops"
  obtain i where i: "i < length ?H" "?H ! i = return_of (ops ! nat a) a"
    using makeEntries_place(2) [OF f assms(2)] by blast
  obtain j where j: "j < length ?H" "?H ! j = call_of (ops ! nat b) b"
    using makeEntries_place(1) [OF f assms(3)] by blast
  have key: "i' = i" if "i < length ?H" "i' < length ?H" "e_kind (?H ! i') = e_kind (?H ! i)" "e_id (?H ! i') = e_id (?H ! i)" for i' i
    using makeEntries_facts(2) [OF f, of ops] that by (auto simp: distinct_conv_nth)
  have "hprec ?H a b \<longleftrightarrow> i < j"
  proof
    assume "hprec ?H a b"
    then obtain j' i' where "j' < length ?H" "i' < j'" "e_kind (?H ! i') = returnEntry" "e_id (?H ! i') = a"
      "e_kind (?H ! j') = callEntry" "e_id (?H ! j') = b" by (auto simp: hprec_def)
    then show "i < j"
      using key [OF i(1), of i'] key [OF j(1), of j'] i(2) j(2) by (auto simp: call_of_def return_of_def)
  next
    assume "i < j"
    then show "hprec ?H a b"
      unfolding hprec_def using i j by (intro exI [of _ j] conjI exI [of _ i]) (auto simp: call_of_def return_of_def)
  qed
  also have "\<dots> \<longleftrightarrow> Return (ops ! nat a) < Call (ops ! nat b)"
  proof
    assume "i < j"
    then have "\<not> byTime_Less (?H ! j) (?H ! i)" using makeEntries_order [OF f j(1) i(1)] by auto
    then show "Return (ops ! nat a) < Call (ops ! nat b)"
      using i j by (auto simp: byTime_Less_def call_of_def return_of_def split: if_splits)
  next
    assume "Return (ops ! nat a) < Call (ops ! nat b)"
    then have "byTime_Less (?H ! i) (?H ! j)"
      using i j by (simp add: byTime_Less_def call_of_def return_of_def)
    then show "i < j" by (rule makeEntries_order [OF f i(1) j(1)])
  qed
  finally show ?thesis .
qed

lemma hstep_makeEntries:
  assumes f: "sort_ok f" and wf: "wf_history (length ops) (makeEntries f ops)" and k: "k \<in> {0..<int (length ops)}"
  shows "hstep M (makeEntries f ops) s k = Step M s (Input (ops ! nat k)) (Output (ops ! nat k))"
proof -
  let ?H = "makeEntries f ops"
  obtain i where i: "i < length ?H" "?H ! i = call_of (ops ! nat k) k"
    using makeEntries_place(1) [OF f k] by blast
  obtain j where j: "j < length ?H" "?H ! j = return_of (ops ! nat k) k"
    using makeEntries_place(2) [OF f k] by blast
  show ?thesis
    using hstep_nth [OF wf i(1) j(1), of k M s] i(2) j(2) by (auto simp: call_of_def return_of_def)
qed

lemma legal_cong: "(\<And>s k. k \<in> set ks \<Longrightarrow> stp s k = stp' s k) \<Longrightarrow> legal stp s ks = legal stp' s ks"
  by (induction ks arbitrary: s) auto

lemma linearization_cong:
  assumes "\<And>a b. a \<in> I \<Longrightarrow> b \<in> I \<Longrightarrow> prec a b = prec' a b" and "\<And>s k. k \<in> I \<Longrightarrow> stp s k = stp' s k"
  shows "linearization I prec stp s ks = linearization I prec' stp' s ks"
proof (cases "set ks = I")
  case True
  then have "legal stp s ks = legal stp' s ks" using assms(2) by (intro legal_cong) auto
  moreover have "sorted_wrt (\<lambda>a b. \<not> prec b a) ks = sorted_wrt (\<lambda>a b. \<not> prec' b a) ks"
    using True assms(1) by (auto simp: sorted_wrt_iff_nth_less)
  ultimately show ?thesis using True by (simp add: linearization_def)
qed (simp add: linearization_def)

lemma linearizable_makeEntries:
  assumes f: "sort_ok f" and times: "\<forall>v \<in> set ops. Call v \<le> Return v"
  shows "linearizable M (makeEntries f ops) \<longleftrightarrow> op_linearizable M ops"
proof -
  have wf: "wf_history (length ops) (makeEntries f ops)" using wf_makeEntries [OF assms] .
  have "length (makeEntries f ops) div 2 = length ops" using length_wf_history [OF wf] by simp
  moreover have "linearization {0..<int (length ops)} (hprec (makeEntries f ops)) (hstep M (makeEntries f ops)) (Init M) ks
    = linearization {0..<int (length ops)} (\<lambda>a b. Return (ops ! nat a) < Call (ops ! nat b))
        (\<lambda>s k. Step M s (Input (ops ! nat k)) (Output (ops ! nat k))) (Init M) ks" for ks
    by (intro linearization_cong hprec_makeEntries [OF f] hstep_makeEntries [OF f wf])
  ultimately show ?thesis by (simp add: linearizable_def op_linearizable_def)
qed

section \<open>Collecting the results\<close>

definition arrived :: "arrival list \<Rightarrow> nat set" where
  "arrived arr = {i. Result i \<in> set arr}"

text \<open>Each of \<open>n\<close> goroutines sends one result.\<close>

definition arrivals_ok :: "nat \<Rightarrow> arrival list \<Rightarrow> bool" where
  "arrivals_ok n arr \<longleftrightarrow> distinct (filter (\<lambda>x. x \<noteq> TimedOut) arr) \<and> arrived arr \<subseteq> {..<n}"

text \<open>
  While the loop runs, the flag has not been set, so what arrives are the answers of searches that
  were not killed: \<open>res\<close>.
\<close>

definition answers :: "(nat \<Rightarrow> bool list \<Rightarrow> bool option) \<Rightarrow> nat \<Rightarrow> (nat \<Rightarrow> bool) \<Rightarrow> bool" where
  "answers result n res \<longleftrightarrow> (\<forall>i < n. \<forall>flags. flags \<noteq> [] \<and> True \<notin> set flags \<longrightarrow> result i flags = Some (res i))"

lemma answersD: "answers result n res \<Longrightarrow> i < n \<Longrightarrow> flags \<noteq> [] \<Longrightarrow> True \<notin> set flags \<Longrightarrow> result i flags = Some (res i)"
  by (simp add: answers_def)

lemma unset_last: "flags \<noteq> [] \<Longrightarrow> True \<notin> set flags \<Longrightarrow> True \<notin> set (flags @ [last flags])"
  using last_in_set [of flags] by (cases "last flags") auto

text \<open>\<open>K\<close> are the results that have arrived so far.\<close>

definition collecting :: "nat \<Rightarrow> arrival list \<Rightarrow> nat \<Rightarrow> nat set \<Rightarrow> bool" where
  "collecting n arr c K \<longleftrightarrow> arrivals_ok n arr \<and> arrived arr \<inter> K = {} \<and> K \<subseteq> {..<n} \<and> card K = c"

lemma collecting_Result:
  assumes "collecting n (Result i # rest) c K"
  shows "i < n" "i \<notin> K" "collecting n rest (c + 1) (insert i K)" "arrived (Result i # rest) = insert i (arrived rest)"
    "c + 1 \<ge> n \<Longrightarrow> insert i K = {..<n}"
proof -
  note * = assms [unfolded collecting_def]
  show i: "i < n" "i \<notin> K" using * by (auto simp: arrivals_ok_def arrived_def)
  have fin: "finite K" using * finite_subset by blast
  show K: "collecting n rest (c + 1) (insert i K)" using * i fin by (auto simp: collecting_def arrivals_ok_def arrived_def)
  show "arrived (Result i # rest) = insert i (arrived rest)" by (auto simp: arrived_def)
  show "insert i K = {..<n}" if "c + 1 \<ge> n"
    using K that card_mono [of "{..<n}" "insert i K"] by (intro card_subset_eq) (auto simp: collecting_def)
qed

lemma arrived_TimedOut [simp]: "arrived (TimedOut # rest) = arrived rest"
  by (simp add: arrived_def)

lemma collecting_TimedOut: "collecting n (TimedOut # rest) c K \<Longrightarrow> collecting n rest c K"
  by (simp add: collecting_def arrivals_ok_def)

lemma collect_sound:
  assumes "collect result ci timer n arr ok c flags = Some (ok', c', t, flags')" and "answers result n res"
    and "collecting n arr c K" and "flags \<noteq> []" "True \<notin> set flags" and "ok \<longleftrightarrow> (\<forall>i \<in> K. res i)"
  shows "(ok' \<longrightarrow> \<not> t \<longrightarrow> (\<forall>i < n. res i)) \<and> (\<not> ok' \<longrightarrow> (\<exists>i \<in> K \<union> arrived arr. \<not> res i))
    \<and> (t \<longrightarrow> timer \<and> TimedOut \<in> set arr)"
  using assms
proof (induction result ci timer n arr ok c flags arbitrary: K rule: collect.induct)
  case (2 result ci timer n i rest ok c flags)
  let ?K = "insert i K" and ?ok = "ok \<and> res i" and ?fl = "flags @ [last flags]"
  note C = collecting_Result [OF "2.prems"(3)]
  have r: "result i flags = Some (res i)" by (rule answersD [OF "2.prems"(2) C(1) "2.prems"(4,5)])
  have ok: "?ok \<longleftrightarrow> (\<forall>j \<in> ?K. res j)" using "2.prems"(6) by auto
  have fl: "?fl \<noteq> []" "True \<notin> set ?fl" using unset_last [OF "2.prems"(4,5)] by auto
  consider (bad) "\<not> ?ok" "\<not> ci" | (last) "?ok \<or> ci" "c + 1 \<ge> n" | (more) "?ok \<or> ci" "\<not> c + 1 \<ge> n"
    by blast
  then show ?case
  proof cases
    case bad
    then have "\<not> ok'" "\<not> t" using "2.prems"(1) r by auto
    then show ?thesis using bad "2.prems"(6) C(4) by auto
  next
    case last
    then have "ok' = ?ok" "\<not> t" using "2.prems"(1) r by auto
    then show ?thesis using ok C(4,5) last(2) by auto
  next
    case more
    then have "collect result ci timer n rest ?ok (c + 1) ?fl = Some (ok', c', t, flags')" using "2.prems"(1) r by auto
    from "2.IH" [OF r refl refl _ _ this "2.prems"(2) C(3) fl ok] more
    have "(ok' \<longrightarrow> \<not> t \<longrightarrow> (\<forall>i < n. res i)) \<and> (\<not> ok' \<longrightarrow> (\<exists>i \<in> ?K \<union> arrived rest. \<not> res i))
      \<and> (t \<longrightarrow> timer \<and> TimedOut \<in> set rest)" by auto
    then show ?thesis unfolding C(4) by auto
  qed
next
  case (3 result ci timer n rest ok c flags)
  show ?case
  proof (cases timer)
    case True
    then show ?thesis using "3.prems"(1,6) by auto
  next
    case False
    note unset = unset_last [OF "3.prems"(4,5)]
    from False "3.prems"(1) have "collect result ci timer n rest ok c (flags @ [last flags]) = Some (ok', c', t, flags')" by simp
    from "3.IH" [OF False this "3.prems"(2) collecting_TimedOut [OF "3.prems"(3)] _ unset "3.prems"(6)] show ?thesis by simp
  qed
qed simp

lemma collect_returns:
  assumes "answers result n res" and "collecting n arr c K" and "flags \<noteq> []" "True \<notin> set flags"
    and "c < n \<and> {..<n} \<subseteq> K \<union> arrived arr \<or> \<not> ci \<and> (\<exists>i \<in> arrived arr. \<not> res i)"
  shows "\<exists>r. collect result ci timer n arr ok c flags = Some r"
  using assms
proof (induction result ci timer n arr ok c flags arbitrary: K rule: collect.induct)
  case (1 result ci timer n ok c flags)
  then have "K = {..<n}" "card K = c" "c < n" by (auto simp: arrived_def collecting_def)
  then show ?case by simp
next
  case (2 result ci timer n i rest ok c flags)
  let ?fl = "flags @ [last flags]"
  note C = collecting_Result [OF "2.prems"(2)]
  have r: "result i flags = Some (res i)" by (rule answersD [OF "2.prems"(1) C(1) "2.prems"(3,4)])
  have fl: "?fl \<noteq> []" "True \<notin> set ?fl" using unset_last [OF "2.prems"(3,4)] by auto
  have "(\<not> (ok \<and> res i) \<and> \<not> ci) \<or> c + 1 \<ge> n \<or>
      (c + 1 < n \<and> {..<n} \<subseteq> insert i K \<union> arrived rest \<or> \<not> ci \<and> (\<exists>i \<in> arrived rest. \<not> res i))"
    using "2.prems"(5) unfolding C(4) by auto
  then consider (bad) "\<not> (ok \<and> res i)" "\<not> ci" | (last) "ok \<and> res i \<or> ci" "c + 1 \<ge> n"
    | (more) "ok \<and> res i \<or> ci" "\<not> c + 1 \<ge> n" "c + 1 < n \<and> {..<n} \<subseteq> insert i K \<union> arrived rest \<or> \<not> ci \<and> (\<exists>i \<in> arrived rest. \<not> res i)"
    by blast
  then show ?case
  proof cases
    case more
    from more(1) have "\<not> (\<not> (ok \<and> res i) \<and> \<not> ci)" by blast
    from "2.IH" [OF r refl refl this more(2) "2.prems"(1) C(3) fl more(3)] show ?thesis using r more(1,2) by auto
  qed (use r in auto)
next
  case (3 result ci timer n rest ok c flags)
  show ?case
  proof (cases timer)
    case False
    from "3.IH" [OF False "3.prems"(1) collecting_TimedOut [OF "3.prems"(2)] _ unset_last [OF "3.prems"(3,4)]] "3.prems"(5) False
    show ?thesis by simp
  qed auto
qed

text \<open>Without results the loop waits for ever.\<close>

lemma collect_waits:
  assumes "answers result n res" and "collecting n arr c K" and "flags \<noteq> []" "True \<notin> set flags"
    and "\<not> timer" "ok" "\<forall>i \<in> arrived arr. res i" and "n \<le> c \<longrightarrow> arrived arr = {}" "\<not> {..<n} \<subseteq> K \<union> arrived arr \<or> arrived arr = {}"
  shows "collect result ci timer n arr ok c flags = None"
  using assms
proof (induction result ci timer n arr ok c flags arbitrary: K rule: collect.induct)
  case (2 result ci timer n i rest ok c flags)
  note C = collecting_Result [OF "2.prems"(2)]
  have r: "result i flags = Some True" using answersD [OF "2.prems"(1) C(1) "2.prems"(3,4)] "2.prems"(7) C(4) by simp
  have all: "\<not> {..<n} \<subseteq> insert i K \<union> arrived rest" using "2.prems"(9) unfolding C(4) by auto
  then have "\<not> c + 1 \<ge> n" using C(5) by auto
  moreover from this have "collect result ci timer n rest (ok \<and> True) (c + 1) (flags @ [last flags]) = None"
    using "2.prems"(5-7) C(4) all
    by (intro "2.IH" [OF r refl refl _ _ "2.prems"(1) C(3) _ unset_last [OF "2.prems"(3,4)]]) auto
  ultimately show ?case using r "2.prems"(6) by simp
next
  case (3 result ci timer n rest ok c flags)
  have "collect result ci timer n rest ok c (flags @ [last flags]) = None"
    using "3.prems"(5-9)
    by (intro "3.IH" [OF _ "3.prems"(1) collecting_TimedOut [OF "3.prems"(2)] _ unset_last [OF "3.prems"(3,4)]]) auto
  then show ?case using "3.prems"(5) by simp
qed simp

section \<open>The verdict\<close>

text \<open>The partitions that \<open>model.Partition\<close> makes, and the comparison it uses.\<close>

definition parts :: "('i, 'o, 's) Model \<Rightarrow> ('i, 'o) Operation list \<Rightarrow> ('i, 'o) Operation list list" where
  "parts M ops = (case Partition M of None \<Rightarrow> [ops] | Some f \<Rightarrow> f ops)"

lemma fillDefault_simps [simp]:
  "Init (fillDefault dop dst M) = Init M" "Step (fillDefault dop dst M) = Step M"
  "Partition (fillDefault dop dst M) = Some (case Partition M of None \<Rightarrow> NoPartition | Some f \<Rightarrow> f)"
  "PartitionEvent (fillDefault dop dst M) = Some (case PartitionEvent M of None \<Rightarrow> NoPartitionEvent | Some f \<Rightarrow> f)"
  "Equal (fillDefault dop dst M) = Some (case Equal M of None \<Rightarrow> ShallowEqual | Some f \<Rightarrow> f)"
  "DescribeOperation (fillDefault dop dst M) = Some (case DescribeOperation M of None \<Rightarrow> dop | Some f \<Rightarrow> f)"
  "DescribeState (fillDefault dop dst M) = Some (case DescribeState M of None \<Rightarrow> dst | Some f \<Rightarrow> f)"
  by (auto simp: fillDefault_def Let_def split: option.splits)

lemma op_linearizable_fillDefault [simp]: "op_linearizable (fillDefault dop dst M) = op_linearizable M"
  by (simp add: op_linearizable_def fun_eq_iff)

lemma equal_ok_fillDefault: "Equal M = None \<or> equal_ok M \<Longrightarrow> equal_ok (fillDefault dop dst M)"
  by (auto simp: equal_ok_def ShallowEqual_def)

lemma mapM_goroutine:
  assumes "\<forall>H \<in> set Hs. \<exists>n. wf_history n H" and "equal_ok M"
  shows "\<exists>rs. mapM (\<lambda>i. goroutine M Hs ci seen i flags) [0..<length Hs] = Some rs \<and> length rs = length Hs
    \<and> (\<forall>i < length Hs. result_ok M (Hs ! i) (\<forall>r. \<not> flag_at flags (seen i r)) (rs ! i))"
proof -
  define rs where "rs = map (\<lambda>i. the (goroutine M Hs ci seen i flags)) [0..<length Hs]"
  have one: "goroutine M Hs ci seen i flags = Some (rs ! i)
      \<and> result_ok M (Hs ! i) (\<forall>r. \<not> flag_at flags (seen i r)) (rs ! i)" if i: "i < length Hs" for i
  proof -
    obtain n where "wf_history n (Hs ! i)" using assms(1) nth_mem [OF i] by blast
    from checkSingle_result [OF this assms(2), of ci "\<lambda>r. flag_at flags (seen i r)"] i show ?thesis
      by (auto simp: rs_def goroutine_def idx_def)
  qed
  have "map (\<lambda>i. goroutine M Hs ci seen i flags) [0..<length Hs] = map Some rs"
    using one by (intro nth_equalityI) (auto simp: rs_def)
  then have "mapM (\<lambda>i. goroutine M Hs ci seen i flags) [0..<length Hs] = Some rs"
    by (simp add: mapM_Some_iff)
  with one show ?thesis by (intro exI [of _ rs]) (simp add: rs_def)
qed

lemma flag_at_unset: "flags \<noteq> [] \<Longrightarrow> True \<notin> set flags \<Longrightarrow> \<not> flag_at flags k"
proof
  assume "flags \<noteq> []" "True \<notin> set flags" "flag_at flags k"
  moreover from this have "min k (length flags - 1) < length flags" by (cases flags) auto
  ultimately show False using nth_mem [of "min k (length flags - 1)" flags] by (simp add: flag_at_def)
qed

text \<open>As long as the flag is not set, a goroutine finds out whether its history is linearizable.\<close>

lemma goroutine_answers:
  assumes "\<forall>H \<in> set Hs. \<exists>n. wf_history n H" and "equal_ok M"
  shows "answers (\<lambda>i flags. map_option fst (goroutine M Hs ci seen i flags)) (length Hs) (\<lambda>i. linearizable M (Hs ! i))"
  unfolding answers_def
proof (intro allI impI, elim conjE)
  fix i and flags :: "bool list" assume i: "i < length Hs" and fl: "flags \<noteq> []" "True \<notin> set flags"
  obtain n where wf: "wf_history n (Hs ! i)" using assms(1) nth_mem [OF i] by blast
  from checkSingle_result [OF wf assms(2), of ci "\<lambda>r. flag_at flags (seen i r)"]
  obtain r where "checkSingle M (Hs ! i) ci (\<lambda>r. flag_at flags (seen i r)) = Some r"
    "result_ok M (Hs ! i) True r" using flag_at_unset [OF fl] by auto
  then show "map_option fst (goroutine M Hs ci seen i flags) = Some (linearizable M (Hs ! i))"
    using i wf linearizable_comp [of _ "Hs ! i" M] by (auto simp: goroutine_def idx_def result_ok_def split: prod.splits)
qed

lemma collecting_start: "arrivals_ok n arr \<Longrightarrow> collecting n arr 0 {}"
  by (simp add: collecting_def)

text \<open>The verdict with and without information and timer: only a timeout makes it unknown.\<close>

lemma checkParallel_verdict:
  assumes wf: "\<forall>H \<in> set Hs. \<exists>n. wf_history n H" and eq: "equal_ok M" and ne: "Hs \<noteq> []"
    and arr: "arrivals_ok (length Hs) arr"
  shows "case checkParallel iter arr seen M Hs ci timeout of
      None \<Rightarrow> \<not> {..<length Hs} \<subseteq> arrived arr
    | Some (res, _) \<Rightarrow> (res = Ok \<longrightarrow> (\<forall>H \<in> set Hs. linearizable M H))
        \<and> (res = Illegal \<longrightarrow> (\<exists>H \<in> set Hs. \<not> linearizable M H)) \<and> (res = Unknown \<longrightarrow> TimedOut \<in> set arr)"
proof -
  let ?res = "\<lambda>i. linearizable M (Hs ! i)"
  let ?c = "collect (\<lambda>i flags. map_option fst (goroutine M Hs ci seen i flags)) ci (timeout > 0) (length Hs) arr True 0 [False]"
  note A = goroutine_answers [OF wf eq, of ci seen] and C = collecting_start [OF arr]
  show ?thesis
  proof (cases ?c)
    case None
    then have "\<not> {..<length Hs} \<subseteq> arrived arr" using collect_returns [OF A C, of "[False]" ci "timeout > 0" True] ne by auto
    then show ?thesis using None by (simp add: checkParallel_def)
  next
    case (Some r)
    obtain ok c t flags where r: "r = (ok, c, t, flags)" by (cases r)
    have *: "(ok \<longrightarrow> \<not> t \<longrightarrow> (\<forall>i < length Hs. ?res i)) \<and> (\<not> ok \<longrightarrow> (\<exists>i \<in> {} \<union> arrived arr. \<not> ?res i))
      \<and> (t \<longrightarrow> timeout > 0 \<and> TimedOut \<in> set arr)"
      by (rule collect_sound [OF Some [unfolded r] A C]) auto
    have all: "(\<forall>i < length Hs. ?res i) \<longleftrightarrow> (\<forall>H \<in> set Hs. linearizable M H)" by (simp add: all_set_conv_all_nth)
    have "\<exists>H \<in> set Hs. \<not> linearizable M H" if "\<not> ok"
      using * that arr nth_mem unfolding arrivals_ok_def by blast
    moreover obtain rs where "mapM (\<lambda>i. goroutine M Hs ci seen i flags) [0..<length Hs] = Some rs"
      using mapM_goroutine [OF wf eq] by blast
    ultimately show ?thesis using Some r * all by (auto simp: checkParallel_def)
  qed
qed

lemma checkParallel_decides:
  assumes wf: "\<forall>H \<in> set Hs. \<exists>n. wf_history n H" and eq: "equal_ok M" and arr: "arrivals_ok (length Hs) arr"
  shows "map_option fst (checkParallel iter arr seen M Hs False 0) =
    (if \<exists>i \<in> arrived arr. \<not> linearizable M (Hs ! i) then Some Illegal
     else if Hs \<noteq> [] \<and> arrived arr = {..<length Hs} then Some Ok else None)"
proof -
  let ?res = "\<lambda>i. linearizable M (Hs ! i)"
  let ?c = "collect (\<lambda>i flags. map_option fst (goroutine M Hs False seen i flags)) False False (length Hs) arr True 0 [False]"
  note A = goroutine_answers [OF wf eq, of False seen] and C = collecting_start [OF arr]
  have sub: "arrived arr \<subseteq> {..<length Hs}" using arr by (simp add: arrivals_ok_def)
  have sound: "(ok \<longrightarrow> \<not> t \<longrightarrow> (\<forall>i < length Hs. ?res i)) \<and> (\<not> ok \<longrightarrow> (\<exists>i \<in> arrived arr. \<not> ?res i)) \<and> \<not> t"
    if "?c = Some (ok, c, t, flags)" for ok c t flags
    using collect_sound [OF that A C] by auto
  consider (bad) "\<exists>i \<in> arrived arr. \<not> ?res i" | (all) "\<forall>i \<in> arrived arr. ?res i" "Hs \<noteq> [] \<and> arrived arr = {..<length Hs}"
    | (wait) "\<forall>i \<in> arrived arr. ?res i" "\<not> (Hs \<noteq> [] \<and> arrived arr = {..<length Hs})" by blast
  then show ?thesis
  proof cases
    case bad
    then obtain ok c t flags where c: "?c = Some (ok, c, t, flags)"
      using collect_returns [OF A C, of "[False]" False False True] by auto
    then have "\<not> ok" using sound [OF c] bad sub by blast
    then show ?thesis using c bad by (simp add: checkParallel_def)
  next
    case all
    then obtain ok c t flags where c: "?c = Some (ok, c, t, flags)"
      using collect_returns [OF A C, of "[False]" False False True] by auto
    then have "ok" "\<not> t" using sound [OF c] all(1) by blast+
    then show ?thesis using c all by (simp add: checkParallel_def)
  next
    case wait
    have "?c = None"
      by (rule collect_waits [OF A C]) (use wait sub in auto)
    then show ?thesis using wait by (simp add: checkParallel_def)
  qed
qed

lemma CheckOperations_parts:
  assumes "sort_ok f" and "Equal M = None \<or> equal_ok M"
    and "\<forall>p \<in> set (parts M ops). \<forall>v \<in> set p. Call v \<le> Return v" and arr: "arrivals_ok (length (parts M ops)) arr"
  shows "CheckOperations dop dst f iter arr seen M ops =
    (if \<exists>i \<in> arrived arr. \<not> op_linearizable M (parts M ops ! i) then Some False
     else if parts M ops \<noteq> [] \<and> arrived arr = {..<length (parts M ops)} then Some True else None)"
proof -
  let ?M = "fillDefault dop dst M" and ?Hs = "map (makeEntries f) (parts M ops)"
  have "(case Partition M of None \<Rightarrow> NoPartition | Some f \<Rightarrow> f) ops = parts M ops"
    by (auto simp: parts_def NoPartition_def split: option.splits)
  then have run: "CheckOperations dop dst f iter arr seen M ops = map_option (\<lambda>r. r = Ok) (map_option fst (checkParallel iter arr seen ?M ?Hs False 0))"
    by (auto simp: CheckOperations_def checkOperations_def split: Option.bind_splits)
  have wf: "\<forall>H \<in> set ?Hs. \<exists>n. wf_history n H" using wf_makeEntries [OF assms(1)] assms(3) by fastforce
  have lin: "linearizable ?M (?Hs ! i) \<longleftrightarrow> op_linearizable M (parts M ops ! i)" if "i \<in> arrived arr" for i
  proof -
    have "i < length (parts M ops)" using that arr by (auto simp: arrivals_ok_def)
    then show ?thesis using linearizable_makeEntries [OF assms(1), of "parts M ops ! i" ?M] assms(3) nth_mem by fastforce
  qed
  have dec: "map_option fst (checkParallel iter arr seen ?M ?Hs False 0) =
    (if \<exists>i \<in> arrived arr. \<not> linearizable ?M (?Hs ! i) then Some Illegal
     else if ?Hs \<noteq> [] \<and> arrived arr = {..<length ?Hs} then Some Ok else None)"
    by (rule checkParallel_decides [OF wf equal_ok_fillDefault [OF assms(2)]]) (use arr in simp)
  show ?thesis unfolding run dec using lin by auto
qed

text \<open>
  C23. \<open>CheckOperations\<close> decides linearizability of the partitions of a history. Every operation
  returns no earlier than it is called, and the comparison of states is the default or one that the
  model respects. In whatever order results arrive, and whenever the goroutines look at the kill flag that
  the loop sets, the answer is no exactly if a result for a partition arrives that is not
  linearizable, and yes exactly if all results arrive and every partition is linearizable; otherwise
  the call waits. With no partition at all it waits for ever.
\<close>

theorem CheckOperations_correct:
  assumes "sort_ok f" and "Equal M = None \<or> equal_ok M"
    and "\<forall>p \<in> set (parts M ops). \<forall>v \<in> set p. Call v \<le> Return v" and "arrivals_ok (length (parts M ops)) arr"
  shows "CheckOperations dop dst f iter arr seen M ops =
    (if \<exists>i \<in> arrived arr. \<not> op_linearizable M (parts M ops ! i) then Some False
     else if parts M ops \<noteq> [] \<and> arrived arr = {..<length (parts M ops)} then Some True else None)"
  by (rule CheckOperations_parts [OF assms])

section \<open>The key-value store\<close>

lemma parts_KvModel:
  "parts KvModel ops = map (\<lambda>k. filter (\<lambda>v. op_key v = k) ops) (sorted_list_of_set (op_key ` set ops))"
  by (simp add: parts_def KvModel_def KvPartition_filters)

lemma op_linearizable_Nil: "op_linearizable M []"
  by (auto simp: op_linearizable_def linearization_def intro: exI [of _ "[]"])

lemma keys_independent:
  "(\<forall>i < card (op_key ` set ops). op_linearizable KvModel (parts KvModel ops ! i)) \<longleftrightarrow>
   (\<forall>k. op_linearizable KvModel (filter (\<lambda>v. op_key v = k) ops))"
proof -
  let ?on = "\<lambda>k. filter (\<lambda>v. op_key v = k) ops"
  have none: "op_linearizable KvModel (?on k)" if "k \<notin> op_key ` set ops" for k
  proof -
    have "?on k = []" using that by (auto simp: filter_empty_conv)
    then show ?thesis by (simp add: op_linearizable_Nil)
  qed
  have len: "length (parts KvModel ops) = card (op_key ` set ops)" by (simp add: parts_KvModel)
  have "set (parts KvModel ops) = ?on ` op_key ` set ops" by (simp add: parts_KvModel)
  then have "(\<forall>p \<in> set (parts KvModel ops). op_linearizable KvModel p) \<longleftrightarrow> (\<forall>k \<in> op_key ` set ops. op_linearizable KvModel (?on k))"
    by simp
  then show ?thesis using none unfolding all_set_conv_all_nth len by blast
qed

text \<open>
  C24. Checking a history of the key-value store. There is one partition, and so one goroutine, per key.
  When the results of all keys arrive, in whatever order and however the kill flag is read, and there is at
  least one operation, the answer is whether for every key the operations on it are linearizable:
  keys are independent, however the operations on them are mixed in the history. The answer for a
  history that is not linearizable does not need all results: one for such a key is enough. On an empty history
  there is no goroutine and the call waits for ever.
\<close>

theorem CheckOperations_kv:
  assumes "sort_ok f" and "\<forall>v \<in> set ops. Call v \<le> Return v" and "arrivals_ok (card (op_key ` set ops)) arr"
  shows "(ops \<noteq> [] \<and> arrived arr = {..<card (op_key ` set ops)} \<longrightarrow> CheckOperations dop dst f iter arr seen KvModel ops =
      Some (\<forall>k. op_linearizable KvModel (filter (\<lambda>v. op_key v = k) ops)))
    \<and> (\<forall>i \<in> arrived arr. \<not> op_linearizable KvModel (filter (\<lambda>v. op_key v = sorted_list_of_set (op_key ` set ops) ! i) ops) \<longrightarrow>
      CheckOperations dop dst f iter arr seen KvModel ops = Some False)
    \<and> (ops = [] \<longrightarrow> CheckOperations dop dst f iter arr seen KvModel ops = None)"
proof -
  have len: "length (parts KvModel ops) = card (op_key ` set ops)" by (simp add: parts_KvModel)
  have run: "CheckOperations dop dst f iter arr seen KvModel ops =
    (if \<exists>i \<in> arrived arr. \<not> op_linearizable KvModel (parts KvModel ops ! i) then Some False
     else if parts KvModel ops \<noteq> [] \<and> arrived arr = {..<length (parts KvModel ops)} then Some True else None)"
  proof (rule CheckOperations_parts [OF assms(1)])
    show "Equal KvModel = None \<or> equal_ok KvModel" by (simp add: KvModel_def)
    show "\<forall>p \<in> set (parts KvModel ops). \<forall>v \<in> set p. Call v \<le> Return v"
      using assms(2) by (auto simp: parts_KvModel)
    show "arrivals_ok (length (parts KvModel ops)) arr" using assms(3) len by simp
  qed
  have ne: "parts KvModel ops \<noteq> [] \<longleftrightarrow> ops \<noteq> []" using len by (cases ops) (auto simp: parts_KvModel)
  have nth: "parts KvModel ops ! i = filter (\<lambda>v. op_key v = sorted_list_of_set (op_key ` set ops) ! i) ops" if "i \<in> arrived arr" for i
    using that assms(3) by (auto simp: parts_KvModel arrivals_ok_def)
  show ?thesis
  proof (intro conjI impI ballI)
    assume all: "ops \<noteq> [] \<and> arrived arr = {..<card (op_key ` set ops)}"
    have "(\<exists>i \<in> arrived arr. \<not> op_linearizable KvModel (parts KvModel ops ! i)) \<longleftrightarrow>
        \<not> (\<forall>k. op_linearizable KvModel (filter (\<lambda>v. op_key v = k) ops))"
      unfolding keys_independent [symmetric] using all by auto
    then show "CheckOperations dop dst f iter arr seen KvModel ops = Some (\<forall>k. op_linearizable KvModel (filter (\<lambda>v. op_key v = k) ops))"
      unfolding run using all ne len by simp
  next
    fix i assume i: "i \<in> arrived arr" "\<not> op_linearizable KvModel (filter (\<lambda>v. op_key v = sorted_list_of_set (op_key ` set ops) ! i) ops)"
    then show "CheckOperations dop dst f iter arr seen KvModel ops = Some False" unfolding run nth [OF i(1), symmetric] by auto
  next
    assume "ops = []"
    then show "CheckOperations dop dst f iter arr seen KvModel ops = None"
      unfolding run using assms(3) ne by (auto simp: arrivals_ok_def)
  qed
qed

section \<open>Examples\<close>

text \<open>A sorting function as \<open>sort.Sort\<close> promises it, and a history of three operations on two keys.\<close>

definition sample_sort :: "('i, 'o) entry list \<Rightarrow> ('i, 'o) entry list" where
  "sample_sort = sort_key (\<lambda>e. 2 * e_time e + (if e_kind e = returnEntry then 1 else 0))"

lemma sample_sort_ok: "sort_ok sample_sort"
proof -
  let ?key = "\<lambda>e :: ('a, 'b) entry. 2 * e_time e + (if e_kind e = returnEntry then 1 else 0)"
  have less: "byTime_Less b a \<longleftrightarrow> ?key b < ?key a" for a b :: "('a, 'b) entry"
    by (cases "e_kind a"; cases "e_kind b") (auto simp: byTime_Less_def)
  have "sorted_wrt (\<lambda>a b. ?key a \<le> ?key b) (sort_key ?key es)" for es
    using sorted_sort_key [of ?key es] by (simp add: sorted_map)
  then show ?thesis by (simp add: sort_ok_def sample_sort_def less not_less)
qed

definition kv_put :: "string \<Rightarrow> string \<Rightarrow> int \<Rightarrow> int \<Rightarrow> kv_op" where
  "kv_put k v c r = \<lparr>ClientId = 0, Input = \<lparr>Op = 1, Key = k, kvValue = v\<rparr>, Call = c,
     Output = \<lparr>koValue = ''''\<rparr>, Return = r\<rparr>"

definition kv_get :: "string \<Rightarrow> string \<Rightarrow> int \<Rightarrow> int \<Rightarrow> kv_op" where
  "kv_get k v c r = \<lparr>ClientId = 1, Input = \<lparr>Op = 0, Key = k, kvValue = ''''\<rparr>, Call = c,
     Output = \<lparr>koValue = v\<rparr>, Return = r\<rparr>"

definition ex_history :: "kv_op list" where
  "ex_history = [kv_put ''x'' ''1'' 0 10, kv_get ''x'' ''1'' 5 20, kv_get ''y'' '''' 1 2]"

definition ex_entries_x :: "(KvInput, KvOutput) entry list" where
  "ex_entries_x = makeEntries sample_sort [kv_put ''x'' ''1'' 0 10, kv_get ''x'' ''1'' 5 20]"

abbreviation kv_model :: "(KvInput, KvOutput, string) Model" where
  "kv_model \<equiv> fillDefault (\<lambda>_ _. '''') (\<lambda>st. st) KvModel"

theorem checkSingle_decides_witness:
  "\<exists>ok longest. checkSingle kv_model ex_entries_x True (\<lambda>_. False) = Some (ok, longest)
     \<and> ok = linearizable kv_model ex_entries_x"
proof -
  have "wf_history (length [kv_put ''x'' ''1'' 0 10, kv_get ''x'' ''1'' 5 20]) ex_entries_x"
    unfolding ex_entries_x_def by (rule wf_makeEntries [OF sample_sort_ok]) (simp add: kv_put_def kv_get_def)
  moreover have "equal_ok kv_model" by (intro equal_ok_fillDefault) (simp add: KvModel_def)
  ultimately show ?thesis
    using checkSingle_decides [of _ ex_entries_x kv_model True "\<lambda>_. False"] by blast
qed

lemma ex_keys: "op_key ` set ex_history = {''x'', ''y''}"
  by (auto simp: ex_history_def kv_put_def kv_get_def)

lemma ex_times: "\<forall>v \<in> set ex_history. Call v \<le> Return v"
  by (simp add: ex_history_def kv_put_def kv_get_def)

lemma ex_arrivals: "arrivals_ok 2 [Result 1, Result 0]" "arrived [Result 1, Result 0] = {..<2}"
  "TimedOut \<notin> set [Result 1, Result 0]"
  by (auto simp: arrivals_ok_def arrived_def)

theorem CheckOperations_correct_witness:
  "CheckOperations (\<lambda>_ _. []) (\<lambda>st. st) sample_sort (\<lambda>xs. xs) [Result 1, Result 0] (\<lambda>_ r. r) KvModel ex_history
     = (if \<exists>i \<in> arrived [Result 1, Result 0]. \<not> op_linearizable KvModel (parts KvModel ex_history ! i) then Some False
        else if parts KvModel ex_history \<noteq> [] \<and> arrived [Result 1, Result 0] = {..<length (parts KvModel ex_history)} then Some True else None)"
proof (rule CheckOperations_correct [OF sample_sort_ok])
  have two: "length (parts KvModel ex_history) = 2" by (simp add: parts_KvModel ex_keys)
  show "arrivals_ok (length (parts KvModel ex_history)) [Result 1, Result 0]"
    unfolding two by (rule ex_arrivals)
  show "\<forall>p \<in> set (parts KvModel ex_history). \<forall>v \<in> set p. Call v \<le> Return v"
    using ex_times by (auto simp: parts_KvModel)
qed (auto simp: KvModel_def)

theorem CheckOperations_kv_witness:
  "CheckOperations (\<lambda>_ _. []) (\<lambda>st. st) sample_sort (\<lambda>xs. xs) [Result 1, Result 0] (\<lambda>_ r. r) KvModel ex_history
     = Some (\<forall>k. op_linearizable KvModel (filter (\<lambda>v. op_key v = k) ex_history))"
proof -
  have two: "card (op_key ` set ex_history) = 2" by (simp add: ex_keys)
  have "arrivals_ok (card (op_key ` set ex_history)) [Result 1, Result 0]"
    "arrived [Result 1, Result 0] = {..<card (op_key ` set ex_history)}"
    unfolding two by (rule ex_arrivals)+
  moreover have "ex_history \<noteq> []" by (simp add: ex_history_def)
  ultimately show ?thesis
    using CheckOperations_kv [OF sample_sort_ok ex_times, of "[Result 1, Result 0]" "\<lambda>_ _. []" "\<lambda>st. st" "\<lambda>xs. xs" "\<lambda>_ r. r"] by blast
qed

end
