(* ===== verification/GoText.thy ===== *)
theory GoText
  imports Prelude "HOL-Library.List_Lexorder" "HOL-Library.Char_ord"
begin

text \<open>
  Strings of Go as the modelled code uses them. A string is its sequence of bytes, and \<open><\<close> on strings
  compares bytes from the left, as the lexicographic order on \<open>string\<close> does here.
  \<open>digits\<close> and \<open>itoa\<close> are \<open>strconv.Itoa\<close> and the verb \<open>%d\<close>; \<open>strings_join\<close> is \<open>strings.Join\<close>.
\<close>

definition newline :: string where
  "newline = [CHR 0x0A]"

definition digit :: "nat \<Rightarrow> char" where
  "digit d = char_of (48 + d)"

fun digits :: "nat \<Rightarrow> string" where
  "digits n = (if n < 10 then [digit n] else digits (n div 10) @ [digit (n mod 10)])"

declare digits.simps [simp del]

definition itoa :: "int \<Rightarrow> string" where
  "itoa i = (if i < 0 then ''-'' @ digits (nat (- i)) else digits (nat i))"

fun strings_join :: "string list \<Rightarrow> string \<Rightarrow> string" where
  "strings_join [] sep = []"
| "strings_join [s] sep = s"
| "strings_join (s # t # ss) sep = s @ sep @ strings_join (t # ss) sep"

section \<open>Numbers are read back\<close>

definition undigits :: "string \<Rightarrow> nat" where
  "undigits s = foldl (\<lambda>n c. 10 * n + (of_char c - 48)) 0 s"

lemma of_char_digit: "d < 10 \<Longrightarrow> of_char (digit d) = 48 + d"
  by (simp add: digit_def)

lemma undigits_digits [simp]: "undigits (digits n) = n"
proof (induction n rule: digits.induct)
  case (1 n)
  show ?case
  proof (cases "n < 10")
    case True
    then show ?thesis by (subst digits.simps) (simp add: undigits_def of_char_digit)
  next
    case False
    then show ?thesis using 1
      by (subst digits.simps) (simp add: undigits_def of_char_digit)
  qed
qed

lemma digits_inject [simp]: "digits m = digits n \<longleftrightarrow> m = n"
  by (metis undigits_digits)

lemma digits_range: "c \<in> set (digits n) \<Longrightarrow> 48 \<le> (of_char c :: nat) \<and> (of_char c :: nat) < 58"
proof (induction n rule: digits.induct)
  case (1 n)
  show ?case
  proof (cases "n < 10")
    case True
    then show ?thesis using "1.prems" by (subst (asm) digits.simps) (simp add: of_char_digit)
  next
    case False
    then have "digits n = digits (n div 10) @ [digit (n mod 10)]" by (subst digits.simps) simp
    with False 1 show ?thesis by (auto simp: of_char_digit)
  qed
qed

lemma minus_not_digit: "CHR ''-'' \<notin> set (digits n)"
  using digits_range [of "CHR ''-''" n] by auto

lemma digits_nonempty [simp]: "digits n \<noteq> []"
  by (subst digits.simps) simp

lemma itoa_inject [simp]: "itoa i = itoa j \<longleftrightarrow> i = j"
proof -
  have "''-'' @ digits m \<noteq> digits n" for m n
    using minus_not_digit [of n] by (metis append_Cons list.set_intros(1))
  then show ?thesis by (auto simp: itoa_def dest: sym)
qed

text \<open>Two numbers separated by a minus sign are read back.\<close>

lemma digits_minus_inject:
  "digits a @ CHR ''-'' # digits b = digits c @ CHR ''-'' # digits d \<longleftrightarrow> a = c \<and> b = d"
proof
  assume eq: "digits a @ CHR ''-'' # digits b = digits c @ CHR ''-'' # digits d"
  have tw: "takeWhile (\<lambda>c. c \<noteq> CHR ''-'') (digits m @ CHR ''-'' # s) = digits m" for m s
    using minus_not_digit by (subst takeWhile_append2) auto
  from arg_cong [OF eq, of "takeWhile (\<lambda>c. c \<noteq> CHR ''-'')"] have "a = c" by (simp add: tw)
  with eq show "a = c \<and> b = d" by simp
qed simp

section \<open>UTF-8 and fields\<close>

text \<open>
  \<open>utf8.DecodeRune\<close>: the first rune of a non-empty string and the number of its bytes; a byte that
  starts no valid encoding is \<open>RuneError\<close> of width one.
\<close>

definition RuneError :: nat where
  "RuneError = 0xFFFD"

definition byte_at :: "string \<Rightarrow> nat \<Rightarrow> nat" where
  "byte_at s i = (if i < length s then of_char (s ! i) else 0)"

definition contbyte :: "nat \<Rightarrow> bool" where
  "contbyte b \<longleftrightarrow> 0x80 \<le> b \<and> b \<le> 0xBF"

definition DecodeRune :: "string \<Rightarrow> nat \<times> nat" where
  "DecodeRune s =
     (let b0 = byte_at s 0; b1 = byte_at s 1; b2 = byte_at s 2; b3 = byte_at s 3 in
      if b0 < 0x80 then (b0, 1)
      else if 0xC2 \<le> b0 \<and> b0 \<le> 0xDF \<and> contbyte b1 then ((b0 - 0xC0) * 64 + (b1 - 0x80), 2)
      else if 0xE0 \<le> b0 \<and> b0 \<le> 0xEF \<and> contbyte b1 \<and> contbyte b2
        \<and> (b0 = 0xE0 \<longrightarrow> 0xA0 \<le> b1) \<and> (b0 = 0xED \<longrightarrow> b1 \<le> 0x9F)
      then ((b0 - 0xE0) * 4096 + (b1 - 0x80) * 64 + (b2 - 0x80), 3)
      else if 0xF0 \<le> b0 \<and> b0 \<le> 0xF4 \<and> contbyte b1 \<and> contbyte b2 \<and> contbyte b3
        \<and> (b0 = 0xF0 \<longrightarrow> 0x90 \<le> b1) \<and> (b0 = 0xF4 \<longrightarrow> b1 \<le> 0x8F)
      then ((b0 - 0xF0) * 262144 + (b1 - 0x80) * 4096 + (b2 - 0x80) * 64 + (b3 - 0x80), 4)
      else (RuneError, 1))"

lemma DecodeRune_width:
  assumes "s \<noteq> []"
  shows "0 < snd (DecodeRune s) \<and> snd (DecodeRune s) \<le> length s"
proof -
  have c: "contbyte (byte_at s i) \<longrightarrow> i < length s" for i
    by (auto simp: contbyte_def byte_at_def)
  have "0 < length s" using assms by simp
  moreover have branch: "0 < snd (if b then x else y) \<and> snd (if b then x else y) \<le> length s"
    if "b \<Longrightarrow> 0 < snd x \<and> snd x \<le> length s" and "\<not> b \<Longrightarrow> 0 < snd y \<and> snd y \<le> length s" for b and x y :: "nat \<times> nat"
    using that by simp
  ultimately show ?thesis
    using c [of 1] c [of 2] c [of 3] unfolding DecodeRune_def Let_def by (intro branch) (simp_all add: Suc_le_eq)
qed

text \<open>\<open>for i, r := range s\<close>: the runes of a string, each with the bytes it takes.\<close>

function runes :: "string \<Rightarrow> (nat \<times> string) list" where
  "runes s =
     (if s = [] then []
      else let (r, w) = DecodeRune s in (r, take w s) # runes (drop w s))"
  by pat_completeness auto
termination
proof (relation "measure length", goal_cases)
  case (2 s p r w)
  then have "0 < w" "w \<le> length s" using DecodeRune_width [of s] by (metis snd_conv)+
  then show ?case by simp
qed simp

declare runes.simps [simp del]

lemma runes_bytes: "concat (map snd (runes s)) = s"
proof (induction s rule: runes.induct)
  case (1 s)
  show ?case
  proof (cases "s = []")
    case False
    then show ?thesis using 1 by (subst runes.simps) (auto split: prod.splits)
  qed (simp add: runes.simps)
qed

text \<open>\<open>strings.FieldsFunc\<close>: \<open>cur\<close> is the field that is open, if one is.\<close>

fun fields_loop :: "(nat \<Rightarrow> bool) \<Rightarrow> (nat \<times> string) list \<Rightarrow> string option \<Rightarrow> string list" where
  "fields_loop f [] cur = (case cur of None \<Rightarrow> [] | Some w \<Rightarrow> [w])"
| "fields_loop f ((r, bytes) # rs) cur =
     (if f r then (case cur of None \<Rightarrow> fields_loop f rs None | Some w \<Rightarrow> w # fields_loop f rs None)
      else fields_loop f rs (Some (case cur of None \<Rightarrow> bytes | Some w \<Rightarrow> w @ bytes)))"

definition FieldsFunc :: "string \<Rightarrow> (nat \<Rightarrow> bool) \<Rightarrow> string list" where
  "FieldsFunc s f = fields_loop f (runes s) None"

lemma fields_loop_concat:
  "concat (fields_loop f rs cur) = (case cur of None \<Rightarrow> [] | Some w \<Rightarrow> w) @ concat (map snd (filter (\<lambda>x. \<not> f (fst x)) rs))"
  by (induction f rs cur rule: fields_loop.induct) (auto split: option.splits)

lemma runes_nonempty: "\<forall>x \<in> set (runes s). snd x \<noteq> []"
proof (induction s rule: runes.induct)
  case (1 s)
  show ?case
  proof (cases "s = []")
    case False
    obtain r w where rw: "DecodeRune s = (r, w)" by (cases "DecodeRune s")
    with False DecodeRune_width [of s] have "0 < w" by simp
    with False rw 1 show ?thesis by (subst runes.simps) simp
  qed (simp add: runes.simps)
qed

lemma fields_loop_nonempty:
  "\<forall>x \<in> set rs. snd x \<noteq> [] \<Longrightarrow> cur \<noteq> Some [] \<Longrightarrow> [] \<notin> set (fields_loop f rs cur)"
  by (induction f rs cur rule: fields_loop.induct) (auto split: option.splits)

text \<open>No field is empty, and together the fields are the runes that are no separators.\<close>

lemma FieldsFunc_fields:
  "[] \<notin> set (FieldsFunc s f)" "concat (FieldsFunc s f) = concat (map snd (filter (\<lambda>x. \<not> f (fst x)) (runes s)))"
  unfolding FieldsFunc_def
  by (rule fields_loop_nonempty [OF runes_nonempty]) (simp_all add: fields_loop_concat)

end
