(* ===== verification/MRWorker.thy ===== *)
theory MRWorker
  imports GoText
begin

unbundle bit_operations_syntax

text \<open>
  The MapReduce worker, \<open>src/src/mr/worker.go\<close>, and the sequential program it must agree with,
  \<open>src/src/main/mrsequential.go\<close>.

  Files are a map from absolute paths to contents; a relative name is looked up in the working directory
  (\<open>abs_path\<close>). Names and the working directory are taken to be clean (no \<open>.\<close>, \<open>..\<close> or doubled separators) and
  no links are followed, so a file has one absolute path. \<open>log.Fatal\<close> and run-time panics are \<open>None\<close>. Arguments stand
  for what is not in the repository: the application (\<open>mapf\<close>, \<open>reducef\<close>), \<open>encoding/json\<close> (a record
  \<open>json\<close>), \<open>sort.Sort\<close> (which is not stable), the working directory, and the names \<open>ioutil.TempFile\<close>
  picks (\<open>None\<close> when it fails). The RPCs to the master are not part of a task: \<open>mapper\<close> and \<open>reducer\<close>
  return the task that the worker then reports.
\<close>

section \<open>Data\<close>

record KeyValue =
  kvKey :: string
  kvVal :: string

datatype State = Map | Reduce | Exit | Wait

record Task =
  tInput :: string
  TaskState :: State
  NReducer :: int
  TaskNumber :: int
  tIntermediates :: "string list"
  tOutput :: string

type_synonym files = "string \<Rightarrow> string option"

text \<open>
  What one encoder writes for a value, and the values a decoder finds until its first error.
  \<open>encoding/json\<close> gives back strings that are valid UTF-8 unchanged: \<open>jvalid\<close>.
\<close>

record json =
  jenc :: "KeyValue \<Rightarrow> string"
  jdec :: "string \<Rightarrow> KeyValue list"
  jvalid :: "KeyValue \<Rightarrow> bool"

definition json_ok :: "json \<Rightarrow> bool" where
  "json_ok J \<longleftrightarrow> (\<forall>kvs. (\<forall>kv \<in> set kvs. jvalid J kv) \<longrightarrow> jdec J (concat (map (jenc J) kvs)) = kvs)"

section \<open>Hashing\<close>

text \<open>\<open>fnv.New32a\<close>: the 32-bit FNV-1a hash.\<close>

definition fnv32a :: "string \<Rightarrow> 32 word" where
  "fnv32a s = fold (\<lambda>c h. (h XOR of_char c) * 16777619) s 2166136261"

definition ihash :: "string \<Rightarrow> int" where
  "ihash key = uint (fnv32a key AND 0x7fffffff)"

text \<open>\<open>ByKey.Less\<close>.\<close>

definition ByKey_Less :: "KeyValue \<Rightarrow> KeyValue \<Rightarrow> bool" where
  "ByKey_Less a b \<longleftrightarrow> kvKey a < kvKey b"

section \<open>Files\<close>

text \<open>\<open>filepath.Join\<close> of a clean directory and a file name.\<close>

definition path_join :: "string \<Rightarrow> string \<Rightarrow> string" where
  "path_join dir name = dir @ ''/'' @ name"

text \<open>What the operating system makes of a name. \<open>os.Getwd\<close> gives an absolute path; the root is the empty string.\<close>

definition is_abs :: "string \<Rightarrow> bool" where
  "is_abs p \<longleftrightarrow> p \<noteq> [] \<and> hd p = CHR ''/''"

definition rooted :: "string \<Rightarrow> bool" where
  "rooted dir \<longleftrightarrow> dir = [] \<or> is_abs dir"

definition abs_path :: "string \<Rightarrow> string \<Rightarrow> string" where
  "abs_path dir p = (if is_abs p then p else path_join dir p)"

lemma abs_path_join [simp]: "rooted dir \<Longrightarrow> abs_path dir (path_join dir name) = path_join dir name"
  by (cases dir) (auto simp: abs_path_def is_abs_def rooted_def path_join_def)

lemma abs_path_mr [simp]: "abs_path dir (CHR ''m'' # name) = path_join dir (CHR ''m'' # name)"
  by (simp add: abs_path_def is_abs_def)

text \<open>\<open>os.Rename\<close>; if the source is missing nothing happens, and the code ignores the error.\<close>

definition os_rename :: "string \<Rightarrow> string \<Rightarrow> files \<Rightarrow> files" where
  "os_rename old new fs = (case fs old of None \<Rightarrow> fs | Some c \<Rightarrow> (fs(old := None))(new \<mapsto> c))"

definition writeToLocalFile ::
  "json \<Rightarrow> string \<Rightarrow> string option \<Rightarrow> int \<Rightarrow> int \<Rightarrow> KeyValue list \<Rightarrow> files \<Rightarrow> (files \<times> string) option" where
  "writeToLocalFile J dir tempFile x y kvs fs = do {
     tmp \<leftarrow> tempFile;
     let fs = fs(tmp \<mapsto> concat (map (jenc J) kvs));
     let outputName = ''mr-'' @ itoa x @ ''-'' @ itoa y;
     let fs = os_rename tmp (abs_path dir outputName) fs;
     Some (fs, path_join dir outputName)
   }"

fun readFromLocalFile :: "json \<Rightarrow> string \<Rightarrow> files \<Rightarrow> string list \<Rightarrow> KeyValue list option" where
  "readFromLocalFile J dir fs [] = Some []"
| "readFromLocalFile J dir fs (file # rest) = do {
     content \<leftarrow> fs (abs_path dir file);
     kva \<leftarrow> readFromLocalFile J dir fs rest;
     Some (jdec J content @ kva)
   }"

section \<open>Map tasks\<close>

fun mapper_buffer :: "int \<Rightarrow> KeyValue list \<Rightarrow> KeyValue list list \<Rightarrow> KeyValue list list option" where
  "mapper_buffer n [] buffer = Some buffer"
| "mapper_buffer n (kv # kvs) buffer =
     (if n = 0 then None
      else do {
        let slot = ihash (kvKey kv) mod n;
        old \<leftarrow> idx buffer slot;
        buffer \<leftarrow> idx_upd buffer slot (old @ [kv]);
        mapper_buffer n kvs buffer
      })"

fun mapper_write ::
  "json \<Rightarrow> string \<Rightarrow> (int \<Rightarrow> string option) \<Rightarrow> int \<Rightarrow> KeyValue list list \<Rightarrow> int \<Rightarrow> files \<Rightarrow> (files \<times> string list) option" where
  "mapper_write J dir temps x [] i fs = Some (fs, [])"
| "mapper_write J dir temps x (b # bs) i fs = do {
     (fs, out) \<leftarrow> writeToLocalFile J dir (temps i) x i b fs;
     (fs, outs) \<leftarrow> mapper_write J dir temps x bs (i + 1) fs;
     Some (fs, out # outs)
   }"

definition mapper ::
  "json \<Rightarrow> string \<Rightarrow> (int \<Rightarrow> string option) \<Rightarrow> (string \<Rightarrow> string \<Rightarrow> KeyValue list) \<Rightarrow> Task \<Rightarrow> files \<Rightarrow> (files \<times> Task) option" where
  "mapper J dir temps mapf task fs = do {
     content \<leftarrow> fs (abs_path dir (tInput task));
     let intermediates = mapf (tInput task) content;
     if NReducer task < 0 then None
     else do {
       buffer \<leftarrow> mapper_buffer (NReducer task) intermediates (replicate (nat (NReducer task)) []);
       (fs, mapOutput) \<leftarrow> mapper_write J dir temps (TaskNumber task) buffer 0 fs;
       Some (fs, task\<lparr>tIntermediates := mapOutput\<rparr>)
     }
   }"

section \<open>Reduce tasks\<close>

text \<open>The inner loop: the end \<open>j\<close> of the run of entries with the key of entry \<open>i\<close>.\<close>

function run_end :: "KeyValue list \<Rightarrow> nat \<Rightarrow> nat \<Rightarrow> nat" where
  "run_end kvs i j =
     (if j < length kvs \<and> kvKey (kvs ! j) = kvKey (kvs ! i) then run_end kvs i (Suc j) else j)"
  by pat_completeness auto
termination by (relation "measure (\<lambda>(kvs, i, j). length kvs - j)") auto

declare run_end.simps [simp del]

lemma run_end_ge: "j \<le> run_end kvs i j"
  by (induction kvs i j rule: run_end.induct) (subst run_end.simps, auto)

definition out_line :: "string \<Rightarrow> string \<Rightarrow> string" where
  "out_line key output = key @ '' '' @ output @ newline"

text \<open>The outer loop; the result is the list of lines it prints.\<close>

function reduce_loop :: "(string \<Rightarrow> string list \<Rightarrow> string) \<Rightarrow> KeyValue list \<Rightarrow> nat \<Rightarrow> string list" where
  "reduce_loop reducef kvs i =
     (if i < length kvs
      then let j = run_end kvs i (i + 1);
               values = map (\<lambda>k. kvVal (kvs ! k)) [i..<j]
           in out_line (kvKey (kvs ! i)) (reducef (kvKey (kvs ! i)) values) # reduce_loop reducef kvs j
      else [])"
  by pat_completeness auto
termination
proof (relation "measure (\<lambda>(f, kvs, i). length kvs - i)", goal_cases)
  case (2 f kvs i j vals)
  then show ?case using run_end_ge [of "i + 1" kvs i] by auto
qed simp

declare reduce_loop.simps [simp del]

definition reducer ::
  "json \<Rightarrow> (KeyValue list \<Rightarrow> KeyValue list) \<Rightarrow> string \<Rightarrow> string option \<Rightarrow> (string \<Rightarrow> string list \<Rightarrow> string) \<Rightarrow> Task \<Rightarrow> files
     \<Rightarrow> (files \<times> Task) option" where
  "reducer J sort_ByKey dir tempFile reducef task fs = do {
     kva \<leftarrow> readFromLocalFile J dir fs (tIntermediates task);
     let intermediate = sort_ByKey kva;
     tmp \<leftarrow> tempFile;
     let fs = fs(tmp \<mapsto> concat (reduce_loop reducef intermediate 0));
     let oname = ''mr-out-'' @ itoa (TaskNumber task);
     let fs = os_rename tmp (abs_path dir oname) fs;
     Some (fs, task\<lparr>tOutput := oname\<rparr>)
   }"

section \<open>The sequential program\<close>

fun sequential_map ::
  "string \<Rightarrow> (string \<Rightarrow> string \<Rightarrow> KeyValue list) \<Rightarrow> files \<Rightarrow> string list \<Rightarrow> KeyValue list option" where
  "sequential_map dir mapf fs [] = Some []"
| "sequential_map dir mapf fs (filename # rest) = do {
     content \<leftarrow> fs (abs_path dir filename);
     kva \<leftarrow> sequential_map dir mapf fs rest;
     Some (mapf filename content @ kva)
   }"

text \<open>Its loops are written out in \<open>mrsequential.go\<close> a second time.\<close>

function seq_run_end :: "KeyValue list \<Rightarrow> nat \<Rightarrow> nat \<Rightarrow> nat" where
  "seq_run_end kvs i j =
     (if j < length kvs \<and> kvKey (kvs ! j) = kvKey (kvs ! i) then seq_run_end kvs i (Suc j) else j)"
  by pat_completeness auto
termination by (relation "measure (\<lambda>(kvs, i, j). length kvs - j)") auto

declare seq_run_end.simps [simp del]

lemma seq_run_end_ge: "j \<le> seq_run_end kvs i j"
  by (induction kvs i j rule: seq_run_end.induct) (subst seq_run_end.simps, auto)

function seq_reduce_loop :: "(string \<Rightarrow> string list \<Rightarrow> string) \<Rightarrow> KeyValue list \<Rightarrow> nat \<Rightarrow> string list" where
  "seq_reduce_loop reducef kvs i =
     (if i < length kvs
      then let j = seq_run_end kvs i (i + 1);
               values = map (\<lambda>k. kvVal (kvs ! k)) [i..<j];
               output = reducef (kvKey (kvs ! i)) values
           in (kvKey (kvs ! i) @ '' '' @ output @ newline) # seq_reduce_loop reducef kvs j
      else [])"
  by pat_completeness auto
termination
proof (relation "measure (\<lambda>(f, kvs, i). length kvs - i)", goal_cases)
  case (2 f kvs i j vals out)
  then show ?case using seq_run_end_ge [of "i + 1" kvs i] by auto
qed simp

declare seq_reduce_loop.simps [simp del]

definition mrsequential ::
  "(KeyValue list \<Rightarrow> KeyValue list) \<Rightarrow> string \<Rightarrow> (string \<Rightarrow> string \<Rightarrow> KeyValue list) \<Rightarrow> (string \<Rightarrow> string list \<Rightarrow> string)
     \<Rightarrow> string list \<Rightarrow> files \<Rightarrow> files option" where
  "mrsequential sort_ByKey dir mapf reducef inputs fs = do {
     kva \<leftarrow> sequential_map dir mapf fs inputs;
     let intermediate = sort_ByKey kva;
     Some (fs(abs_path dir ''mr-out-0'' \<mapsto> concat (seq_reduce_loop reducef intermediate 0)))
   }"

end
