(* ===== verification/MRCorrect.thy ===== *)
theory MRCorrect
  imports MRWorker "HOL-Library.Multiset"
begin

text \<open>
  The MapReduce worker computes what the sequential program computes. The lines that a reduce task
  prints depend only on the multiset of pairs it reads; the map tasks split the pairs of all files
  by the hash of their key among the reduce tasks; so every line of \<open>mrsequential\<close> is printed by exactly
  one of them.
\<close>

section \<open>Hashing\<close>

text \<open>The 32-bit FNV-1a hash of a sequence of bytes, on natural numbers.\<close>

definition fnv1a :: "nat list \<Rightarrow> nat" where
  "fnv1a bs = foldl (\<lambda>h b. (h XOR b) * 16777619 mod 2 ^ 32) 2166136261 bs"

lemma unat_of_char: "unat (of_char c :: 32 word) = of_char c"
proof -
  have "(of_char c :: 32 word) = of_nat (of_char c)" by (simp add: of_nat_of_char)
  moreover have "(of_char c :: nat) < 2 ^ 32" by (rule less_trans [OF nat_of_char_less_256]) simp
  ultimately show ?thesis by (simp add: unsigned_of_nat take_bit_nat_eq_self)
qed

lemma unat_fnv32a: "unat (fnv32a s) = fnv1a (map of_char s)"
proof -
  have "unat (fold (\<lambda>c h. (h XOR of_char c) * 16777619) s (h :: 32 word))
      = foldl (\<lambda>h b. (h XOR b) * 16777619 mod 2 ^ 32) (unat h) (map of_char s)" for h
  proof (induction s arbitrary: h)
    case (Cons c s)
    have "unat ((h XOR of_char c) * 16777619) = (unat h XOR of_char c) * 16777619 mod 2 ^ 32"
      by (simp add: unat_word_ariths unsigned_xor_eq unat_of_char)
    with Cons show ?case by simp
  qed simp
  from this [of 2166136261] show ?thesis by (simp add: fnv32a_def fnv1a_def)
qed

lemma ihash_fnv1a: "ihash key = int (fnv1a (map of_char key) mod 2 ^ 31)"
proof -
  have "(0x7fffffff :: 32 word) = mask 31" by (simp add: mask_eq_exp_minus_1)
  then have "uint (fnv32a key AND 0x7fffffff) = take_bit 31 (uint (fnv32a key))"
    by (simp only: take_bit_eq_mask [symmetric] unsigned_take_bit_eq)
  also have "\<dots> = int (fnv1a (map of_char key) mod 2 ^ 31)"
    by (simp add: take_bit_eq_mod zmod_int flip: unat_fnv32a)
  finally show ?thesis by (simp add: ihash_def)
qed

section \<open>Groups of equal keys\<close>

function groups :: "(string \<Rightarrow> string list \<Rightarrow> string) \<Rightarrow> KeyValue list \<Rightarrow> string list" where
  "groups f [] = []"
| "groups f (kv # kvs) =
     out_line (kvKey kv) (f (kvKey kv) (kvVal kv # map kvVal (takeWhile (\<lambda>x. kvKey x = kvKey kv) kvs)))
     # groups f (dropWhile (\<lambda>x. kvKey x = kvKey kv) kvs)"
  by pat_completeness auto
termination
  by (relation "measure (\<lambda>(f, kvs). length kvs)") (auto simp: le_imp_less_Suc [OF length_dropWhile_le])

lemma run_end_takeWhile:
  assumes "i < length kvs" and "j \<le> length kvs"
  shows "run_end kvs i j = j + length (takeWhile (\<lambda>x. kvKey x = kvKey (kvs ! i)) (drop j kvs))"
  using assms
proof (induction kvs i j rule: run_end.induct)
  case (1 kvs i j)
  show ?case
  proof (cases "j < length kvs")
    case True
    then have "drop j kvs = kvs ! j # drop (Suc j) kvs" by (simp add: Cons_nth_drop_Suc)
    with True 1 show ?thesis by (subst run_end.simps) auto
  next
    case False
    with 1 show ?thesis by (subst run_end.simps) auto
  qed
qed

lemma reduce_loop_groups: "i \<le> length kvs \<Longrightarrow> reduce_loop f kvs i = groups f (drop i kvs)"
proof (induction f kvs i rule: reduce_loop.induct)
  case (1 f kvs i)
  show ?case
  proof (cases "i < length kvs")
    case True
    let ?P = "\<lambda>x. kvKey x = kvKey (kvs ! i)" and ?rest = "drop (Suc i) kvs"
    define j where "j = run_end kvs i (i + 1)"
    have jd: "run_end kvs i (Suc i) = j" by (simp add: j_def)
    have j: "j = Suc i + length (takeWhile ?P ?rest)" using True by (simp add: j_def run_end_takeWhile)
    have "length (takeWhile ?P ?rest) \<le> length ?rest" by (rule length_takeWhile_le)
    then have jl: "j \<le> length kvs" using True j by simp
    have "map (\<lambda>k. kvVal (kvs ! k)) [i..<j] = map kvVal (take (j - i) (drop i kvs))"
      by (rule nth_equalityI) (use jl in auto)
    also have "take (j - i) (drop i kvs) = kvs ! i # takeWhile ?P ?rest"
    proof -
      have "drop i kvs = kvs ! i # ?rest" using True by (simp add: Cons_nth_drop_Suc)
      moreover have "take (length (takeWhile ?P ?rest)) ?rest = takeWhile ?P ?rest"
        by (metis takeWhile_eq_take)
      ultimately show ?thesis using j by simp
    qed
    finally have vals: "map (\<lambda>k. kvVal (kvs ! k)) [i..<j] = kvVal (kvs ! i) # map kvVal (takeWhile ?P ?rest)" by simp
    have "drop j kvs = dropWhile ?P ?rest"
      by (simp add: j dropWhile_eq_drop add.commute)
    moreover have "reduce_loop f kvs j = groups f (drop j kvs)"
      using "1.IH" [OF True j_def refl jl] .
    moreover have "groups f (drop i kvs) = out_line (kvKey (kvs ! i)) (f (kvKey (kvs ! i))
        (kvVal (kvs ! i) # map kvVal (takeWhile ?P ?rest))) # groups f (dropWhile ?P ?rest)"
      using True by (simp flip: Cons_nth_drop_Suc)
    ultimately show ?thesis
      using True vals jd by (subst reduce_loop.simps) (simp add: Let_def)
  next
    case False
    then show ?thesis using "1.prems" by (subst reduce_loop.simps) simp
  qed
qed

text \<open>The loops of the sequential program are the same.\<close>

lemma seq_run_end_eq: "seq_run_end kvs i j = run_end kvs i j"
  by (induction kvs i j rule: seq_run_end.induct) (subst seq_run_end.simps, subst run_end.simps, simp)

lemma seq_reduce_loop_eq: "seq_reduce_loop f kvs i = reduce_loop f kvs i"
proof (induction f kvs i rule: seq_reduce_loop.induct)
  case (1 f kvs i)
  then show ?case
    by (subst seq_reduce_loop.simps, subst reduce_loop.simps) (simp add: Let_def seq_run_end_eq out_line_def)
qed

text \<open>The lines that belong to a multiset of pairs, one per key in the order of the keys.\<close>

definition values_of :: "string \<Rightarrow> KeyValue list \<Rightarrow> string list" where
  "values_of k kvs = map kvVal (filter (\<lambda>x. kvKey x = k) kvs)"

definition key_line :: "(string \<Rightarrow> string list \<Rightarrow> string) \<Rightarrow> KeyValue list \<Rightarrow> string \<Rightarrow> string" where
  "key_line f kvs k = k @ '' '' @ f k (values_of k kvs) @ newline"

text \<open>What is printed for a set of keys: a line per key, in the order of the keys.\<close>

definition lines_for :: "(string \<Rightarrow> string list \<Rightarrow> string) \<Rightarrow> KeyValue list \<Rightarrow> string set \<Rightarrow> string" where
  "lines_for f kvs K = concat (map (key_line f kvs) (sorted_list_of_set K))"

lemma takeWhile_sorted:
  assumes "sorted (map kvKey (kv # kvs))"
  shows "takeWhile (\<lambda>x. kvKey x = kvKey kv) kvs = filter (\<lambda>x. kvKey x = kvKey kv) kvs
    \<and> dropWhile (\<lambda>x. kvKey x = kvKey kv) kvs = filter (\<lambda>x. kvKey x \<noteq> kvKey kv) kvs"
  using assms
proof (induction kvs)
  case (Cons x kvs)
  show ?case
  proof (cases "kvKey x = kvKey kv")
    case False
    then have above: "kvKey y \<noteq> kvKey kv" if "y \<in> set (x # kvs)" for y
      using Cons.prems that by fastforce
    then have "filter (\<lambda>y. kvKey y \<noteq> kvKey kv) (x # kvs) = x # kvs"
      "filter (\<lambda>y. kvKey y = kvKey kv) (x # kvs) = []"
      by (auto intro!: filter_True simp: filter_empty_conv)
    with False show ?thesis by (simp only: takeWhile.simps dropWhile.simps if_False)
  qed (use Cons in auto)
qed simp

lemma groups_sorted:
  "sorted (map kvKey kvs) \<Longrightarrow>
     groups f kvs = map (key_line f kvs) (sorted_list_of_set (kvKey ` set kvs))"
proof (induction f kvs rule: groups.induct)
  case (2 f kv kvs)
  let ?k = "kvKey kv" and ?rest = "filter (\<lambda>x. kvKey x \<noteq> kvKey kv) kvs"
  note tw = takeWhile_sorted [OF "2.prems"]
  have "sorted (map kvKey ?rest)" using "2.prems" by (simp add: sorted_filter)
  then have IH: "groups f ?rest = map (key_line f ?rest) (sorted_list_of_set (kvKey ` set ?rest))"
    using "2.IH" tw by simp
  have above: "\<forall>k \<in> kvKey ` set ?rest. ?k < k" using "2.prems" by fastforce
  have "sorted_list_of_set (kvKey ` set (kv # kvs)) = ?k # sorted_list_of_set (kvKey ` set ?rest)"
  proof (rule sorted_distinct_set_unique)
    show "sorted (?k # sorted_list_of_set (kvKey ` set ?rest))" using above by (auto intro: less_imp_le)
    show "distinct (?k # sorted_list_of_set (kvKey ` set ?rest))" by auto
    show "set (sorted_list_of_set (kvKey ` set (kv # kvs))) = set (?k # sorted_list_of_set (kvKey ` set ?rest))"
      by (auto simp: set_insort_key)
  qed (rule sorted_sorted_list_of_set distinct_sorted_list_of_set)+
  moreover have "key_line f ?rest k = key_line f (kv # kvs) k" if "k \<in> kvKey ` set ?rest" for k
  proof -
    have "k \<noteq> ?k" using that by auto
    then have "filter (\<lambda>x. kvKey x = k) ?rest = filter (\<lambda>x. kvKey x = k) (kv # kvs)"
      by (auto intro!: filter_cong)
    then show ?thesis by (simp add: key_line_def values_of_def)
  qed
  ultimately show ?case
    using IH tw by (simp add: key_line_def [of f "kv # kvs" ?k] values_of_def out_line_def)
qed simp

text \<open>What \<open>sort.Sort(ByKey(...))\<close> promises.\<close>

definition sort_ByKey_ok :: "(KeyValue list \<Rightarrow> KeyValue list) \<Rightarrow> bool" where
  "sort_ByKey_ok srt \<longleftrightarrow> (\<forall>kvs. mset (srt kvs) = mset kvs \<and> sorted_wrt (\<lambda>a b. \<not> ByKey_Less b a) (srt kvs))"

text \<open>A reduce function that does not depend on the order of the values.\<close>

definition order_free :: "(string \<Rightarrow> string list \<Rightarrow> string) \<Rightarrow> bool" where
  "order_free f \<longleftrightarrow> (\<forall>k vs ws. mset vs = mset ws \<longrightarrow> f k vs = f k ws)"

lemma order_freeD: "order_free f \<Longrightarrow> mset vs = mset ws \<Longrightarrow> f k vs = f k ws"
  unfolding order_free_def by blast

lemma key_line_perm:
  assumes "mset xs = mset ys" and "order_free f"
  shows "key_line f xs = key_line f ys"
proof
  fix k
  have "mset (values_of k xs) = mset (values_of k ys)" using assms(1) by (simp add: values_of_def)
  from order_freeD [OF assms(2) this] show "key_line f xs k = key_line f ys k" by (simp add: key_line_def)
qed

lemma reduce_lines:
  assumes srt: "sort_ByKey_ok srt" and f: "order_free f"
  shows "reduce_loop f (srt kvs) 0 = map (key_line f kvs) (sorted_list_of_set (kvKey ` set kvs))"
proof -
  have m: "mset (srt kvs) = mset kvs" and "sorted_wrt (\<lambda>a b. \<not> ByKey_Less b a) (srt kvs)"
    using srt by (auto simp: sort_ByKey_ok_def)
  then have "sorted (map kvKey (srt kvs))"
    by (simp add: ByKey_Less_def not_less sorted_map)
  then have "reduce_loop f (srt kvs) 0 = map (key_line f (srt kvs)) (sorted_list_of_set (kvKey ` set (srt kvs)))"
    by (simp add: reduce_loop_groups groups_sorted)
  moreover have "set (srt kvs) = set kvs" using m by (metis set_mset_mset)
  moreover have "key_line f (srt kvs) = key_line f kvs" using m f by (rule key_line_perm)
  ultimately show ?thesis by simp
qed

section \<open>Map tasks\<close>

definition slot :: "int \<Rightarrow> KeyValue \<Rightarrow> int" where
  "slot n kv = ihash (kvKey kv) mod n"

definition part :: "int \<Rightarrow> KeyValue list \<Rightarrow> int \<Rightarrow> KeyValue list" where
  "part n kvs r = filter (\<lambda>kv. slot n kv = r) kvs"

lemma slot_range: "0 < n \<Longrightarrow> 0 \<le> slot n kv \<and> slot n kv < n"
  by (simp add: slot_def)

lemma mapper_buffer_parts:
  assumes "0 < n" and "length buffer = nat n"
  shows "mapper_buffer n kvs buffer = Some (map (\<lambda>r. buffer ! r @ part n kvs (int r)) [0..<nat n])"
  using assms(2)
proof (induction kvs arbitrary: buffer)
  case Nil
  then show ?case by (auto simp: part_def intro: nth_equalityI)
next
  case (Cons kv kvs)
  let ?s = "slot n kv" and ?i = "nat (slot n kv)"
  have s: "0 \<le> ?s" "?i < nat n" using slot_range [OF assms(1), of kv] by auto
  have "mapper_buffer n (kv # kvs) buffer = mapper_buffer n kvs (buffer[?i := buffer ! ?i @ [kv]])"
    using assms(1) s Cons.prems by (simp add: idx_def idx_upd_def slot_def Let_def)
  also have "\<dots> = Some (map (\<lambda>r. buffer[?i := buffer ! ?i @ [kv]] ! r @ part n kvs (int r)) [0..<nat n])"
    using Cons by simp
  also have "map (\<lambda>r. buffer[?i := buffer ! ?i @ [kv]] ! r @ part n kvs (int r)) [0..<nat n]
      = map (\<lambda>r. buffer ! r @ part n (kv # kvs) (int r)) [0..<nat n]"
    using s Cons.prems by (auto simp: part_def nth_list_update)
  finally show ?case .
qed

text \<open>The files that map tasks and reduce tasks write.\<close>

definition map_path :: "string \<Rightarrow> int \<Rightarrow> int \<Rightarrow> string" where
  "map_path dir x y = path_join dir (''mr-'' @ itoa x @ ''-'' @ itoa y)"

definition out_path :: "string \<Rightarrow> int \<Rightarrow> string" where
  "out_path dir r = path_join dir (''mr-out-'' @ itoa r)"

lemma map_path_inject:
  assumes "0 \<le> x" "0 \<le> y" "0 \<le> x'" "0 \<le> y'"
  shows "map_path dir x y = map_path dir x' y' \<longleftrightarrow> x = x' \<and> y = y'"
  using assms digits_minus_inject [of "nat x" "nat y" "nat x'" "nat y'"]
  by (auto simp: map_path_def path_join_def itoa_def eq_nat_nat_iff)

lemma out_path_inject [simp]: "out_path dir r = out_path dir r' \<longleftrightarrow> r = r'"
  by (simp add: out_path_def path_join_def)

lemma map_path_neq_out_path: "0 \<le> x \<Longrightarrow> map_path dir x y \<noteq> out_path dir r"
proof
  assume x: "0 \<le> x" and "map_path dir x y = out_path dir r"
  then have eq: "digits (nat x) @ ''-'' @ itoa y = ''out-'' @ itoa r"
    by (simp add: map_path_def out_path_def path_join_def itoa_def)
  have "hd (digits (nat x) @ ''-'' @ itoa y) \<in> set (digits (nat x))"
    by (cases "digits (nat x)") auto
  with eq have "CHR ''o'' \<in> set (digits (nat x))" by simp
  from digits_range [OF this] show False by simp
qed

text \<open>Names for temporary files: one each time, none of them among the paths \<open>P\<close>.\<close>

definition temps_ok :: "(int \<Rightarrow> string option) \<Rightarrow> string set \<Rightarrow> bool" where
  "temps_ok temps P \<longleftrightarrow> (\<forall>i. \<exists>t. temps i = Some t \<and> t \<notin> P)"

lemma mapper_write_files:
  assumes "temps_ok temps P" and "0 \<le> x" and "0 \<le> i" and "\<forall>y \<ge> 0. map_path dir x y \<in> P"
  shows "\<exists>fs'. mapper_write J dir temps x bs i fs = Some (fs', map (\<lambda>r. map_path dir x (i + int r)) [0..<length bs])
    \<and> (\<forall>r < length bs. fs' (map_path dir x (i + int r)) = Some (concat (map (jenc J) (bs ! r))))
    \<and> (\<forall>p \<in> P. (\<forall>r < length bs. p \<noteq> map_path dir x (i + int r)) \<longrightarrow> fs' p = fs p)"
  using assms(3)
proof (induction bs arbitrary: i fs)
  case (Cons b bs)
  obtain t where t: "temps i = Some t" "t \<notin> P" using assms(1) by (auto simp: temps_ok_def)
  let ?p = "map_path dir x i"
  have p: "?p \<in> P" using assms(4) Cons.prems by simp
  define fs1 where "fs1 = (fs(t := None))(?p \<mapsto> concat (map (jenc J) b))"
  have written: "writeToLocalFile J dir (temps i) x i b fs = Some (fs1, ?p)"
    using t p by (auto simp: writeToLocalFile_def os_rename_def map_path_def fs1_def Let_def)
  obtain fs' where fs': "mapper_write J dir temps x bs (i + 1) fs1 =
      Some (fs', map (\<lambda>r. map_path dir x (i + 1 + int r)) [0..<length bs])"
    "\<forall>r < length bs. fs' (map_path dir x (i + 1 + int r)) = Some (concat (map (jenc J) (bs ! r)))"
    "\<forall>p \<in> P. (\<forall>r < length bs. p \<noteq> map_path dir x (i + 1 + int r)) \<longrightarrow> fs' p = fs1 p"
    using Cons.IH [of "i + 1" fs1] Cons.prems by auto
  have "?p \<noteq> map_path dir x (i + 1 + int r)" for r
    using map_path_inject [of x i x "i + 1 + int r" dir] assms(2) Cons.prems by simp
  then have here: "fs' ?p = Some (concat (map (jenc J) b))" using fs'(3) p by (auto simp: fs1_def)
  have outs: "?p # map (\<lambda>r. map_path dir x (i + 1 + int r)) [0..<length bs] =
      map (\<lambda>r. map_path dir x (i + int r)) [0..<length (b # bs)]"
    by (simp add: map_upt_Suc add.assoc del: upt_Suc)
  have "fs' (map_path dir x (i + int r)) = Some (concat (map (jenc J) ((b # bs) ! r)))" if "r < length (b # bs)" for r
    using that here fs'(2) by (cases r) (auto simp: add.assoc)
  moreover have "fs' p = fs p" if "p \<in> P" "\<forall>r < length (b # bs). p \<noteq> map_path dir x (i + int r)" for p
  proof -
    have "\<forall>r < length bs. p \<noteq> map_path dir x (i + 1 + int r)"
      using that(2) by (auto simp: add.assoc dest: spec [where x = "Suc _"])
    moreover have "p \<noteq> ?p" using that(2) by (auto dest: spec [where x = 0])
    ultimately show ?thesis using fs'(3) that(1) t(2) by (auto simp: fs1_def)
  qed
  ultimately show ?case using written fs'(1) outs by auto
qed simp

text \<open>
  A map task leaves, for every reduce task \<open>r\<close>, a file with the pairs whose key belongs to \<open>r\<close>, and
  touches no other file.
\<close>

lemma mapper_files:
  assumes "temps_ok temps P" and "0 \<le> TaskNumber task" and "0 < NReducer task"
    and "\<forall>y \<ge> 0. map_path dir (TaskNumber task) y \<in> P" and "fs (abs_path dir (tInput task)) = Some content"
  shows "\<exists>fs'. mapper J dir temps mapf task fs =
      Some (fs', task\<lparr>tIntermediates := map (\<lambda>r. map_path dir (TaskNumber task) (int r)) [0..<nat (NReducer task)]\<rparr>)
    \<and> (\<forall>r. 0 \<le> r \<and> r < NReducer task \<longrightarrow> fs' (map_path dir (TaskNumber task) r) =
          Some (concat (map (jenc J) (part (NReducer task) (mapf (tInput task) content) r))))
    \<and> (\<forall>p \<in> P. (\<forall>r \<ge> 0. p \<noteq> map_path dir (TaskNumber task) r) \<longrightarrow> fs' p = fs p)"
proof -
  let ?n = "NReducer task" and ?kvs = "mapf (tInput task) content"
  let ?bs = "map (\<lambda>r. part ?n ?kvs (int r)) [0..<nat ?n]"
  have buffer: "mapper_buffer ?n ?kvs (replicate (nat ?n) []) = Some ?bs"
    using mapper_buffer_parts [OF assms(3), of "replicate (nat ?n) []" ?kvs] by (simp cong: map_cong)
  obtain fs' where fs': "mapper_write J dir temps (TaskNumber task) ?bs 0 fs =
      Some (fs', map (\<lambda>r. map_path dir (TaskNumber task) (0 + int r)) [0..<length ?bs])"
    "\<forall>r < length ?bs. fs' (map_path dir (TaskNumber task) (0 + int r)) = Some (concat (map (jenc J) (?bs ! r)))"
    "\<forall>p \<in> P. (\<forall>r < length ?bs. p \<noteq> map_path dir (TaskNumber task) (0 + int r)) \<longrightarrow> fs' p = fs p"
    using mapper_write_files [OF assms(1,2) order_refl assms(4), of J ?bs fs] by blast
  have "fs' (map_path dir (TaskNumber task) r) = Some (concat (map (jenc J) (part ?n ?kvs r)))"
    if "0 \<le> r" "r < ?n" for r
    using fs'(2) that by (auto dest: spec [where x = "nat r"])
  then show ?thesis
    using assms(3,5) buffer fs'(1,3) by (auto simp: mapper_def)
qed

text \<open>
  C26. A map task splits its pairs by the hash of their keys. On a readable input file, with at least one
  reduce task and temporary files to be had, \<open>mapper\<close> does not fail. For every reduce task \<open>r\<close> it leaves a file
  \<open>mr-<task>-<r>\<close> in the working directory with the encodings, in their order, of exactly the
  pairs of \<open>mapf\<close> whose key has the 32-bit FNV-1a hash, without its top bit, \<open>r\<close> modulo the number of reduce tasks;
  it reports these files in the order of \<open>r\<close> and leaves every other file of \<open>P\<close> alone.
\<close>

theorem map_task_splits:
  assumes "temps_ok temps P" and "0 \<le> TaskNumber task" and n: "0 < NReducer task"
    and "\<forall>y \<ge> 0. map_path dir (TaskNumber task) y \<in> P" and "fs (abs_path dir (tInput task)) = Some content"
  shows "\<exists>fs'. mapper J dir temps mapf task fs = Some (fs', task\<lparr>tIntermediates :=
        map (\<lambda>r. dir @ ''/mr-'' @ itoa (TaskNumber task) @ ''-'' @ itoa (int r)) [0..<nat (NReducer task)]\<rparr>)
    \<and> (\<forall>r < nat (NReducer task). fs' (dir @ ''/mr-'' @ itoa (TaskNumber task) @ ''-'' @ itoa (int r)) =
          Some (concat (map (jenc J) (filter (\<lambda>kv. fnv1a (map of_char (kvKey kv)) mod 2 ^ 31 mod nat (NReducer task) = r)
            (mapf (tInput task) content)))))
    \<and> (\<forall>p \<in> P. (\<forall>r \<ge> 0. p \<noteq> map_path dir (TaskNumber task) r) \<longrightarrow> fs' p = fs p)"
proof -
  have path: "dir @ ''/mr-'' @ itoa (TaskNumber task) @ ''-'' @ itoa y = map_path dir (TaskNumber task) y" for y
    by (simp add: map_path_def path_join_def)
  have part: "filter (\<lambda>kv. fnv1a (map of_char (kvKey kv)) mod 2 ^ 31 mod nat (NReducer task) = r) kvs = part (NReducer task) kvs (int r)"
    for kvs r
  proof -
    have "int (fnv1a (map of_char (kvKey kv)) mod 2 ^ 31 mod nat (NReducer task)) = slot (NReducer task) kv" for kv
      using n by (simp add: slot_def ihash_fnv1a zmod_int)
    then show ?thesis unfolding part_def by (metis (mono_tags, lifting) of_nat_eq_iff)
  qed
  obtain fs' where fs': "mapper J dir temps mapf task fs =
      Some (fs', task\<lparr>tIntermediates := map (\<lambda>r. map_path dir (TaskNumber task) (int r)) [0..<nat (NReducer task)]\<rparr>)"
    "\<forall>r. 0 \<le> r \<and> r < NReducer task \<longrightarrow> fs' (map_path dir (TaskNumber task) r) =
          Some (concat (map (jenc J) (part (NReducer task) (mapf (tInput task) content) r)))"
    "\<forall>p \<in> P. (\<forall>r \<ge> 0. p \<noteq> map_path dir (TaskNumber task) r) \<longrightarrow> fs' p = fs p"
    using mapper_files [where fs = fs, OF assms] by blast
  have "fs' (map_path dir (TaskNumber task) (int r)) =
      Some (concat (map (jenc J) (part (NReducer task) (mapf (tInput task) content) (int r))))" if "r < nat (NReducer task)" for r
    using fs'(2) that by (simp add: zless_nat_eq_int_zless)
  with fs'(1,3) show ?thesis unfolding path part by blast
qed

section \<open>The whole computation\<close>

text \<open>
  All map tasks one after the other, as the master numbers them, and then all reduce tasks; \<open>fss ! r\<close>
  is the list of intermediate files that the master gives to reduce task \<open>r\<close>.
\<close>

fun map_phase ::
  "json \<Rightarrow> string \<Rightarrow> (int \<Rightarrow> int \<Rightarrow> string option) \<Rightarrow> (string \<Rightarrow> string \<Rightarrow> KeyValue list) \<Rightarrow> int \<Rightarrow> string list \<Rightarrow> int \<Rightarrow> files
     \<Rightarrow> (files \<times> string list list) option" where
  "map_phase J dir temps mapf n [] i fs = Some (fs, [])"
| "map_phase J dir temps mapf n (input # inputs) i fs = do {
     (fs, task) \<leftarrow> mapper J dir (temps i) mapf
       \<lparr>tInput = input, TaskState = Map, NReducer = n, TaskNumber = i, tIntermediates = [], tOutput = []\<rparr> fs;
     (fs, outs) \<leftarrow> map_phase J dir temps mapf n inputs (i + 1) fs;
     Some (fs, tIntermediates task # outs)
   }"

fun reduce_phase ::
  "json \<Rightarrow> (KeyValue list \<Rightarrow> KeyValue list) \<Rightarrow> string \<Rightarrow> (int \<Rightarrow> string option) \<Rightarrow> (string \<Rightarrow> string list \<Rightarrow> string) \<Rightarrow> int
     \<Rightarrow> string list list \<Rightarrow> int \<Rightarrow> files \<Rightarrow> files option" where
  "reduce_phase J srt dir temps reducef n [] r fs = Some fs"
| "reduce_phase J srt dir temps reducef n (files # fss) r fs = do {
     (fs, task) \<leftarrow> reducer J srt dir (temps r) reducef
       \<lparr>tInput = [], TaskState = Reduce, NReducer = n, TaskNumber = r, tIntermediates = files, tOutput = []\<rparr> fs;
     reduce_phase J srt dir temps reducef n fss (r + 1) fs
   }"

definition task_files :: "string \<Rightarrow> string set" where
  "task_files dir = {map_path dir x y | x y. 0 \<le> x \<and> 0 \<le> y} \<union> range (out_path dir)"

lemma map_phase_files:
  assumes temps: "\<And>i. temps_ok (temps i) P" and P: "task_files dir \<subseteq> P" and n: "0 < n"
    and "0 \<le> i" and "abs_path dir ` set inputs \<subseteq> P" "abs_path dir ` set inputs \<inter> task_files dir = {}"
    and "\<forall>f \<in> set inputs. fs (abs_path dir f) = Some (g f)"
  shows "\<exists>fs'. map_phase J dir temps mapf n inputs i fs =
      Some (fs', map (\<lambda>j. map (\<lambda>r. map_path dir (i + int j) (int r)) [0..<nat n]) [0..<length inputs])
    \<and> (\<forall>j < length inputs. \<forall>r. 0 \<le> r \<and> r < n \<longrightarrow> fs' (map_path dir (i + int j) r) =
          Some (concat (map (jenc J) (part n (mapf (inputs ! j) (g (inputs ! j))) r))))
    \<and> (\<forall>p \<in> P. (\<forall>x \<ge> i. \<forall>y \<ge> 0. p \<noteq> map_path dir x y) \<longrightarrow> fs' p = fs p)"
  using assms(4-)
proof (induction inputs arbitrary: i fs)
  case (Cons input inputs)
  let ?task = "\<lparr>tInput = input, TaskState = Map, NReducer = n, TaskNumber = i, tIntermediates = [], tOutput = []\<rparr>"
  have mp: "map_path dir x y \<in> P" if "0 \<le> x" "0 \<le> y" for x y
    using P that by (auto simp: task_files_def)
  obtain fs1 where fs1: "mapper J dir (temps i) mapf ?task fs =
      Some (fs1, ?task\<lparr>tIntermediates := map (\<lambda>r. map_path dir i (int r)) [0..<nat n]\<rparr>)"
    "\<forall>r. 0 \<le> r \<and> r < n \<longrightarrow> fs1 (map_path dir i r) = Some (concat (map (jenc J) (part n (mapf input (g input)) r)))"
    "\<forall>p \<in> P. (\<forall>r \<ge> 0. p \<noteq> map_path dir i r) \<longrightarrow> fs1 p = fs p"
    using mapper_files [OF temps [of i], of ?task dir fs "g input" J mapf] Cons.prems n mp by auto
  have tf: "map_path dir x y \<in> task_files dir" if "0 \<le> x" "0 \<le> y" for x y
    using that by (auto simp: task_files_def)
  have "abs_path dir f \<in> P" "\<forall>r \<ge> 0. abs_path dir f \<noteq> map_path dir i r" if "f \<in> set inputs" for f
    using that Cons.prems(1-3) tf [of i] by auto
  then have "\<forall>f \<in> set inputs. fs1 (abs_path dir f) = Some (g f)" using fs1(3) Cons.prems by auto
  with Cons.IH [of "i + 1" fs1] Cons.prems obtain fs' where fs': "map_phase J dir temps mapf n inputs (i + 1) fs1 =
      Some (fs', map (\<lambda>j. map (\<lambda>r. map_path dir (i + 1 + int j) (int r)) [0..<nat n]) [0..<length inputs])"
    "\<forall>j < length inputs. \<forall>r. 0 \<le> r \<and> r < n \<longrightarrow> fs' (map_path dir (i + 1 + int j) r) =
          Some (concat (map (jenc J) (part n (mapf (inputs ! j) (g (inputs ! j))) r)))"
    "\<forall>p \<in> P. (\<forall>x \<ge> i + 1. \<forall>y \<ge> 0. p \<noteq> map_path dir x y) \<longrightarrow> fs' p = fs1 p"
    by auto
  have keep: "fs' (map_path dir i r) = fs1 (map_path dir i r)" if "0 \<le> r" for r
    using fs'(3) mp [of i r] map_path_inject [of i r] Cons.prems(1) that by auto
  have "map (\<lambda>r. map_path dir i (int r)) [0..<nat n] #
      map (\<lambda>j. map (\<lambda>r. map_path dir (i + 1 + int j) (int r)) [0..<nat n]) [0..<length inputs] =
      map (\<lambda>j. map (\<lambda>r. map_path dir (i + int j) (int r)) [0..<nat n]) [0..<length (input # inputs)]"
    by (simp add: map_upt_Suc add.assoc del: upt_Suc)
  moreover have "fs' (map_path dir (i + int j) r) =
      Some (concat (map (jenc J) (part n (mapf ((input # inputs) ! j) (g ((input # inputs) ! j))) r)))"
    if "j < length (input # inputs)" "0 \<le> r" "r < n" for j r
    using that keep fs1(2) fs'(2) by (cases j) (auto simp: add.assoc)
  moreover have "fs' p = fs p" if "p \<in> P" "\<forall>x \<ge> i. \<forall>y \<ge> 0. p \<noteq> map_path dir x y" for p
    using that fs1(3) fs'(3) by auto
  ultimately show ?case using fs1(1) fs'(1) by auto
qed simp

lemma readFromLocalFile_concat:
  assumes "json_ok J" and "\<forall>f \<in> set fs'. \<exists>kvs. fs (abs_path dir f) = Some (concat (map (jenc J) kvs)) \<and> kvs = c f \<and> (\<forall>kv \<in> set kvs. jvalid J kv)"
  shows "readFromLocalFile J dir fs fs' = Some (concat (map c fs'))"
  using assms(2)
proof (induction fs')
  case (Cons f fs')
  then show ?case using assms(1) by (auto simp: json_ok_def)
qed simp

lemma reduce_phase_files:
  assumes "temps_ok temps P" and "task_files dir \<subseteq> P"
    and "\<forall>j < length fss. readFromLocalFile J dir fs (fss ! j) = Some (kvss ! j)
      \<and> abs_path dir ` set (fss ! j) \<subseteq> P - range (out_path dir)"
  shows "\<exists>fs'. reduce_phase J srt dir temps reducef n fss r fs = Some fs'
    \<and> (\<forall>j < length fss. fs' (out_path dir (r + int j)) = Some (concat (reduce_loop reducef (srt (kvss ! j)) 0)))
    \<and> (\<forall>p \<in> P. (\<forall>x \<ge> r. p \<noteq> out_path dir x) \<longrightarrow> fs' p = fs p)"
  using assms(3)
proof (induction fss arbitrary: r fs kvss)
  case (Cons files fss)
  obtain t where t: "temps r = Some t" "t \<notin> P" using assms(1) by (auto simp: temps_ok_def)
  have op: "out_path dir x \<in> P" for x using assms(2) by (auto simp: task_files_def)
  define fs1 where "fs1 = (fs(t := None))(out_path dir r \<mapsto> concat (reduce_loop reducef (srt (kvss ! 0)) 0))"
  have read: "readFromLocalFile J dir fs files = Some (kvss ! 0)" using Cons.prems by force
  have run: "reducer J srt dir (temps r) reducef
      \<lparr>tInput = [], TaskState = Reduce, NReducer = n, TaskNumber = r, tIntermediates = files, tOutput = []\<rparr> fs
    = Some (fs1, \<lparr>tInput = [], TaskState = Reduce, NReducer = n, TaskNumber = r, tIntermediates = files,
        tOutput = ''mr-out-'' @ itoa r\<rparr>)"
    using t op [of r] read by (auto simp: reducer_def os_rename_def out_path_def fs1_def Let_def)
  have same: "fs1 p = fs p" if "p \<in> P - range (out_path dir)" for p
    using that t(2) by (auto simp: fs1_def)
  have cong: "readFromLocalFile J dir fs1 fl = readFromLocalFile J dir fs fl" if "abs_path dir ` set fl \<subseteq> P - range (out_path dir)" for fl
    using that same by (induction fl) (auto cong: Option.bind_cong)
  have "\<forall>j < length fss. readFromLocalFile J dir fs1 (fss ! j) = Some (kvss ! Suc j)
      \<and> abs_path dir ` set (fss ! j) \<subseteq> P - range (out_path dir)"
    using Cons.prems cong by force
  with Cons.IH [of fs1 "map (\<lambda>j. kvss ! Suc j) [0..<length fss]" "r + 1"] obtain fs' where
    fs': "reduce_phase J srt dir temps reducef n fss (r + 1) fs1 = Some fs'"
    "\<forall>j < length fss. fs' (out_path dir (r + 1 + int j)) = Some (concat (reduce_loop reducef (srt (kvss ! Suc j)) 0))"
    "\<forall>p \<in> P. (\<forall>x \<ge> r + 1. p \<noteq> out_path dir x) \<longrightarrow> fs' p = fs1 p"
    by auto
  have "fs' (out_path dir r) = fs1 (out_path dir r)" using fs'(3) op by auto
  then have "fs' (out_path dir (r + int j)) = Some (concat (reduce_loop reducef (srt (kvss ! j)) 0))"
    if "j < length (files # fss)" for j
    using that fs'(2) by (cases j) (auto simp: fs1_def add.assoc)
  moreover have "fs' p = fs p" if "p \<in> P" "\<forall>x \<ge> r. p \<noteq> out_path dir x" for p
    using that fs'(3) t(2) by (auto simp: fs1_def)
  ultimately show ?case using run fs'(1) by auto
qed simp

section \<open>Agreement with the sequential program\<close>

lemma sequential_map_concat:
  "\<forall>f \<in> set inputs. fs (abs_path dir f) = Some (g f) \<Longrightarrow>
     sequential_map dir mapf fs inputs = Some (concat (map (\<lambda>f. mapf f (g f)) inputs))"
  by (induction inputs) auto

lemma mset_concat_map: "mset (concat (map f xs)) = \<Sum>\<^sub># (image_mset (\<lambda>x. mset (f x)) (mset xs))"
  by (induction xs) auto

lemma key_line_part:
  assumes "k \<in> kvKey ` set (part n kvs r)"
  shows "key_line f (part n kvs r) k = key_line f kvs k"
proof -
  have "filter (\<lambda>x. kvKey x = k) (part n kvs r) = filter (\<lambda>x. kvKey x = k) kvs"
    using assms by (auto simp: part_def slot_def intro!: filter_cong)
  then show ?thesis by (simp add: key_line_def values_of_def)
qed

lemma out_path_0: "out_path dir 0 = path_join dir ''mr-out-0''"
proof -
  have "itoa 0 = ''0''" by code_simp
  then show ?thesis by (simp add: out_path_def)
qed

text \<open>What a reduce task prints, given all pairs of its part in any order.\<close>

lemma reduce_part:
  assumes srt: "sort_ByKey_ok srt" and f: "order_free f" and xs: "mset xs = mset (part n kvs r)"
  shows "concat (reduce_loop f (srt xs) 0) = lines_for f kvs {k \<in> kvKey ` set kvs. ihash k mod n = r}"
proof -
  have "set xs = set (part n kvs r)" using xs by (metis set_mset_mset)
  then have keys: "kvKey ` set xs = {k \<in> kvKey ` set kvs. ihash k mod n = r}" by (auto simp: part_def slot_def)
  have "key_line f xs k = key_line f kvs k" if "k \<in> kvKey ` set xs" for k
    using key_line_perm [OF xs f] key_line_part [of k n kvs r f] that \<open>set xs = set (part n kvs r)\<close> by simp
  then have "map (key_line f xs) (sorted_list_of_set (kvKey ` set xs)) = map (key_line f kvs) (sorted_list_of_set (kvKey ` set xs))"
    by simp
  then show ?thesis using reduce_lines [OF srt f, of xs] unfolding lines_for_def keys by argo
qed

lemma mrsequential_lines:
  assumes "sort_ByKey_ok srt" and "order_free reducef" and "\<forall>f \<in> set inputs. fs (abs_path dir f) = Some (g f)"
    and "kvs = concat (map (\<lambda>f. mapf f (g f)) inputs)"
  shows "mrsequential srt dir mapf reducef inputs fs =
    Some (fs(path_join dir ''mr-out-0'' \<mapsto> lines_for reducef kvs (kvKey ` set kvs)))"
  unfolding mrsequential_def sequential_map_concat [OF assms(3)] assms(4) [symmetric]
  using assms(1,2) by (simp add: reduce_lines seq_reduce_loop_eq lines_for_def)

text \<open>
  C27. MapReduce computes what the sequential program computes, line by line. Run the map tasks for the input
  files and then the reduce tasks, each on the intermediate files the map tasks reported for it, in any
  order of these files. Nothing fails and the map tasks report the files \<open>mr-<task>-<r>\<close>. The output file of reduce task \<open>r\<close>
  has, in the order of the keys, the line \<open>key output\<close> for exactly those keys whose hash is \<open>r\<close> modulo the number of
  reduce tasks, and \<open>mrsequential\<close> writes the same lines for all keys to its one file; the
  output is what the reduce function makes of all values of the key in all input files. This holds for every reduce
  function that does not depend on the order of its values.
\<close>

theorem mapreduce_agrees:
  assumes J: "json_ok J" and srt: "sort_ByKey_ok srt" "sort_ByKey_ok srt'" and f: "order_free reducef" and n: "0 < n"
    and dir: "rooted dir"
    and inputs: "\<forall>f \<in> set inputs. fs (abs_path dir f) = Some (g f) \<and> abs_path dir f \<notin> task_files dir"
    and valid: "\<forall>f \<in> set inputs. \<forall>kv \<in> set (mapf f (g f)). jvalid J kv"
    and temps: "\<And>i. temps_ok (temps i) (abs_path dir ` set inputs \<union> task_files dir)"
      "temps_ok temps' (abs_path dir ` set inputs \<union> task_files dir)"
    and fss: "length fss = nat n"
      "\<forall>r < nat n. mset (fss ! r) = mset (map (\<lambda>j. map_path dir (int j) (int r)) [0..<length inputs])"
    and kvs: "kvs = concat (map (\<lambda>f. mapf f (g f)) inputs)"
  shows "\<exists>fs1 fs2 fsq.
    map_phase J dir temps mapf n inputs 0 fs =
      Some (fs1, map (\<lambda>j. map (\<lambda>r. map_path dir (int j) (int r)) [0..<nat n]) [0..<length inputs])
    \<and> reduce_phase J srt dir temps' reducef n fss 0 fs1 = Some fs2
    \<and> mrsequential srt' dir mapf reducef inputs fs = Some fsq
    \<and> (\<forall>r < nat n. fs2 (out_path dir (int r)) = Some (lines_for reducef kvs {k \<in> kvKey ` set kvs. ihash k mod n = int r}))
    \<and> fsq (out_path dir 0) = Some (lines_for reducef kvs (kvKey ` set kvs))"
proof -
  let ?P = "abs_path dir ` set inputs \<union> task_files dir"
  let ?kvs = "\<lambda>j. mapf (inputs ! j) (g (inputs ! j))"
  have kvs_nth: "kvs = concat (map ?kvs [0..<length inputs])"
    unfolding kvs by (intro arg_cong [where f = concat] nth_equalityI) auto
  have disj: "abs_path dir ` set inputs \<inter> task_files dir = {}" using inputs by auto
  have mp: "abs_path dir (map_path dir x y) = map_path dir x y" for x y using dir by (simp add: map_path_def)
  obtain fs1 where fs1: "map_phase J dir temps mapf n inputs 0 fs =
      Some (fs1, map (\<lambda>j. map (\<lambda>r. map_path dir (int j) (int r)) [0..<nat n]) [0..<length inputs])"
    "\<forall>j < length inputs. \<forall>r. 0 \<le> r \<and> r < n \<longrightarrow> fs1 (map_path dir (int j) r) = Some (concat (map (jenc J) (part n (?kvs j) r)))"
    using map_phase_files [where temps = temps and fs = fs and g = g and J = J and mapf = mapf, OF temps(1) _ n order_refl _ disj] inputs by auto
  define c where "c r p = part n (?kvs (THE j. j < length inputs \<and> p = map_path dir (int j) (int r))) (int r)" for r :: nat and p
  have c: "c r (map_path dir (int j) (int r)) = part n (?kvs j) (int r)" if "j < length inputs" for j r
  proof -
    have "(THE j'. j' < length inputs \<and> map_path dir (int j) (int r) = map_path dir (int j') (int r)) = j"
      using that by (intro the_equality) (auto simp: map_path_inject)
    then show ?thesis by (simp add: c_def)
  qed
  define read where "read r = concat (map (c r) (fss ! r))" for r
  have files: "set (fss ! r) = (\<lambda>j. map_path dir (int j) (int r)) ` {0..<length inputs}" if "r < nat n" for r
    using fss(2) that by (metis set_mset_mset set_map set_upt)
  have reads: "readFromLocalFile J dir fs1 (fss ! r) = Some (read r)" if rn: "r < nat n" for r
    unfolding read_def
  proof (rule readFromLocalFile_concat [OF J], rule ballI)
    fix p assume "p \<in> set (fss ! r)"
    then obtain j where j: "j < length inputs" "p = map_path dir (int j) (int r)" using files [OF rn] by auto
    have "\<forall>kv \<in> set (c r p). jvalid J kv" using valid j c by (auto simp: part_def)
    then show "\<exists>kvs. fs1 (abs_path dir p) = Some (concat (map (jenc J) kvs)) \<and> kvs = c r p \<and> (\<forall>kv \<in> set kvs. jvalid J kv)"
      using fs1(2) j c rn mp by auto
  qed
  have perm: "mset (read r) = mset (part n kvs (int r))" if "r < nat n" for r
  proof -
    have "mset (read r) = mset (concat (map (c r) (map (\<lambda>j. map_path dir (int j) (int r)) [0..<length inputs])))"
      using fss(2) that unfolding read_def by (simp only: mset_concat_map)
    also have "\<dots> = mset (concat (map (\<lambda>j. part n (?kvs j) (int r)) [0..<length inputs]))"
      unfolding map_map by (rule arg_cong [where f = "\<lambda>xs. mset (concat xs)"], rule map_cong) (auto simp: c)
    also have "concat (map (\<lambda>j. part n (?kvs j) (int r)) [0..<length inputs]) = part n kvs (int r)"
      by (simp add: kvs_nth part_def filter_concat comp_def)
    finally show ?thesis .
  qed
  have "abs_path dir ` set (fss ! r) \<subseteq> ?P - range (out_path dir)" if "r < nat n" for r
  proof
    fix p assume "p \<in> abs_path dir ` set (fss ! r)"
    with files [OF that] mp obtain j where "p = map_path dir (int j) (int r)" by auto
    moreover from this have "p \<notin> range (out_path dir)"
      using map_path_neq_out_path [of "int j" dir "int r"] by auto
    moreover have "map_path dir (int j) (int r) \<in> task_files dir"
      unfolding task_files_def by (rule UnI1, rule CollectI, intro exI conjI, rule refl) simp_all
    ultimately show "p \<in> ?P - range (out_path dir)" by simp
  qed
  then obtain fs2 where fs2: "reduce_phase J srt dir temps' reducef n fss 0 fs1 = Some fs2"
    "\<forall>r < nat n. fs2 (out_path dir (int r)) = Some (concat (reduce_loop reducef (srt (map read [0..<nat n] ! r)) 0))"
    using reduce_phase_files [OF temps(2), of dir fss J fs1 "map read [0..<nat n]" srt reducef n 0] reads fss(1) by auto
  have "fs2 (out_path dir (int r)) = Some (lines_for reducef kvs {k \<in> kvKey ` set kvs. ihash k mod n = int r})" if "r < nat n" for r
    using fs2(2) that reduce_part [OF srt(1) f perm [OF that]] by simp
  moreover have "mrsequential srt' dir mapf reducef inputs fs
      = Some (fs(out_path dir 0 \<mapsto> lines_for reducef kvs (kvKey ` set kvs)))"
    using mrsequential_lines [where fs = fs and dir = dir and g = g and mapf = mapf, OF srt(2) f _ kvs] inputs by (simp add: out_path_0)
  ultimately show ?thesis
    using fs1(1) fs2(1)
    by (intro exI [of _ fs1] exI [of _ fs2] exI [of _ "fs(out_path dir 0 \<mapsto> lines_for reducef kvs (kvKey ` set kvs))"]) simp
qed

text \<open>Witnesses: a concrete encoding of pairs, and the letters of one file counted by two reduce tasks.\<close>

definition esc :: "string \<Rightarrow> string" where
  "esc s = concat (map (\<lambda>c. [CHR ''+'', c]) s) @ ''.''"

fun unesc :: "string \<Rightarrow> string \<Rightarrow> bool \<Rightarrow> string \<Rightarrow> KeyValue list" where
  "unesc k v b [] = []"
| "unesc k v b [x] = (if b \<and> x = CHR ''.'' then [\<lparr>kvKey = k, kvVal = v\<rparr>] else [])"
| "unesc k v b (x # c # s) =
     (if x = CHR ''.''
      then if b then \<lparr>kvKey = k, kvVal = v\<rparr> # unesc [] [] False (c # s) else unesc k v True (c # s)
      else if b then unesc k (v @ [c]) b s else unesc (k @ [c]) v b s)"

definition esc_json :: json where
  "esc_json = \<lparr>jenc = (\<lambda>kv. esc (kvKey kv) @ esc (kvVal kv)), jdec = unesc [] [] False, jvalid = (\<lambda>kv. True)\<rparr>"

lemma unesc_dot:
  "unesc k v True (CHR ''.'' # t) = \<lparr>kvKey = k, kvVal = v\<rparr> # unesc [] [] False t"
  "t \<noteq> [] \<Longrightarrow> unesc k v False (CHR ''.'' # t) = unesc k v True t"
  by (cases t; simp)+

lemma unesc_key: "t \<noteq> [] \<Longrightarrow> unesc k v False (esc s @ t) = unesc (k @ s) v True t"
  by (induction s arbitrary: k) (auto simp: esc_def unesc_dot)

lemma unesc_val: "unesc k v True (esc s @ t) = \<lparr>kvKey = k, kvVal = v @ s\<rparr> # unesc [] [] False t"
  by (induction s arbitrary: v) (auto simp: esc_def unesc_dot)

lemma esc_nonempty [simp]: "esc s \<noteq> []"
  by (simp add: esc_def)

lemma esc_json_ok: "json_ok esc_json"
proof -
  have "unesc [] [] False (concat (map (\<lambda>kv. esc (kvKey kv) @ esc (kvVal kv)) kvs)) = kvs" for kvs
    by (induction kvs) (simp_all add: unesc_key unesc_val)
  then show ?thesis by (simp add: json_ok_def) (simp add: esc_json_def)
qed

lemma esc_json_valid: "jvalid esc_json kv"
  by (simp add: esc_json_def)

lemma sort_key_ok: "sort_ByKey_ok (sort_key kvKey)"
proof -
  have "sorted_wrt (\<lambda>a b. \<not> ByKey_Less b a) (sort_key kvKey kvs)" for kvs
    using sorted_sort_key [of kvKey kvs] by (simp add: ByKey_Less_def not_less sorted_map)
  then show ?thesis by (simp add: sort_ByKey_ok_def)
qed

definition letters :: "string \<Rightarrow> string \<Rightarrow> KeyValue list" where
  "letters f s = map (\<lambda>c. \<lparr>kvKey = [c], kvVal = ''1''\<rparr>) s"

definition count_vals :: "string \<Rightarrow> string list \<Rightarrow> string" where
  "count_vals k vs = itoa (int (length vs))"

lemma count_vals_order_free: "order_free count_vals"
  by (auto simp: order_free_def count_vals_def dest: mset_eq_length)

lemma not_task_file: "''/d/in'' \<notin> task_files ''/d''" "''/tmp/t'' \<notin> task_files ''/d''"
  by (auto simp: task_files_def map_path_def out_path_def path_join_def)

lemma in_path: "abs_path ''/d'' ''in'' = ''/d/in''" "rooted ''/d''"
  by (simp_all add: abs_path_def is_abs_def path_join_def rooted_def)

theorem map_task_splits_witness:
  "\<exists>fs'. mapper esc_json ''/d'' (\<lambda>i. Some ''/tmp/t'') letters
      \<lparr>tInput = ''in'', TaskState = Map, NReducer = 2, TaskNumber = 0, tIntermediates = [], tOutput = []\<rparr>
      [''/d/in'' \<mapsto> ''abca''] =
    Some (fs', \<lparr>tInput = ''in'', TaskState = Map, NReducer = 2, TaskNumber = 0,
      tIntermediates = [''/d/mr-0-0'', ''/d/mr-0-1''], tOutput = []\<rparr>)
    \<and> fs' ''/d/mr-0-0'' = Some (jenc esc_json \<lparr>kvKey = ''a'', kvVal = ''1''\<rparr> @ jenc esc_json \<lparr>kvKey = ''c'', kvVal = ''1''\<rparr>
        @ jenc esc_json \<lparr>kvKey = ''a'', kvVal = ''1''\<rparr>)
    \<and> fs' ''/d/in'' = Some ''abca''"
proof -
  let ?task = "\<lparr>tInput = ''in'', TaskState = Map, NReducer = 2, TaskNumber = 0, tIntermediates = [], tOutput = []\<rparr>"
  let ?P = "{''/d/in''} \<union> task_files ''/d''"
  have names: "''/d'' @ ''/mr-'' @ itoa 0 @ ''-'' @ itoa (int 0) = ''/d/mr-0-0''"
    "''/d'' @ ''/mr-'' @ itoa 0 @ ''-'' @ itoa (int 1) = ''/d/mr-0-1''" by code_simp+
  have hash: "filter (\<lambda>kv. fnv1a (map of_char (kvKey kv)) mod 2 ^ 31 mod nat 2 = 0) (letters ''in'' ''abca'')
      = [\<lparr>kvKey = ''a'', kvVal = ''1''\<rparr>, \<lparr>kvKey = ''c'', kvVal = ''1''\<rparr>, \<lparr>kvKey = ''a'', kvVal = ''1''\<rparr>]"
    by (simp add: letters_def fnv1a_def)
  have own: "''/d/in'' \<noteq> map_path ''/d'' 0 r" for r by (simp add: map_path_def path_join_def)
  have task: "0 \<le> TaskNumber ?task" "0 < NReducer ?task" "\<forall>y \<ge> 0. map_path ''/d'' (TaskNumber ?task) y \<in> ?P"
    "[''/d/in'' \<mapsto> ''abca''] (abs_path ''/d'' (tInput ?task)) = Some ''abca''"
    "temps_ok (\<lambda>i. Some ''/tmp/t'') ?P"
  proof -
    show "temps_ok (\<lambda>i. Some ''/tmp/t'') ?P" by (simp add: temps_ok_def not_task_file)
  qed (auto simp: in_path task_files_def)
  from map_task_splits [where fs = "[''/d/in'' \<mapsto> ''abca'']" and J = esc_json and mapf = letters, OF task(5,1-4)] obtain fs' where
    fs': "mapper esc_json ''/d'' (\<lambda>i. Some ''/tmp/t'') letters ?task [''/d/in'' \<mapsto> ''abca''] =
      Some (fs', ?task\<lparr>tIntermediates := map (\<lambda>r. ''/d'' @ ''/mr-'' @ itoa (TaskNumber ?task) @ ''-'' @ itoa (int r)) [0..<nat (NReducer ?task)]\<rparr>)"
    "\<forall>r < nat (NReducer ?task). fs' (''/d'' @ ''/mr-'' @ itoa (TaskNumber ?task) @ ''-'' @ itoa (int r)) =
          Some (concat (map (jenc esc_json) (filter (\<lambda>kv. fnv1a (map of_char (kvKey kv)) mod 2 ^ 31 mod nat (NReducer ?task) = r)
            (letters (tInput ?task) ''abca''))))"
    "\<forall>p \<in> ?P. (\<forall>r \<ge> 0. p \<noteq> map_path ''/d'' (TaskNumber ?task) r) \<longrightarrow> fs' p = [''/d/in'' \<mapsto> ''abca''] p" by blast
  have "[0..<nat (NReducer ?task)] = [0, 1]" by (simp add: upt_rec)
  with fs'(1) names have "mapper esc_json ''/d'' (\<lambda>i. Some ''/tmp/t'') letters ?task [''/d/in'' \<mapsto> ''abca''] =
    Some (fs', ?task\<lparr>tIntermediates := [''/d/mr-0-0'', ''/d/mr-0-1'']\<rparr>)" by simp
  moreover have "fs' ''/d/mr-0-0'' = Some (concat (map (jenc esc_json) [\<lparr>kvKey = ''a'', kvVal = ''1''\<rparr>, \<lparr>kvKey = ''c'', kvVal = ''1''\<rparr>, \<lparr>kvKey = ''a'', kvVal = ''1''\<rparr>]))"
    using fs'(2) [rule_format, of 0] names hash by simp
  moreover have "fs' ''/d/in'' = Some ''abca''" using fs'(3) [rule_format, of "''/d/in''"] own by simp
  ultimately show ?thesis by (intro exI [of _ fs'] conjI) simp_all
qed

theorem mapreduce_agrees_witness:
  "\<exists>fs1 outs fs2 fsq.
    map_phase esc_json ''/d'' (\<lambda>i j. Some ''/tmp/t'') letters 2 [''in''] 0 [''/d/in'' \<mapsto> ''abca''] = Some (fs1, outs)
    \<and> reduce_phase esc_json (sort_key kvKey) ''/d'' (\<lambda>i. Some ''/tmp/t'') count_vals 2
        [[map_path ''/d'' 0 0], [map_path ''/d'' 0 1]] 0 fs1 = Some fs2
    \<and> mrsequential (sort_key kvKey) ''/d'' letters count_vals [''in''] [''/d/in'' \<mapsto> ''abca''] = Some fsq
    \<and> fs2 (out_path ''/d'' 0) = Some (lines_for count_vals (letters ''in'' ''abca'') {''a'', ''c''})
    \<and> fs2 (out_path ''/d'' 1) = Some (lines_for count_vals (letters ''in'' ''abca'') {''b''})
    \<and> fsq (out_path ''/d'' 0) = Some (lines_for count_vals (letters ''in'' ''abca'') {''a'', ''b'', ''c''})"
proof -
  have two: "nat 2 = Suc (Suc 0)" by simp
  let ?kvs = "letters ''in'' ''abca''"
  have hash: "ihash ''a'' mod 2 = 0" "ihash ''b'' mod 2 = 1" "ihash ''c'' mod 2 = 0"
    by (simp_all add: ihash_fnv1a fnv1a_def)
  have keys: "kvKey ` set ?kvs = {''a'', ''b'', ''c''}" by (auto simp: letters_def)
  have parts: "{k \<in> kvKey ` set ?kvs. ihash k mod 2 = 0} = {''a'', ''c''}" "{k \<in> kvKey ` set ?kvs. ihash k mod 2 = 1} = {''b''}"
    unfolding keys Collect_conj_eq using hash by auto
  have "\<exists>fs1 fs2 fsq.
    map_phase esc_json ''/d'' (\<lambda>i j. Some ''/tmp/t'') letters 2 [''in''] 0 [''/d/in'' \<mapsto> ''abca''] =
      Some (fs1, map (\<lambda>j. map (\<lambda>r. map_path ''/d'' (int j) (int r)) [0..<nat 2]) [0..<length [''in'']])
    \<and> reduce_phase esc_json (sort_key kvKey) ''/d'' (\<lambda>i. Some ''/tmp/t'') count_vals 2
        [[map_path ''/d'' 0 0], [map_path ''/d'' 0 1]] 0 fs1 = Some fs2
    \<and> mrsequential (sort_key kvKey) ''/d'' letters count_vals [''in''] [''/d/in'' \<mapsto> ''abca''] = Some fsq
    \<and> (\<forall>r < nat 2. fs2 (out_path ''/d'' (int r)) = Some (lines_for count_vals ?kvs {k \<in> kvKey ` set ?kvs. ihash k mod 2 = int r}))
    \<and> fsq (out_path ''/d'' 0) = Some (lines_for count_vals ?kvs (kvKey ` set ?kvs))"
    by (rule mapreduce_agrees [where g = "\<lambda>f. ''abca''"])
      (auto simp: esc_json_ok sort_key_ok count_vals_order_free temps_ok_def in_path not_task_file esc_json_valid nat_numeral less_Suc_eq numeral_2_eq_2)
  then show ?thesis
    unfolding two All_less_Suc2 keys using parts [unfolded keys] by auto
qed

end
