(* ===== verification/MRApps.thy ===== *)
theory MRApps
  imports MRCorrect
begin

text \<open>
  The MapReduce applications in \<open>src/src/mrapps\<close>, each with its \<open>Map\<close> and \<open>Reduce\<close>.

  \<open>unicode.IsLetter\<close> reads the Unicode tables, so it is the argument \<open>isLetter\<close>. The order in which
  Go ranges over a map is not specified: it is the argument \<open>iter\<close>. Random numbers, process ids and
  the answers of \<open>syscall.Kill\<close> are arguments too, \<open>os.Exit\<close> and \<open>panic\<close> are \<open>None\<close>, and sleeping does
  nothing. The directory that \<open>jobcount\<close>, \<open>mtiming\<close> and \<open>rtiming\<close> use is the list of the names in it;
  nothing reads the contents of their files.
\<close>

section \<open>Word count\<close>

definition wc_Map :: "(nat \<Rightarrow> bool) \<Rightarrow> string \<Rightarrow> string \<Rightarrow> KeyValue list" where
  "wc_Map isLetter filename contents =
     (let ff = (\<lambda>r. \<not> isLetter r);
          words = FieldsFunc contents ff
      in foldl (\<lambda>kva w. kva @ [\<lparr>kvKey = w, kvVal = ''1''\<rparr>]) [] words)"

definition wc_Reduce :: "string \<Rightarrow> string list \<Rightarrow> string" where
  "wc_Reduce key values = itoa (int (length values))"

section \<open>Index\<close>

definition indexer_Map :: "(nat \<Rightarrow> bool) \<Rightarrow> (string set \<Rightarrow> string list) \<Rightarrow> string \<Rightarrow> string \<Rightarrow> KeyValue list" where
  "indexer_Map isLetter iter document value =
     (let words = FieldsFunc value (\<lambda>x. \<not> isLetter x);
          m = foldl (\<lambda>m w. insert w m) {} words
      in foldl (\<lambda>res w. res @ [\<lparr>kvKey = w, kvVal = document\<rparr>]) [] (iter m))"

definition indexer_Reduce :: "string \<Rightarrow> string list \<Rightarrow> string" where
  "indexer_Reduce key values =
     (let values = sort values in itoa (int (length values)) @ '' '' @ strings_join values '','')"

section \<open>Crashing workers\<close>

text \<open>\<open>maybeCrash\<close> of \<open>crash.go\<close>; \<open>rr\<close> is the random number below 1000.\<close>

definition crash_maybeCrash :: "int \<Rightarrow> unit option" where
  "crash_maybeCrash rr = (if rr < 330 then None else if rr < 660 then Some () else Some ())"

definition nocrash_maybeCrash :: "int \<Rightarrow> unit option" where
  "nocrash_maybeCrash rr = (if False \<and> rr < 500 then None else Some ())"

definition crash_Map :: "int \<Rightarrow> string \<Rightarrow> string \<Rightarrow> KeyValue list option" where
  "crash_Map rr filename contents = do {
     _ \<leftarrow> crash_maybeCrash rr;
     Some [\<lparr>kvKey = ''a'', kvVal = filename\<rparr>,
           \<lparr>kvKey = ''b'', kvVal = itoa (int (length filename))\<rparr>,
           \<lparr>kvKey = ''c'', kvVal = itoa (int (length contents))\<rparr>,
           \<lparr>kvKey = ''d'', kvVal = ''xyzzy''\<rparr>]
   }"

definition nocrash_Map :: "int \<Rightarrow> string \<Rightarrow> string \<Rightarrow> KeyValue list option" where
  "nocrash_Map rr filename contents = do {
     _ \<leftarrow> nocrash_maybeCrash rr;
     Some [\<lparr>kvKey = ''a'', kvVal = filename\<rparr>,
           \<lparr>kvKey = ''b'', kvVal = itoa (int (length filename))\<rparr>,
           \<lparr>kvKey = ''c'', kvVal = itoa (int (length contents))\<rparr>,
           \<lparr>kvKey = ''d'', kvVal = ''xyzzy''\<rparr>]
   }"

definition crash_Reduce :: "int \<Rightarrow> string \<Rightarrow> string list \<Rightarrow> string option" where
  "crash_Reduce rr key values = do {
     _ \<leftarrow> crash_maybeCrash rr;
     let vv = sort values;
     Some (strings_join vv '' '')
   }"

definition nocrash_Reduce :: "int \<Rightarrow> string \<Rightarrow> string list \<Rightarrow> string option" where
  "nocrash_Reduce rr key values = do {
     _ \<leftarrow> nocrash_maybeCrash rr;
     let vv = sort values;
     Some (strings_join vv '' '')
   }"

section \<open>Slow reducers\<close>

definition early_exit_Map :: "string \<Rightarrow> string \<Rightarrow> KeyValue list" where
  "early_exit_Map filename contents = [\<lparr>kvKey = filename, kvVal = ''1''\<rparr>]"

definition early_exit_Reduce :: "string \<Rightarrow> string list \<Rightarrow> string" where
  "early_exit_Reduce key values = itoa (int (length values))"

section \<open>Counting task runs\<close>

text \<open>\<open>ioutil.WriteFile\<close>: the argument says whether it succeeds.\<close>

definition WriteFile :: "bool \<Rightarrow> string \<Rightarrow> string list \<Rightarrow> string list option" where
  "WriteFile ok name dir = (if ok then Some (if name \<in> set dir then dir else dir @ [name]) else None)"

definition jobcount_name :: "int \<Rightarrow> int \<Rightarrow> string" where
  "jobcount_name me cnt = ''mr-worker-jobcount-'' @ itoa me @ ''-'' @ itoa cnt"

definition jobcount_Map ::
  "int \<Rightarrow> bool \<Rightarrow> int \<Rightarrow> string list \<Rightarrow> string \<Rightarrow> string \<Rightarrow> (int \<times> string list \<times> KeyValue list) option" where
  "jobcount_Map me ok cnt dir filename contents = do {
     let f = jobcount_name me cnt;
     let cnt = cnt + 1;
     dir \<leftarrow> WriteFile ok f dir;
     Some (cnt, dir, [\<lparr>kvKey = ''a'', kvVal = ''x''\<rparr>])
   }"

definition HasPrefix :: "string \<Rightarrow> string \<Rightarrow> bool" where
  "HasPrefix s p \<longleftrightarrow> take (length p) s = p"

definition jobcount_Reduce :: "bool \<Rightarrow> string list \<Rightarrow> string \<Rightarrow> string list \<Rightarrow> string option" where
  "jobcount_Reduce ok dir key values =
     (if \<not> ok then None
      else Some (itoa (foldl (\<lambda>invocations f. if HasPrefix f ''mr-worker-jobcount'' then invocations + 1 else invocations) 0 dir)))"

section \<open>Counting parallel workers\<close>

text \<open>
  \<open>fmt.Sscanf(name, "mr-worker-" + phase + "-%d", &x)\<close>: the text up to the verb must match; the verb
  takes blanks, a sign and at least one digit, fails if the number does not fit an \<open>int\<close>, and leaves the
  rest of the name unread.
\<close>

definition isDigit :: "char \<Rightarrow> bool" where
  "isDigit c \<longleftrightarrow> 48 \<le> (of_char c :: nat) \<and> (of_char c :: nat) < 58"

definition scan_digits :: "string \<Rightarrow> nat option" where
  "scan_digits s = (let ds = takeWhile isDigit s in if ds = [] then None else Some (undigits ds))"

definition scan_int :: "string \<Rightarrow> int option" where
  "scan_int s =
     (let s = dropWhile (\<lambda>c. c = CHR '' '' \<or> c = CHR 0x09 \<or> c = CHR 0x0B \<or> c = CHR 0x0C \<or> c = CHR 0x0D) s;
          (neg, s) = (if s \<noteq> [] \<and> hd s = CHR ''-'' then (True, tl s) else if s \<noteq> [] \<and> hd s = CHR ''+'' then (False, tl s) else (False, s))
      in do {
        n \<leftarrow> scan_digits s;
        let i = (if neg then - int n else int n);
        if - (2 ^ 63) \<le> i \<and> i < 2 ^ 63 then Some i else None
      })"

definition scan_pid :: "string \<Rightarrow> string \<Rightarrow> int option" where
  "scan_pid phase name =
     (let pre = ''mr-worker-'' @ phase @ ''-''
      in if HasPrefix name pre then scan_int (drop (length pre) name) else None)"

definition worker_name :: "string \<Rightarrow> int \<Rightarrow> string" where
  "worker_name phase pid = ''mr-worker-'' @ phase @ ''-'' @ itoa pid"

text \<open>
  The flags of \<open>oks\<close> say whether writing the file, opening the directory, listing it and removing the
  file succeed. \<open>Readdirnames\<close> returns at most \<open>1000000\<close> names, and fails on an empty directory.
  \<open>alive\<close> is the answer of \<open>syscall.Kill(pid, 0)\<close>; \<open>after\<close> is what the directory holds when the second
  of sleep is over.
\<close>

definition nparallel ::
  "bool \<times> bool \<times> bool \<times> bool \<Rightarrow> int \<Rightarrow> (int \<Rightarrow> bool) \<Rightarrow> (string list \<Rightarrow> string list) \<Rightarrow> string \<Rightarrow> string list
     \<Rightarrow> (string list \<times> int) option" where
  "nparallel oks pid alive after phase dir = (case oks of (wr, op, ls, rm) \<Rightarrow> do {
     let myfilename = worker_name phase pid;
     dir \<leftarrow> WriteFile wr myfilename dir;
     if \<not> op \<or> \<not> ls \<or> dir = [] then None
     else do {
       let names = take 1000000 dir;
       let ret = foldl (\<lambda>ret name. case scan_pid phase name of
           Some xpid \<Rightarrow> if alive xpid then ret + 1 else ret
         | None \<Rightarrow> ret) 0 names;
       let dir = after dir;
       if \<not> rm \<or> myfilename \<notin> set dir then None
       else Some (remove1 myfilename dir, ret)
     }
   })"

text \<open>\<open>rtiming.go\<close> has its own copy of the same function.\<close>

definition rtiming_nparallel ::
  "bool \<times> bool \<times> bool \<times> bool \<Rightarrow> int \<Rightarrow> (int \<Rightarrow> bool) \<Rightarrow> (string list \<Rightarrow> string list) \<Rightarrow> string \<Rightarrow> string list
     \<Rightarrow> (string list \<times> int) option" where
  "rtiming_nparallel = nparallel"

text \<open>\<open>Map\<close> of \<open>mtiming.go\<close>; \<open>ts\<close> is the time it prints.\<close>

definition mtiming_Map ::
  "bool \<times> bool \<times> bool \<times> bool \<Rightarrow> int \<Rightarrow> (int \<Rightarrow> bool) \<Rightarrow> (string list \<Rightarrow> string list) \<Rightarrow> string \<Rightarrow> string \<Rightarrow> string \<Rightarrow> string list
     \<Rightarrow> (string list \<times> KeyValue list) option" where
  "mtiming_Map oks pid alive after ts filename contents dir = do {
     (dir, n) \<leftarrow> nparallel oks pid alive after ''map'' dir;
     Some (dir, [\<lparr>kvKey = ''times-'' @ itoa pid, kvVal = ts\<rparr>, \<lparr>kvKey = ''parallel-'' @ itoa pid, kvVal = itoa n\<rparr>])
   }"

definition mtiming_Reduce :: "string \<Rightarrow> string list \<Rightarrow> string" where
  "mtiming_Reduce key values = (let vv = sort values in strings_join vv '' '')"

definition rtiming_Map :: "string \<Rightarrow> string \<Rightarrow> KeyValue list" where
  "rtiming_Map filename contents =
     map (\<lambda>k. \<lparr>kvKey = k, kvVal = ''1''\<rparr>) [''a'', ''b'', ''c'', ''d'', ''e'', ''f'', ''g'', ''h'', ''i'', ''j'']"

definition rtiming_Reduce ::
  "bool \<times> bool \<times> bool \<times> bool \<Rightarrow> int \<Rightarrow> (int \<Rightarrow> bool) \<Rightarrow> (string list \<Rightarrow> string list) \<Rightarrow> string \<Rightarrow> string list \<Rightarrow> string list
     \<Rightarrow> (string list \<times> string) option" where
  "rtiming_Reduce oks pid alive after key values dir = do {
     (dir, n) \<leftarrow> rtiming_nparallel oks pid alive after ''reduce'' dir;
     Some (dir, itoa n)
   }"

section \<open>What the applications compute\<close>

lemma foldl_snoc: "foldl (\<lambda>acc x. acc @ [f x]) acc xs = acc @ map f xs"
  by (induction xs arbitrary: acc) auto

lemma foldl_insert: "foldl (\<lambda>m w. insert w m) m ws = m \<union> set ws"
  by (induction ws arbitrary: m) auto

lemma foldl_count: "foldl (\<lambda>n x. if P x then n + 1 else n) (n :: int) xs = n + int (length (filter P xs))"
  by (induction xs arbitrary: n) auto

lemma length_filter_count: "length (filter (\<lambda>x. x = w) ws) = count_list ws w"
  by (induction ws) auto

abbreviation words_of :: "(nat \<Rightarrow> bool) \<Rightarrow> string \<Rightarrow> string list" where
  "words_of isLetter contents \<equiv> FieldsFunc contents (\<lambda>r. \<not> isLetter r)"

lemma wc_Map_words: "wc_Map L f s = map (\<lambda>w. \<lparr>kvKey = w, kvVal = ''1''\<rparr>) (words_of L s)"
  by (simp add: wc_Map_def foldl_snoc)

lemma indexer_Map_words: "indexer_Map L iter f s = map (\<lambda>w. \<lparr>kvKey = w, kvVal = f\<rparr>) (iter (set (words_of L s)))"
  by (simp add: indexer_Map_def foldl_snoc foldl_insert)

lemma sort_mset_cong: "mset vs = mset ws \<Longrightarrow> sort vs = sort (ws :: string list)"
  by (metis mset_sort properties_for_sort sorted_sort)

lemma reduce_order_free:
  "order_free wc_Reduce" "order_free indexer_Reduce" "order_free early_exit_Reduce" "order_free mtiming_Reduce"
proof -
  have "length vs = length ws \<and> sort vs = sort ws" if "mset vs = mset ws" for vs ws :: "string list"
    using mset_eq_length [OF that] sort_mset_cong [OF that] by (rule conjI)
  then show "order_free wc_Reduce" "order_free indexer_Reduce" "order_free early_exit_Reduce" "order_free mtiming_Reduce"
    unfolding order_free_def wc_Reduce_def indexer_Reduce_def early_exit_Reduce_def mtiming_Reduce_def Let_def
    by metis+
qed

text \<open>
  C28. Word count. The sequential program with the \<open>wc\<close> application prints one line for each word of
  the input files, in the order of the words, with the number of times the word occurs in all the
  files together.
\<close>

theorem wc_counts:
  assumes srt: "sort_ByKey_ok srt" and fs: "\<forall>f \<in> set inputs. fs (abs_path dir f) = Some (g f)"
    and ws: "ws = concat (map (\<lambda>f. words_of isLetter (g f)) inputs)"
  shows "\<exists>fs'. mrsequential srt dir (wc_Map isLetter) wc_Reduce inputs fs = Some fs'
    \<and> fs' (path_join dir ''mr-out-0'') =
        Some (concat (map (\<lambda>w. w @ '' '' @ itoa (int (count_list ws w)) @ newline) (sorted_list_of_set (set ws))))"
proof -
  let ?kvs = "concat (map (\<lambda>f. wc_Map isLetter f (g f)) inputs)"
  have kvs: "?kvs = map (\<lambda>w. \<lparr>kvKey = w, kvVal = ''1''\<rparr>) ws"
    by (simp add: ws wc_Map_words map_concat comp_def)
  have lines: "key_line wc_Reduce ?kvs = (\<lambda>w. w @ '' '' @ itoa (int (count_list ws w)) @ newline)"
    by (rule ext) (simp add: kvs key_line_def values_of_def wc_Reduce_def filter_map comp_def length_filter_count)
  have keys: "kvKey ` set ?kvs = set ws" unfolding kvs by (auto simp: image_image)
  show ?thesis
    using mrsequential_lines [where mapf = "wc_Map isLetter", OF srt reduce_order_free(1) fs refl]
    unfolding lines_for_def lines keys by simp
qed

text \<open>
  C29. Index. The sequential program with the \<open>indexer\<close> application prints one line for each word of
  the input files, in the order of the words, with the number of the files that contain it and their
  names in order, in whatever order Go ranges over the map of words.
\<close>

theorem indexer_lists:
  assumes srt: "sort_ByKey_ok srt" and fs: "\<forall>f \<in> set inputs. fs (abs_path dir f) = Some (g f)"
    and iter: "\<forall>S. finite S \<longrightarrow> set (iter S) = S \<and> distinct (iter S)"
    and docs: "\<forall>w. docs w = sort (filter (\<lambda>f. w \<in> set (words_of isLetter (g f))) inputs)"
  shows "\<exists>fs'. mrsequential srt dir (indexer_Map isLetter iter) indexer_Reduce inputs fs = Some fs'
    \<and> fs' (path_join dir ''mr-out-0'') =
        Some (concat (map (\<lambda>w. w @ '' '' @ itoa (int (length (docs w))) @ '' '' @ strings_join (docs w) '','' @ newline)
          (sorted_list_of_set (\<Union>f \<in> set inputs. set (words_of isLetter (g f))))))"
proof -
  let ?map = "\<lambda>f. indexer_Map isLetter iter f (g f)"
  let ?kvs = "concat (map ?map inputs)"
  have once: "map kvVal (filter (\<lambda>x. kvKey x = w) (?map f)) = (if w \<in> set (words_of isLetter (g f)) then [f] else [])" for w f
  proof -
    have it: "set (iter (set (words_of isLetter (g f)))) = set (words_of isLetter (g f))"
      "distinct (iter (set (words_of isLetter (g f))))" using iter by auto
    have "filter (\<lambda>x. x = w) ws = (if w \<in> set ws then [w] else [])" if "distinct ws" for ws
      using that by (induction ws) auto
    from this [OF it(2)] it(1) show ?thesis by (simp add: indexer_Map_words filter_map comp_def)
  qed
  have "values_of w ?kvs = filter (\<lambda>f. w \<in> set (words_of isLetter (g f))) inputs" for w
    unfolding values_of_def by (induction inputs) (auto simp: once)
  then have lines: "key_line indexer_Reduce ?kvs =
      (\<lambda>w. w @ '' '' @ itoa (int (length (docs w))) @ '' '' @ strings_join (docs w) '','' @ newline)"
    by (intro ext) (simp add: key_line_def indexer_Reduce_def docs Let_def)
  have keys: "kvKey ` set ?kvs = (\<Union>f \<in> set inputs. set (words_of isLetter (g f)))"
    using iter by (simp add: indexer_Map_words image_image image_UN)
  show ?thesis
    using mrsequential_lines [where mapf = "indexer_Map isLetter iter", OF srt reduce_order_free(2) fs refl]
    unfolding lines_for_def lines keys by simp
qed

section \<open>Counting task runs\<close>

text \<open>Calls of \<open>Map\<close> by the workers \<open>mes\<close>, each with a counter of its own.\<close>

fun jobcount_run :: "int list \<Rightarrow> (int \<Rightarrow> int) \<Rightarrow> string list \<Rightarrow> string list option" where
  "jobcount_run [] cnts dir = Some dir"
| "jobcount_run (me # mes) cnts dir = do {
     (cnt, dir, kva) \<leftarrow> jobcount_Map me True (cnts me) dir [] [];
     jobcount_run mes (cnts(me := cnt)) dir
   }"

lemma jobcount_name_inject:
  "0 \<le> p \<Longrightarrow> 0 \<le> k \<Longrightarrow> 0 \<le> p' \<Longrightarrow> 0 \<le> k' \<Longrightarrow> jobcount_name p k = jobcount_name p' k' \<longleftrightarrow> p = p' \<and> k = k'"
  using digits_minus_inject [of "nat p" "nat k" "nat p'" "nat k'"]
  by (auto simp: jobcount_name_def itoa_def eq_nat_nat_iff)

definition jobcount_dir :: "(int \<Rightarrow> int) \<Rightarrow> string list \<Rightarrow> bool" where
  "jobcount_dir cnts dir \<longleftrightarrow> (\<forall>n \<in> set dir. \<exists>p k. 0 \<le> p \<and> 0 \<le> k \<and> k < cnts p \<and> n = jobcount_name p k)"

lemma jobcount_run_dir:
  assumes "\<forall>p \<in> set mes. 0 \<le> p" and "\<forall>p. 0 \<le> cnts p" and "jobcount_dir cnts dir"
  shows "\<exists>cnts' dir'. jobcount_run mes cnts dir = Some dir' \<and> jobcount_dir cnts' dir' \<and> length dir' = length dir + length mes"
  using assms
proof (induction mes arbitrary: cnts dir)
  case (Cons me mes)
  let ?n = "jobcount_name me (cnts me)"
  have pos: "0 \<le> me" "0 \<le> cnts me" using Cons.prems by auto
  have new: "?n \<notin> set dir"
  proof
    assume "?n \<in> set dir"
    then obtain p k where "0 \<le> p" "0 \<le> k" "k < cnts p" "?n = jobcount_name p k"
      using Cons.prems(3) by (auto simp: jobcount_dir_def)
    with pos show False by (auto simp: jobcount_name_inject)
  qed
  let ?cnts = "cnts(me := cnts me + 1)"
  have "\<exists>p k. 0 \<le> p \<and> 0 \<le> k \<and> k < ?cnts p \<and> n = jobcount_name p k" if "n \<in> set (dir @ [?n])" for n
  proof (cases "n \<in> set dir")
    case True
    then obtain p k where "0 \<le> p \<and> 0 \<le> k \<and> k < cnts p \<and> n = jobcount_name p k"
      using Cons.prems(3) by (auto simp: jobcount_dir_def)
    then show ?thesis by (intro exI [of _ p] exI [of _ k]) auto
  next
    case False
    with that have "n = ?n" by simp
    with pos show ?thesis by (intro exI [of _ me] exI [of _ "cnts me"]) simp
  qed
  then have "jobcount_dir ?cnts (dir @ [?n])" by (simp add: jobcount_dir_def)
  moreover have "\<forall>p. 0 \<le> ?cnts p" using Cons.prems(2) by (simp add: add_nonneg_nonneg)
  moreover have "\<forall>p \<in> set mes. 0 \<le> p" using Cons.prems(1) by simp
  ultimately obtain cnts' dir' where "jobcount_run mes ?cnts (dir @ [?n]) = Some dir'" "jobcount_dir cnts' dir'"
    "length dir' = length (dir @ [?n]) + length mes"
    using Cons.IH by blast
  with new show ?case by (auto simp: jobcount_Map_def WriteFile_def)
qed auto

text \<open>
  The \<open>jobcount\<close> application counts task runs: when the workers call its \<open>Map\<close> any number of
  times, in any order, in a directory that holds no file of an earlier run, its \<open>Reduce\<close> prints the
  number of the calls. No two calls write the same file.
\<close>

theorem jobcount_counts:
  assumes "\<forall>p \<in> set mes. 0 \<le> p"
  shows "\<exists>dir. jobcount_run mes (\<lambda>p. 0) [] = Some dir
    \<and> jobcount_Reduce True dir key vals = Some (itoa (int (length mes)))"
proof -
  obtain cnts dir where dir: "jobcount_run mes (\<lambda>p. 0) [] = Some dir" "jobcount_dir cnts dir" "length dir = length mes"
    using jobcount_run_dir [OF assms, of "\<lambda>p. 0" "[]"] by (auto simp: jobcount_dir_def)
  have "\<forall>f \<in> set dir. HasPrefix f ''mr-worker-jobcount''"
    using dir(2) by (auto simp: jobcount_dir_def HasPrefix_def jobcount_name_def)
  then have "filter (\<lambda>f. HasPrefix f ''mr-worker-jobcount'') dir = dir" by (simp add: filter_id_conv)
  with dir show ?thesis by (simp add: jobcount_Reduce_def foldl_count)
qed

theorem jobcount_counts_witness:
  "\<exists>dir. jobcount_run [7, 9, 7] (\<lambda>p. 0) [] = Some dir \<and> jobcount_Reduce True dir ''a'' [''x''] = Some (itoa (int (length [7, 9, 7 :: int])))"
  by (rule jobcount_counts) simp

section \<open>Counting parallel workers\<close>

lemma digits_digits: "\<forall>c \<in> set (digits n). isDigit c"
  using digits_range by (auto simp: isDigit_def)

lemma scan_int_digits:
  assumes "int n < 2 ^ 63"
  shows "scan_int (digits n) = Some (int n)"
proof -
  obtain c cs where cs: "digits n = c # cs" by (cases "digits n") auto
  have "isDigit c" using digits_digits [of n] cs by simp
  then have c: "c \<noteq> CHR '' ''" "c \<noteq> CHR 0x09" "c \<noteq> CHR 0x0B" "c \<noteq> CHR 0x0C" "c \<noteq> CHR 0x0D" "c \<noteq> CHR ''-''" "c \<noteq> CHR ''+''"
    by (auto simp: isDigit_def)
  have "takeWhile isDigit (digits n) = digits n" using digits_digits by (simp add: takeWhile_eq_all_conv)
  then have "scan_digits (digits n) = Some n" unfolding scan_digits_def by (simp only: Let_def undigits_digits digits_nonempty if_False)
  then have "scan_digits (c # cs) = Some n" by (simp add: cs)
  then show ?thesis using c assms by (simp add: scan_int_def cs Let_def)
qed

lemma scan_pid_worker: "0 \<le> p \<Longrightarrow> p < 2 ^ 63 \<Longrightarrow> scan_pid phase (worker_name phase p) = Some p"
  using scan_int_digits [of "nat p"]
  by (simp add: scan_pid_def worker_name_def HasPrefix_def itoa_def Let_def)

lemma worker_name_inject [simp]: "worker_name phase p = worker_name phase q \<longleftrightarrow> p = q"
  by (simp add: worker_name_def)

lemma foldl_workers:
  assumes "\<forall>p \<in> set ps. 0 \<le> p \<and> p < 2 ^ 63"
  shows "foldl (\<lambda>ret name. case scan_pid phase name of Some xpid \<Rightarrow> if alive xpid then ret + 1 else ret | None \<Rightarrow> ret)
    n (map (worker_name phase) ps) = n + int (length (filter alive ps))"
  using assms by (induction ps arbitrary: n) (auto simp: scan_pid_worker)

text \<open>
  \<open>nparallel\<close> counts the live workers of its phase: in a directory with the files of the workers
  \<open>ps\<close>, a live worker \<open>pid\<close> counts itself and those of \<open>ps\<close> that are alive, not the ones that have died
  and left their file, and its own file is gone when it returns.
\<close>

theorem nparallel_counts:
  assumes "\<forall>p \<in> set (pid # ps). 0 \<le> p \<and> p < 2 ^ 63" and "distinct (pid # ps)" and "alive pid" and "length ps < 1000000"
  shows "nparallel (True, True, True, True) pid alive (\<lambda>dir. dir) phase (map (worker_name phase) ps) =
    Some (map (worker_name phase) ps, 1 + int (length (filter alive ps)))"
proof -
  have new: "worker_name phase pid \<notin> set (map (worker_name phase) ps)" using assms(2) by auto
  have "foldl (\<lambda>ret name. case scan_pid phase name of Some xpid \<Rightarrow> if alive xpid then ret + 1 else ret | None \<Rightarrow> ret)
      0 (map (worker_name phase) (ps @ [pid])) = int (length (filter alive (ps @ [pid])))"
    using foldl_workers [of "ps @ [pid]"] assms(1) by simp
  then show ?thesis
    using new assms(3,4) by (simp add: nparallel_def WriteFile_def remove1_append)
qed

theorem nparallel_counts_witness:
  "nparallel (True, True, True, True) 12 (\<lambda>p. p \<noteq> 8) (\<lambda>dir. dir) ''map'' (map (worker_name ''map'') [7, 8]) =
    Some (map (worker_name ''map'') [7, 8], 1 + int (length (filter (\<lambda>p. p \<noteq> 8) [7, 8 :: int])))"
  by (rule nparallel_counts) simp_all

section \<open>Witnesses\<close>

definition lower :: "nat \<Rightarrow> bool" where
  "lower r \<longleftrightarrow> 97 \<le> r \<and> r \<le> 122"

lemma words_example:
  "words_of lower ''to be, or not to be'' = [''to'', ''be'', ''or'', ''not'', ''to'', ''be'']"
  by code_simp

theorem wc_counts_witness:
  "\<exists>fs'. mrsequential (sort_key kvKey) ''/d'' (wc_Map lower) wc_Reduce [''f''] [''/d/f'' \<mapsto> ''to be, or not to be''] = Some fs'
    \<and> fs' (path_join ''/d'' ''mr-out-0'') =
        Some (concat (map (\<lambda>w. w @ '' '' @ itoa (int (count_list [''to'', ''be'', ''or'', ''not'', ''to'', ''be''] w)) @ newline)
          (sorted_list_of_set (set [''to'', ''be'', ''or'', ''not'', ''to'', ''be'']))))"
  by (rule wc_counts [where g = "\<lambda>f. ''to be, or not to be''"]) (simp_all add: sort_key_ok words_example abs_path_def is_abs_def path_join_def)

theorem indexer_lists_witness:
  "\<exists>fs'. mrsequential (sort_key kvKey) ''/d'' (indexer_Map lower sorted_list_of_set) indexer_Reduce [''g'', ''f'']
      (\<lambda>f. Some ''to be, or not to be'') = Some fs'
    \<and> fs' (path_join ''/d'' ''mr-out-0'') =
        Some (concat (map (\<lambda>w. w @ '' '' @ itoa (int (length (sort (filter (\<lambda>f. w \<in> set (words_of lower ''to be, or not to be'')) [''g'', ''f'']))))
            @ '' '' @ strings_join (sort (filter (\<lambda>f. w \<in> set (words_of lower ''to be, or not to be'')) [''g'', ''f''])) '','' @ newline)
          (sorted_list_of_set (\<Union>f \<in> set [''g'', ''f'']. set (words_of lower ''to be, or not to be'')))))"
  by (rule indexer_lists [where g = "\<lambda>f. ''to be, or not to be''"]) (simp_all add: sort_key_ok)

end
