(* ===== verification/MRCoordinator.thy ===== *)
theory MRCoordinator
  imports MRCorrect
begin

text \<open>
  The MapReduce master, \<open>src/src/mr/coordinator.go\<close>, and the loop of a worker.

  An operation ends in a state, in a panic (a nil entry of \<open>TaskMeta\<close>, an index out of range), or it
  blocks: a send on the full channel \<open>TaskQueue\<close> waits for a receiver, but every receiver needs the mutex
  \<open>mu\<close> that the sender holds, so it waits for ever. \<open>TaskQueue\<close> is the buffer of the channel and \<open>QueueCap\<close>
  its capacity. \<open>TaskMeta\<close> is an association list; the order in which Go ranges over it is an argument
  where it matters. \<open>TaskCompleted\<close> starts a goroutine for \<open>processTaskResult\<close>: \<open>Goroutines\<close> are the ones
  that have not yet taken the mutex. Times are in seconds.
\<close>

section \<open>State\<close>

datatype 'a outcome = Ret 'a | Panic | Blocked

fun and_then :: "'a outcome \<Rightarrow> ('a \<Rightarrow> 'b outcome) \<Rightarrow> 'b outcome" where
  "and_then (Ret x) f = f x"
| "and_then Panic f = Panic"
| "and_then Blocked f = Blocked"

datatype MasterTaskStatus = Idle | InProgress | Completed

record MasterTask =
  TaskStatus :: MasterTaskStatus
  StartTime :: int
  TaskReference :: Task

record Master =
  TaskQueue :: "Task list"
  QueueCap :: nat
  TaskMeta :: "(int \<times> MasterTask) list"
  MasterPhase :: State
  NReduce :: int
  InputFiles :: "string list"
  Intermediates :: "string list list"
  Goroutines :: "Task list"

fun meta_put :: "int \<Rightarrow> MasterTask \<Rightarrow> (int \<times> MasterTask) list \<Rightarrow> (int \<times> MasterTask) list" where
  "meta_put k v [] = [(k, v)]"
| "meta_put k v ((k', v') # xs) = (if k = k' then (k, v) # xs else (k', v') # meta_put k v xs)"

definition send :: "Task \<Rightarrow> Master \<Rightarrow> Master outcome" where
  "send t m = (if length (TaskQueue m) < QueueCap m then Ret (m\<lparr>TaskQueue := TaskQueue m @ [t]\<rparr>) else Blocked)"

definition zero_task :: Task where
  "zero_task = \<lparr>tInput = [], TaskState = Map, NReducer = 0, TaskNumber = 0, tIntermediates = [], tOutput = []\<rparr>"

section \<open>Creating tasks\<close>

definition mr_max :: "int \<Rightarrow> int \<Rightarrow> int" where
  "mr_max a b = (if a > b then a else b)"

definition enqueue_task :: "int \<Rightarrow> Task \<Rightarrow> Master \<Rightarrow> Master outcome" where
  "enqueue_task k t m = and_then (send t m) (\<lambda>m.
     Ret (m\<lparr>TaskMeta := meta_put k \<lparr>TaskStatus = Idle, StartTime = 0, TaskReference = t\<rparr> (TaskMeta m)\<rparr>))"

fun createMapTask_loop :: "string list \<Rightarrow> int \<Rightarrow> Master \<Rightarrow> Master outcome" where
  "createMapTask_loop [] i m = Ret m"
| "createMapTask_loop (filename # rest) i m =
     and_then (enqueue_task i \<lparr>tInput = filename, TaskState = Map, NReducer = NReduce m, TaskNumber = i,
         tIntermediates = [], tOutput = []\<rparr> m) (createMapTask_loop rest (i + 1))"

definition createMapTask :: "Master \<Rightarrow> Master outcome" where
  "createMapTask m = createMapTask_loop (InputFiles m) 0 m"

fun createReduceTask_loop :: "string list list \<Rightarrow> int \<Rightarrow> Master \<Rightarrow> Master outcome" where
  "createReduceTask_loop [] i m = Ret m"
| "createReduceTask_loop (files # rest) i m =
     and_then (enqueue_task i \<lparr>tInput = [], TaskState = Reduce, NReducer = NReduce m, TaskNumber = i,
         tIntermediates = files, tOutput = []\<rparr> m) (createReduceTask_loop rest (i + 1))"

definition createReduceTask :: "Master \<Rightarrow> Master outcome" where
  "createReduceTask m = createReduceTask_loop (Intermediates m) 0 (m\<lparr>TaskMeta := []\<rparr>)"

definition MakeMaster :: "string list \<Rightarrow> int \<Rightarrow> Master outcome" where
  "MakeMaster files nReduce =
     (if nReduce < 0 then Panic
      else createMapTask \<lparr>TaskQueue = [], QueueCap = nat (mr_max nReduce (int (length files))), TaskMeta = [],
        MasterPhase = Map, NReduce = nReduce, InputFiles = files, Intermediates = replicate (nat nReduce) [],
        Goroutines = []\<rparr>)"

section \<open>Serving workers\<close>

definition Done :: "Master \<Rightarrow> bool" where
  "Done m \<longleftrightarrow> MasterPhase m = Exit"

definition AssignTask :: "int \<Rightarrow> Master \<Rightarrow> (Master \<times> Task) outcome" where
  "AssignTask now m = (case TaskQueue m of
     t # q \<Rightarrow> (case map_of (TaskMeta m) (TaskNumber t) of
         None \<Rightarrow> Panic
       | Some mt \<Rightarrow> Ret (m\<lparr>TaskQueue := q,
             TaskMeta := meta_put (TaskNumber t) (mt\<lparr>TaskStatus := InProgress, StartTime := now\<rparr>) (TaskMeta m)\<rparr>, t))
   | [] \<Rightarrow> if MasterPhase m = Exit then Ret (m, zero_task\<lparr>TaskState := Exit\<rparr>)
       else Ret (m, zero_task\<lparr>TaskState := Wait\<rparr>))"

definition TaskCompleted :: "Task \<Rightarrow> Master \<Rightarrow> Master outcome" where
  "TaskCompleted task m =
     (if TaskState task \<noteq> MasterPhase m then Ret m
      else case map_of (TaskMeta m) (TaskNumber task) of
        None \<Rightarrow> Panic
      | Some mt \<Rightarrow>
          if TaskStatus mt = Completed then Ret m
          else Ret (m\<lparr>TaskMeta := meta_put (TaskNumber task) (mt\<lparr>TaskStatus := Completed\<rparr>) (TaskMeta m),
              Goroutines := Goroutines m @ [task]\<rparr>))"

definition allTaskDone :: "Master \<Rightarrow> bool" where
  "allTaskDone m \<longleftrightarrow> list_all (\<lambda>(k, mt). TaskStatus mt = Completed) (TaskMeta m)"

fun collect_files :: "string list \<Rightarrow> int \<Rightarrow> string list list \<Rightarrow> string list list option" where
  "collect_files [] r ims = Some ims"
| "collect_files (filePath # rest) r ims = do {
     old \<leftarrow> idx ims r;
     ims \<leftarrow> idx_upd ims r (old @ [filePath]);
     collect_files rest (r + 1) ims
   }"

text \<open>The body of the goroutine; the caller removes the goroutine from \<open>Goroutines\<close>.\<close>

definition processTaskResult :: "Task \<Rightarrow> Master \<Rightarrow> Master outcome" where
  "processTaskResult task m = (case TaskState task of
     Map \<Rightarrow> (case collect_files (tIntermediates task) 0 (Intermediates m) of
         None \<Rightarrow> Panic
       | Some ims \<Rightarrow>
           let m = m\<lparr>Intermediates := ims\<rparr>
           in if allTaskDone m then and_then (createReduceTask m) (\<lambda>m. Ret (m\<lparr>MasterPhase := Reduce\<rparr>)) else Ret m)
   | Reduce \<Rightarrow> if allTaskDone m then Ret (m\<lparr>MasterPhase := Exit\<rparr>) else Ret m
   | _ \<Rightarrow> Ret m)"

definition run_goroutine :: "nat \<Rightarrow> Master \<Rightarrow> Master outcome" where
  "run_goroutine g m = processTaskResult (Goroutines m ! g) (m\<lparr>Goroutines := take g (Goroutines m) @ drop (Suc g) (Goroutines m)\<rparr>)"

section \<open>Timeouts\<close>

text \<open>One turn of the loop in \<open>catchTimeOut\<close>; \<open>ks\<close> is the order in which it ranges over the tasks.\<close>

fun timeout_loop :: "int \<Rightarrow> int list \<Rightarrow> Master \<Rightarrow> Master outcome" where
  "timeout_loop now [] m = Ret m"
| "timeout_loop now (k # ks) m = (case map_of (TaskMeta m) k of
     None \<Rightarrow> timeout_loop now ks m
   | Some mt \<Rightarrow>
       if TaskStatus mt = InProgress \<and> now - StartTime mt > 10
       then and_then (send (TaskReference mt) m) (\<lambda>m.
         timeout_loop now ks (m\<lparr>TaskMeta := meta_put k (mt\<lparr>TaskStatus := Idle\<rparr>) (TaskMeta m)\<rparr>))
       else timeout_loop now ks m)"

definition catchTimeOut :: "int \<Rightarrow> int list \<Rightarrow> Master \<Rightarrow> Master outcome" where
  "catchTimeOut now ks m = (if MasterPhase m = Exit then Ret m else timeout_loop now ks m)"

section \<open>A worker\<close>

text \<open>
  One turn of the loop in \<open>Worker\<close>, for the task that the master assigned: the files afterwards and
  the task the worker reports with \<open>TaskCompleted\<close>, if any; and whether the loop goes on.
\<close>

definition Worker_turn ::
  "json \<Rightarrow> (KeyValue list \<Rightarrow> KeyValue list) \<Rightarrow> string \<Rightarrow> (int \<Rightarrow> string option) \<Rightarrow> (string \<Rightarrow> string \<Rightarrow> KeyValue list)
     \<Rightarrow> (string \<Rightarrow> string list \<Rightarrow> string) \<Rightarrow> Task \<Rightarrow> files \<Rightarrow> (files \<times> Task option \<times> bool) option" where
  "Worker_turn J srt dir temps mapf reducef task fs = (case TaskState task of
     Map \<Rightarrow> do { (fs, task) \<leftarrow> mapper J dir temps mapf task fs; Some (fs, Some task, True) }
   | Reduce \<Rightarrow> do { (fs, task) \<leftarrow> reducer J srt dir (temps 0) reducef task fs; Some (fs, Some task, True) }
   | Wait \<Rightarrow> Some (fs, None, True)
   | Exit \<Rightarrow> Some (fs, None, False))"

text \<open>The report of a worker that has done a task.\<close>

definition report :: "string \<Rightarrow> Task \<Rightarrow> Task" where
  "report dir t = (case TaskState t of
     Map \<Rightarrow> t\<lparr>tIntermediates := map (\<lambda>r. map_path dir (TaskNumber t) (int r)) [0..<nat (NReducer t)]\<rparr>
   | Reduce \<Rightarrow> t\<lparr>tOutput := ''mr-out-'' @ itoa (TaskNumber t)\<rparr>
   | _ \<Rightarrow> t)"

section \<open>A master and its workers\<close>

text \<open>
  The tasks that workers hold, and the steps of the system when no task times out: a worker asks for a
  task, a worker reports one, a goroutine takes the mutex. With \<open>serial\<close>, a report waits until the
  goroutines of earlier reports have run.
\<close>

inductive mr_step :: "string \<Rightarrow> bool \<Rightarrow> Master \<times> Task list \<Rightarrow> Master \<times> Task list \<Rightarrow> bool"
  for dir :: string and serial :: bool where
  assign: "AssignTask now m = Ret (m', t) \<Longrightarrow>
    mr_step dir serial (m, held) (m', if TaskState t = Map \<or> TaskState t = Reduce then t # held else held)"
| complete: "t \<in> set held \<Longrightarrow> serial \<longrightarrow> Goroutines m = [] \<Longrightarrow> TaskCompleted (report dir t) m = Ret m' \<Longrightarrow>
    mr_step dir serial (m, held) (m', remove1 t held)"
| goroutine: "g < length (Goroutines m) \<Longrightarrow> run_goroutine g m = Ret m' \<Longrightarrow>
    mr_step dir serial (m, held) (m', held)"

inductive mr_reach :: "string \<Rightarrow> bool \<Rightarrow> string list \<Rightarrow> int \<Rightarrow> Master \<times> Task list \<Rightarrow> bool"
  for dir :: string and serial :: bool and files :: "string list" and n :: int where
  start: "MakeMaster files n = Ret m \<Longrightarrow> mr_reach dir serial files n (m, [])"
| step: "mr_reach dir serial files n s \<Longrightarrow> mr_step dir serial s s' \<Longrightarrow> mr_reach dir serial files n s'"

end
