(* ===== verification/MRCoordCorrect.thy ===== *)
theory MRCoordCorrect
  imports MRCoordinator
begin

text \<open>
  The MapReduce master without timeouts: no operation panics or blocks; when the results of tasks are
  processed one after the other, every reduce task gets exactly the files that the map tasks wrote
  for it, and while the job is not done there is a step that brings its end nearer. Runs that show what goes wrong when results are
  processed late or tasks time out.
\<close>

section \<open>Tables of tasks\<close>

definition meta_status :: "(int \<times> MasterTask) list \<Rightarrow> int \<Rightarrow> MasterTaskStatus option" where
  "meta_status xs k = map_option TaskStatus (map_of xs k)"

abbreviation status :: "Master \<Rightarrow> int \<Rightarrow> MasterTaskStatus option" where
  "status m \<equiv> meta_status (TaskMeta m)"

lemma map_of_meta_put [simp]: "map_of (meta_put k v xs) = (map_of xs)(k \<mapsto> v)"
  by (induction k v xs rule: meta_put.induct) auto

lemma keys_meta_put: "map fst (meta_put k v xs) = (if k \<in> fst ` set xs then map fst xs else map fst xs @ [k])"
  by (induction k v xs rule: meta_put.induct) auto

lemma distinct_meta_put [simp]: "distinct (map fst (meta_put k v xs)) \<longleftrightarrow> distinct (map fst xs)"
  by (auto simp: keys_meta_put)

lemma meta_put_snoc: "k \<notin> fst ` set xs \<Longrightarrow> meta_put k v xs = xs @ [(k, v)]"
  by (induction k v xs rule: meta_put.induct) auto

lemma allTaskDone_iff:
  assumes "distinct (map fst (TaskMeta m))"
  shows "allTaskDone m \<longleftrightarrow> (\<forall>k s. status m k = Some s \<longrightarrow> s = Completed)"
proof -
  have "(k, mt) \<in> set (TaskMeta m) \<longleftrightarrow> map_of (TaskMeta m) k = Some mt" for k mt
    using assms by (simp add: map_of_eq_Some_iff)
  then show ?thesis unfolding allTaskDone_def list_all_iff meta_status_def by fastforce
qed

section \<open>Creating tasks\<close>

abbreviation idle_entry :: "Task \<Rightarrow> int \<times> MasterTask" where
  "idle_entry t \<equiv> (TaskNumber t, \<lparr>TaskStatus = Idle, StartTime = 0, TaskReference = t\<rparr>)"

abbreviation map_task :: "int \<Rightarrow> int \<Rightarrow> string \<Rightarrow> Task" where
  "map_task n i f \<equiv> \<lparr>tInput = f, TaskState = Map, NReducer = n, TaskNumber = i, tIntermediates = [], tOutput = []\<rparr>"

abbreviation reduce_task :: "int \<Rightarrow> int \<Rightarrow> string list \<Rightarrow> Task" where
  "reduce_task n i fs \<equiv> \<lparr>tInput = [], TaskState = Reduce, NReducer = n, TaskNumber = i, tIntermediates = fs, tOutput = []\<rparr>"

lemma enqueue_task_new:
  assumes "length (TaskQueue m) < QueueCap m" and "\<forall>k \<in> fst ` set (TaskMeta m). k < TaskNumber t"
  shows "enqueue_task (TaskNumber t) t m = Ret (m\<lparr>TaskQueue := TaskQueue m @ [t], TaskMeta := TaskMeta m @ [idle_entry t]\<rparr>)"
proof -
  have "TaskNumber t \<notin> fst ` set (TaskMeta m)" using assms(2) by blast
  then show ?thesis using assms(1) by (simp add: enqueue_task_def send_def meta_put_snoc)
qed

text \<open>Both loops put the tasks \<open>f 0\<close>, \<open>f 1\<close>, ... at the end of the queue and of the table.\<close>

definition with_tasks :: "Master \<Rightarrow> Task list \<Rightarrow> Master" where
  "with_tasks m ts = m\<lparr>TaskQueue := TaskQueue m @ ts, TaskMeta := TaskMeta m @ map idle_entry ts\<rparr>"

lemma createMapTask_loop_tasks:
  assumes "length (TaskQueue m) + length fs \<le> QueueCap m" and "\<forall>k \<in> fst ` set (TaskMeta m). k < i"
  shows "createMapTask_loop fs i m = Ret (with_tasks m (map (\<lambda>j. map_task (NReduce m) (i + int j) (fs ! j)) [0..<length fs]))"
  using assms
proof (induction fs arbitrary: i m)
  case Nil
  then show ?case by (simp add: with_tasks_def)
next
  case (Cons f fs)
  let ?t = "map_task (NReduce m) i f"
  let ?m = "m\<lparr>TaskQueue := TaskQueue m @ [?t], TaskMeta := TaskMeta m @ [idle_entry ?t]\<rparr>"
  have "enqueue_task i ?t m = Ret ?m" using Cons.prems enqueue_task_new [of m ?t] by simp
  moreover have "\<forall>k \<in> fst ` set (TaskMeta ?m). k < i + 1" using Cons.prems(2) by auto
  ultimately show ?case
    using Cons.IH [of ?m "i + 1"] Cons.prems(1)
    by (simp add: with_tasks_def map_upt_Suc add.assoc del: upt_Suc)
qed

lemma createReduceTask_loop_tasks:
  assumes "length (TaskQueue m) + length fss \<le> QueueCap m" and "\<forall>k \<in> fst ` set (TaskMeta m). k < i"
  shows "createReduceTask_loop fss i m = Ret (with_tasks m (map (\<lambda>j. reduce_task (NReduce m) (i + int j) (fss ! j)) [0..<length fss]))"
  using assms
proof (induction fss arbitrary: i m)
  case Nil
  then show ?case by (simp add: with_tasks_def)
next
  case (Cons fs fss)
  let ?t = "reduce_task (NReduce m) i fs"
  let ?m = "m\<lparr>TaskQueue := TaskQueue m @ [?t], TaskMeta := TaskMeta m @ [idle_entry ?t]\<rparr>"
  have "enqueue_task i ?t m = Ret ?m" using Cons.prems enqueue_task_new [of m ?t] by simp
  moreover have "\<forall>k \<in> fst ` set (TaskMeta ?m). k < i + 1" using Cons.prems(2) by auto
  ultimately show ?case
    using Cons.IH [of ?m "i + 1"] Cons.prems(1)
    by (simp add: with_tasks_def map_upt_Suc add.assoc del: upt_Suc)
qed

lemma collect_files_appends:
  assumes "length fs + r \<le> length ims"
  shows "\<exists>ims'. collect_files fs (int r) ims = Some ims' \<and> length ims' = length ims
    \<and> (\<forall>j < length fs. ims' ! (r + j) = ims ! (r + j) @ [fs ! j])
    \<and> (\<forall>j < length ims. j < r \<or> r + length fs \<le> j \<longrightarrow> ims' ! j = ims ! j)"
  using assms
proof (induction fs arbitrary: r ims)
  case (Cons f fs)
  let ?ims = "ims[r := ims ! r @ [f]]"
  have upd: "idx ims (int r) = Some (ims ! r)" "idx_upd ims (int r) (ims ! r @ [f]) = Some ?ims"
    using Cons.prems by (auto simp: idx_def idx_upd_def)
  obtain ims' where ims': "collect_files fs (int (Suc r)) ?ims = Some ims'" "length ims' = length ims"
    "\<forall>j < length fs. ims' ! (Suc r + j) = ?ims ! (Suc r + j) @ [fs ! j]"
    "\<forall>j < length ims. j < Suc r \<or> Suc r + length fs \<le> j \<longrightarrow> ims' ! j = ?ims ! j"
    using Cons.IH [of "Suc r" ?ims] Cons.prems by auto
  have "ims' ! (r + j) = ims ! (r + j) @ [(f # fs) ! j]" if "j < length (f # fs)" for j
    using ims'(3,4) that Cons.prems by (cases j) auto
  moreover have "ims' ! j = ims ! j" if "j < length ims" "j < r \<or> r + length (f # fs) \<le> j" for j
    using ims'(4) that by auto
  moreover have "collect_files (f # fs) (int r) ims = Some ims'" using upd ims'(1) by (simp add: add.commute)
  ultimately show ?case using ims'(2) by (intro exI [of _ ims'] conjI allI impI) simp_all
qed simp

section \<open>The invariant\<close>

definition live_task :: "int \<Rightarrow> State \<Rightarrow> Task \<Rightarrow> bool" where
  "live_task n ph t \<longleftrightarrow> NReducer t = n \<and> TaskState t = ph \<and> (ph = Map \<or> ph = Reduce)"

definition mr_inv :: "Master \<times> Task list \<Rightarrow> bool" where
  "mr_inv s \<longleftrightarrow> (case s of (m, held) \<Rightarrow>
     0 \<le> NReduce m \<and> length (Intermediates m) = nat (NReduce m) \<and> nat (NReduce m) \<le> QueueCap m
     \<and> distinct (map fst (TaskMeta m)) \<and> distinct (map TaskNumber (TaskQueue m @ held))
     \<and> (\<forall>k. status m k = Some Idle \<longleftrightarrow> k \<in> TaskNumber ` set (TaskQueue m))
     \<and> (\<forall>k. status m k = Some InProgress \<longleftrightarrow> k \<in> TaskNumber ` set held)
     \<and> (\<forall>t \<in> set (TaskQueue m @ held). live_task (NReduce m) (MasterPhase m) t)
     \<and> (\<forall>t \<in> set (Goroutines m). TaskState t = Map \<longrightarrow> length (tIntermediates t) \<le> length (Intermediates m)))"

lemma mr_invD:
  assumes "mr_inv (m, held)"
  shows "0 \<le> NReduce m" "length (Intermediates m) = nat (NReduce m)" "nat (NReduce m) \<le> QueueCap m"
    "distinct (map fst (TaskMeta m))" "distinct (map TaskNumber (TaskQueue m @ held))"
    "status m k = Some Idle \<longleftrightarrow> k \<in> TaskNumber ` set (TaskQueue m)"
    "status m k = Some InProgress \<longleftrightarrow> k \<in> TaskNumber ` set held"
    "t \<in> set (TaskQueue m) \<or> t \<in> set held \<Longrightarrow> NReducer t = NReduce m \<and> TaskState t = MasterPhase m \<and> (TaskState t = Map \<or> TaskState t = Reduce)"
    "\<forall>t \<in> set (TaskQueue m @ held). live_task (NReduce m) (MasterPhase m) t"
    "t \<in> set (Goroutines m) \<Longrightarrow> TaskState t = Map \<Longrightarrow> length (tIntermediates t) \<le> length (Intermediates m)"
  using assms unfolding mr_inv_def prod.case by (blast | fastforce simp: live_task_def)+

lemma allTaskDone_empty:
  assumes "mr_inv (m, held)" and "allTaskDone m"
  shows "TaskQueue m = [] \<and> held = []"
proof -
  have "\<forall>k s. status m k = Some s \<longrightarrow> s = Completed"
    using assms(2) allTaskDone_iff [OF mr_invD(4) [OF assms(1)]] by simp
  then have no: "status m k \<noteq> Some Idle \<and> status m k \<noteq> Some InProgress" for k
    by (metis MasterTaskStatus.distinct(3,5))
  have "t \<notin> set (TaskQueue m)" "t \<notin> set held" for t
    using no [of "TaskNumber t"] mr_invD(6,7) [OF assms(1), of "TaskNumber t"] by auto
  then show ?thesis using list.set_intros(1) by (metis neq_Nil_conv)
qed

lemma status_meta_put [simp]: "meta_status (meta_put k v xs) = (meta_status xs)(k \<mapsto> TaskStatus v)"
  by (auto simp: meta_status_def fun_eq_iff)

lemma status_entry: "status m k = Some st \<Longrightarrow> \<exists>mt. map_of (TaskMeta m) k = Some mt \<and> TaskStatus mt = st"
  by (auto simp: meta_status_def)

text \<open>A worker that asks gets the first task of the queue, or is told to wait or to leave.\<close>

lemma AssignTask_cases:
  assumes "mr_inv (m, held)"
  obtains (task) t q mt where "TaskQueue m = t # q" "status m (TaskNumber t) = Some Idle"
    "AssignTask now m = Ret (m\<lparr>TaskQueue := q, TaskMeta := meta_put (TaskNumber t)
       (mt\<lparr>TaskStatus := InProgress, StartTime := now\<rparr>) (TaskMeta m)\<rparr>, t)"
  | (idle) t where "TaskQueue m = []" "AssignTask now m = Ret (m, t)" "TaskState t \<noteq> Map" "TaskState t \<noteq> Reduce"
proof (cases "TaskQueue m")
  case Nil
  then show ?thesis by (intro idle [of "snd (case AssignTask now m of Ret x \<Rightarrow> x)"]) (auto simp: AssignTask_def)
next
  case (Cons t q)
  then have st: "status m (TaskNumber t) = Some Idle" using mr_invD(6) [OF assms] by simp
  then obtain mt where "map_of (TaskMeta m) (TaskNumber t) = Some mt" using status_entry by blast
  with Cons st show ?thesis by (intro task [of t q mt]) (simp_all add: AssignTask_def)
qed

lemma mr_inv_assign:
  assumes inv: "mr_inv (m, held)" and "AssignTask now m = Ret (m', t)"
  shows "mr_inv (m', if TaskState t = Map \<or> TaskState t = Reduce then t # held else held)"
  using inv
proof (cases rule: AssignTask_cases [where now = now])
  case (task t' q mt)
  then have t: "t' = t" and m': "m' = m\<lparr>TaskQueue := q, TaskMeta := meta_put (TaskNumber t)
      (mt\<lparr>TaskStatus := InProgress, StartTime := now\<rparr>) (TaskMeta m)\<rparr>" using assms(2) by auto
  have st: "status m' = (status m)(TaskNumber t \<mapsto> InProgress)" unfolding m' by simp
  note I = mr_invD [OF inv]
  have new: "TaskNumber t \<notin> TaskNumber ` set q" "TaskNumber t \<notin> TaskNumber ` set held"
    using I(5) task(1) t by auto
  have "status m' k = Some Idle \<longleftrightarrow> k \<in> TaskNumber ` set q" for k
    using I(6) [of k] new task(1) by (auto simp: st t)
  moreover have "status m' k = Some InProgress \<longleftrightarrow> k \<in> TaskNumber ` set (t # held)" for k
    using I(7) [of k] by (auto simp: st)
  moreover have "TaskState t = Map \<or> TaskState t = Reduce" using I(8) [of t] task(1) t by auto
  moreover have "mr_inv (m', t # held)"
    using I(1-5,9-) task(1) t calculation(1,2) unfolding mr_inv_def by (auto simp: m')
  ultimately show ?thesis by simp
next
  case (idle t')
  then show ?thesis using assms by simp
qed

lemma distinct_map_remove1: "distinct (map f xs) \<Longrightarrow> distinct (map f (remove1 x xs))"
  using inj_on_subset [OF _ set_remove1_subset] by (auto simp: distinct_map simp del: set_remove1_eq)

lemma report_simps [simp]:
  "TaskState (report dir t) = TaskState t" "TaskNumber (report dir t) = TaskNumber t"
  by (auto simp: report_def split: State.splits)

lemma report_intermediates:
  "TaskState t = Map \<Longrightarrow> tIntermediates (report dir t) = map (\<lambda>r. map_path dir (TaskNumber t) (int r)) [0..<nat (NReducer t)]"
  by (simp add: report_def)

text \<open>A report of a task that a worker holds is always accepted.\<close>

lemma TaskCompleted_held:
  assumes inv: "mr_inv (m, held)" and "t \<in> set held"
  obtains mt where "TaskCompleted (report dir t) m = Ret (m\<lparr>TaskMeta := meta_put (TaskNumber t)
    (mt\<lparr>TaskStatus := Completed\<rparr>) (TaskMeta m), Goroutines := Goroutines m @ [report dir t]\<rparr>)"
proof -
  have "status m (TaskNumber t) = Some InProgress" using mr_invD(7) [OF inv] assms(2) by blast
  then obtain mt where "map_of (TaskMeta m) (TaskNumber t) = Some mt" "TaskStatus mt = InProgress"
    using status_entry by blast
  then show ?thesis using that [of mt] mr_invD(8) [OF inv, of t] assms(2) by (simp add: TaskCompleted_def)
qed

lemma mr_inv_complete:
  assumes inv: "mr_inv (m, held)" and t: "t \<in> set held" and m': "TaskCompleted (report dir t) m = Ret m'"
  shows "mr_inv (m', remove1 t held)"
proof -
  obtain mt where mt: "m' = m\<lparr>TaskMeta := meta_put (TaskNumber t) (mt\<lparr>TaskStatus := Completed\<rparr>) (TaskMeta m),
      Goroutines := Goroutines m @ [report dir t]\<rparr>"
    using TaskCompleted_held [OF inv t, of dir] m' by (metis outcome.inject)
  note I = mr_invD [OF inv]
  have st: "status m' = (status m)(TaskNumber t \<mapsto> Completed)" unfolding mt by simp
  have dist: "distinct (map TaskNumber held)" using I(5) by simp
  have rest: "TaskNumber ` set (remove1 t held) = TaskNumber ` set held - {TaskNumber t}"
    using dist t by (auto simp: distinct_map set_remove1_eq inj_on_def)
  have idle: "status m' k = Some Idle \<longleftrightarrow> k \<in> TaskNumber ` set (TaskQueue m)" for k
  proof -
    have "TaskNumber t \<notin> TaskNumber ` set (TaskQueue m)" using I(5) t by auto
    then show ?thesis using I(6) [of k] by (auto simp: st)
  qed
  have prog: "status m' k = Some InProgress \<longleftrightarrow> k \<in> TaskNumber ` set (remove1 t held)" for k
    using I(7) [of k] unfolding rest by (auto simp: st)
  have "set (remove1 t held) \<subseteq> set held" by (rule set_remove1_subset)
  moreover have "distinct (map TaskNumber (TaskQueue m @ remove1 t held))"
    using I(5) rest distinct_map_remove1 [OF dist] by auto
  moreover have "\<forall>u \<in> set (Goroutines m'). TaskState u = Map \<longrightarrow> length (tIntermediates u) \<le> length (Intermediates m)"
    using I(2) I(8) [of t] I(10) t by (auto simp: report_intermediates mt)
  moreover have "\<forall>u \<in> set (TaskQueue m @ remove1 t held). live_task (NReduce m) (MasterPhase m) u"
    using I(9) notin_set_remove1 by fastforce
  ultimately show ?thesis
    using I(1-4) idle prog unfolding mr_inv_def prod.case by (simp add: mt)
qed

text \<open>A goroutine that finds all tasks done finds an empty queue, so the tasks it creates fit in.\<close>

definition reduce_tasks :: "Master \<Rightarrow> Task list" where
  "reduce_tasks m = map (\<lambda>j. reduce_task (NReduce m) (int j) (Intermediates m ! j)) [0..<length (Intermediates m)]"

text \<open>The master right after \<open>createReduceTask\<close>.\<close>

definition reduce_start :: "Master \<Rightarrow> Master" where
  "reduce_start m = m\<lparr>MasterPhase := Reduce, TaskQueue := reduce_tasks m, TaskMeta := map idle_entry (reduce_tasks m)\<rparr>"

lemma createReduceTask_tasks:
  assumes "mr_inv (m, held)" and "allTaskDone m"
  shows "and_then (createReduceTask m) (\<lambda>m. Ret (m\<lparr>MasterPhase := Reduce\<rparr>)) = Ret (reduce_start m)"
proof -
  note I = mr_invD [OF assms(1)]
  have "TaskQueue m = []" using allTaskDone_empty [OF assms] by simp
  then show ?thesis
    using createReduceTask_loop_tasks [of "m\<lparr>TaskMeta := []\<rparr>" "Intermediates m" 0] I(2,3)
    by (simp add: createReduceTask_def with_tasks_def reduce_start_def reduce_tasks_def)
qed

lemma status_entries: "meta_status (map idle_entry ts) k = (if k \<in> TaskNumber ` set ts then Some Idle else None)"
  by (induction ts) (auto simp: meta_status_def split: if_splits)

lemma reduce_tasks_numbers: "map TaskNumber (reduce_tasks m) = map int [0..<length (Intermediates m)]"
  by (simp add: reduce_tasks_def)

lemma distinct_reduce_tasks: "distinct (map TaskNumber (reduce_tasks m))"
  unfolding reduce_tasks_numbers by (simp add: distinct_map)

lemma mr_inv_reduce_start:
  assumes inv: "mr_inv (m, held)" and "allTaskDone m"
  shows "mr_inv (reduce_start m, held)"
proof -
  note I = mr_invD [OF inv]
  have "held = []" using allTaskDone_empty [OF assms] by simp
  moreover have "status (reduce_start m) k = (if k \<in> TaskNumber ` set (reduce_tasks m) then Some Idle else None)" for k
    by (simp add: reduce_start_def status_entries)
  moreover have "map fst (map idle_entry (reduce_tasks m)) = map TaskNumber (reduce_tasks m)" by simp
  moreover have "\<forall>t \<in> set (reduce_tasks m). live_task (NReduce m) Reduce t" by (auto simp: reduce_tasks_def live_task_def)
  ultimately show ?thesis
    using I(1-3,10) distinct_reduce_tasks [of m] unfolding mr_inv_def prod.case
    by (auto simp: reduce_start_def simp del: map_map split: if_splits)
qed

lemma mr_inv_update:
  assumes "mr_inv (m, held)" and "set gs \<subseteq> set (Goroutines m)" and "length ims = length (Intermediates m)"
  shows "mr_inv (m\<lparr>Goroutines := gs, Intermediates := ims\<rparr>, held)"
  using assms unfolding mr_inv_def prod.case by auto

text \<open>What a goroutine does; \<open>m1\<close> is the master after the goroutine has collected its files.\<close>

lemma run_goroutine_cases:
  assumes inv: "mr_inv (m, held)" and g: "g < length (Goroutines m)"
  obtains (collect) ims m1 where "TaskState (Goroutines m ! g) = Map"
      "collect_files (tIntermediates (Goroutines m ! g)) 0 (Intermediates m) = Some ims"
      "m1 = m\<lparr>Goroutines := take g (Goroutines m) @ drop (Suc g) (Goroutines m), Intermediates := ims\<rparr>"
      "mr_inv (m1, held)" "run_goroutine g m = Ret (if allTaskDone m1 then reduce_start m1 else m1)"
  | (reduce) m1 where "TaskState (Goroutines m ! g) = Reduce"
      "m1 = m\<lparr>Goroutines := take g (Goroutines m) @ drop (Suc g) (Goroutines m)\<rparr>"
      "mr_inv (m1, held)" "run_goroutine g m = Ret (if allTaskDone m1 then m1\<lparr>MasterPhase := Exit\<rparr> else m1)"
  | (other) m1 where "TaskState (Goroutines m ! g) \<noteq> Map" "TaskState (Goroutines m ! g) \<noteq> Reduce"
      "m1 = m\<lparr>Goroutines := take g (Goroutines m) @ drop (Suc g) (Goroutines m)\<rparr>"
      "mr_inv (m1, held)" "run_goroutine g m = Ret m1"
proof -
  let ?t = "Goroutines m ! g" and ?gs = "take g (Goroutines m) @ drop (Suc g) (Goroutines m)"
  have sub: "set ?gs \<subseteq> set (Goroutines m)" by (auto dest: in_set_takeD in_set_dropD)
  have t: "?t \<in> set (Goroutines m)" using g by simp
  have inv1: "mr_inv (m\<lparr>Goroutines := ?gs\<rparr>, held)"
    using mr_inv_update [OF inv sub, of "Intermediates m"] by simp
  show ?thesis
  proof (cases "TaskState ?t")
    case Map
    then obtain ims where ims: "collect_files (tIntermediates ?t) 0 (Intermediates m) = Some ims" "length ims = length (Intermediates m)"
      using collect_files_appends [of "tIntermediates ?t" 0 "Intermediates m"] mr_invD(10) [OF inv t] by auto
    let ?m1 = "m\<lparr>Goroutines := ?gs, Intermediates := ims\<rparr>"
    have inv2: "mr_inv (?m1, held)" by (rule mr_inv_update [OF inv sub ims(2)])
    have "run_goroutine g m = Ret (if allTaskDone ?m1 then reduce_start ?m1 else ?m1)"
      using Map ims(1) createReduceTask_tasks [OF inv2]
      by (simp add: run_goroutine_def processTaskResult_def)
    with Map ims(1) inv2 show ?thesis by (intro collect) auto
  next
    case Reduce
    then have "run_goroutine g m = Ret (let m1 = m\<lparr>Goroutines := ?gs\<rparr> in if allTaskDone m1 then m1\<lparr>MasterPhase := Exit\<rparr> else m1)"
      by (simp add: run_goroutine_def processTaskResult_def Let_def)
    with Reduce inv1 show ?thesis by (intro reduce) (auto simp: Let_def)
  qed (use inv1 in \<open>auto intro: other simp: run_goroutine_def processTaskResult_def\<close>)
qed

lemma run_goroutine_ret:
  assumes "mr_inv (m, held)" and "g < length (Goroutines m)"
  shows "\<exists>m'. run_goroutine g m = Ret m'"
  using assms by (cases rule: run_goroutine_cases) auto

lemma mr_inv_exit:
  assumes "mr_inv (m, held)" and "allTaskDone m"
  shows "mr_inv (m\<lparr>MasterPhase := Exit\<rparr>, held)"
  using allTaskDone_empty [OF assms] assms(1) unfolding mr_inv_def prod.case by auto

lemma mr_inv_goroutine:
  assumes inv: "mr_inv (m, held)" and "g < length (Goroutines m)" and "run_goroutine g m = Ret m'"
  shows "mr_inv (m', held)"
  using assms(1,2)
proof (cases rule: run_goroutine_cases)
  case (collect ims m1)
  then show ?thesis using assms(3) mr_inv_reduce_start [of m1] by (auto split: if_splits)
next
  case (reduce m1)
  then show ?thesis using assms(3) mr_inv_exit [of m1] by (auto split: if_splits)
next
  case (other m1)
  then show ?thesis using assms(3) by simp
qed

lemma mr_inv_step: "mr_step dir serial s s' \<Longrightarrow> mr_inv s \<Longrightarrow> mr_inv s'"
proof (induction rule: mr_step.induct)
  case (assign now m m' t held)
  then show ?case using mr_inv_assign by blast
qed (blast intro: mr_inv_complete mr_inv_goroutine)+

abbreviation map_tasks :: "string list \<Rightarrow> int \<Rightarrow> Task list" where
  "map_tasks files n \<equiv> map (\<lambda>j. map_task n (int j) (files ! j)) [0..<length files]"

lemma MakeMaster_tasks:
  assumes "0 \<le> n"
  shows "MakeMaster files n = Ret \<lparr>TaskQueue = map_tasks files n, QueueCap = nat (mr_max n (int (length files))),
    TaskMeta = map idle_entry (map_tasks files n), MasterPhase = Map, NReduce = n, InputFiles = files,
    Intermediates = replicate (nat n) [], Goroutines = []\<rparr>"
  using assms by (simp add: MakeMaster_def createMapTask_def createMapTask_loop_tasks with_tasks_def mr_max_def)

lemma MakeMaster_nonneg: "MakeMaster files n = Ret m \<Longrightarrow> 0 \<le> n"
  by (auto simp: MakeMaster_def split: if_splits)

lemma mr_inv_start:
  assumes "MakeMaster files n = Ret m"
  shows "mr_inv (m, [])"
proof -
  have n: "0 \<le> n" using assms by (rule MakeMaster_nonneg)
  let ?ts = "map_tasks files n"
  have m: "TaskQueue m = ?ts" "TaskMeta m = map idle_entry ?ts" "NReduce m = n" "Intermediates m = replicate (nat n) []"
    "Goroutines m = []" "MasterPhase m = Map" "QueueCap m = nat (mr_max n (int (length files)))"
    using assms MakeMaster_tasks [OF n, of files] by auto
  have st: "status m k = (if k \<in> TaskNumber ` set ?ts then Some Idle else None)" for k
    unfolding m by (rule status_entries)
  have "distinct (map TaskNumber ?ts)" by (simp add: comp_def distinct_map inj_on_def)
  moreover from this have "distinct (map fst (TaskMeta m))" unfolding m by (simp add: comp_def)
  moreover have "\<forall>t \<in> set ?ts. live_task n Map t" by (auto simp: live_task_def)
  ultimately show ?thesis
    using n st unfolding mr_inv_def prod.case by (auto simp: m mr_max_def simp del: map_map split: if_splits)
qed

lemma mr_reach_inv: "mr_reach dir serial files n s \<Longrightarrow> mr_inv s"
  by (induction rule: mr_reach.induct) (auto intro: mr_inv_start mr_inv_step)

text \<open>
  C30. Without timeouts the master never panics and never blocks while it holds its mutex, in whatever
  order workers ask for tasks, report them, and goroutines run: an empty channel has room for all
  tasks of a phase, and the tasks of the next phase are created when it is empty.
\<close>

theorem mr_no_crash:
  assumes "mr_reach dir serial files n (m, held)"
  shows "(\<exists>m' t. AssignTask now m = Ret (m', t))
    \<and> (\<forall>t \<in> set held. \<exists>m'. TaskCompleted (report dir t) m = Ret m')
    \<and> (\<forall>g < length (Goroutines m). \<exists>m'. run_goroutine g m = Ret m')"
proof -
  have inv: "mr_inv (m, held)" using assms by (rule mr_reach_inv)
  have "\<exists>m' t. AssignTask now m = Ret (m', t)"
    using inv by (cases rule: AssignTask_cases [where now = now]) auto
  moreover have "\<exists>m'. TaskCompleted (report dir t) m = Ret m'" if "t \<in> set held" for t
    using TaskCompleted_held [OF inv that, of dir] by metis
  moreover have "\<exists>m'. run_goroutine g m = Ret m'" if "g < length (Goroutines m)" for g
    using run_goroutine_ret [OF inv that] .
  ultimately show ?thesis by blast
qed

section \<open>Results processed one at a time\<close>

definition collected :: "Master \<Rightarrow> int set" where
  "collected m = {k. status m k = Some Completed} - TaskNumber ` set (Goroutines m)"

definition complete_input :: "string \<Rightarrow> nat \<Rightarrow> Task \<Rightarrow> bool" where
  "complete_input dir N t \<longleftrightarrow>
     mset (tIntermediates t) = mset (map (\<lambda>j. map_path dir (int j) (TaskNumber t)) [0..<N])"

definition map_phase_ok :: "string \<Rightarrow> nat \<Rightarrow> Master \<Rightarrow> bool" where
  "map_phase_ok dir N m \<longleftrightarrow> dom (status m) = {0..<int N}
     \<and> (\<forall>t \<in> set (Goroutines m). TaskState t = Map \<and> status m (TaskNumber t) = Some Completed
          \<and> tIntermediates t = map (\<lambda>r. map_path dir (TaskNumber t) (int r)) [0..<nat (NReduce m)])
     \<and> (\<forall>r < nat (NReduce m). mset (Intermediates m ! r) = image_mset (\<lambda>k. map_path dir k (int r)) (mset_set (collected m)))"

definition reduce_phase_ok :: "string \<Rightarrow> nat \<Rightarrow> Master \<times> Task list \<Rightarrow> bool" where
  "reduce_phase_ok dir N s \<longleftrightarrow> (case s of (m, held) \<Rightarrow> dom (status m) = {0..<NReduce m}
     \<and> (\<forall>t \<in> set (Goroutines m). TaskState t = Reduce)
     \<and> (\<forall>t \<in> set (TaskQueue m @ held). complete_input dir N t))"

definition mr_serial :: "string \<Rightarrow> nat \<Rightarrow> int \<Rightarrow> Master \<times> Task list \<Rightarrow> bool" where
  "mr_serial dir N n s \<longleftrightarrow> (case s of (m, held) \<Rightarrow> NReduce m = n \<and> length (Goroutines m) \<le> 1
     \<and> (MasterPhase m = Map \<longrightarrow> map_phase_ok dir N m)
     \<and> (MasterPhase m \<noteq> Map \<longrightarrow> reduce_phase_ok dir N s)
     \<and> (MasterPhase m = Exit \<longrightarrow> allTaskDone m \<and> Goroutines m = [])
     \<and> (MasterPhase m \<noteq> Exit \<and> 0 < N \<and> 0 < n \<and> Goroutines m = [] \<longrightarrow> \<not> allTaskDone m))"

lemma not_allTaskDone: "mr_inv (m, held) \<Longrightarrow> status m k = Some st \<Longrightarrow> st \<noteq> Completed \<Longrightarrow> \<not> allTaskDone m"
  using allTaskDone_iff [of m] mr_invD(4) [of m held] by blast

lemma finite_status: "finite {k. status m k = Some st}"
proof -
  have "{k. status m k = Some st} \<subseteq> fst ` set (TaskMeta m)"
    by (auto simp: meta_status_def dest: map_of_SomeD intro: rev_image_eqI)
  then show ?thesis by (rule finite_subset) simp
qed

lemma mr_serial_assign:
  assumes inv: "mr_inv (m, held)" and ser: "mr_serial dir N n (m, held)" and as: "AssignTask now m = Ret (m', t)"
  shows "mr_serial dir N n (m', if TaskState t = Map \<or> TaskState t = Reduce then t # held else held)"
  using inv
proof (cases rule: AssignTask_cases [where now = now])
  case (task t' q mt)
  then have t: "t' = t" and m': "m' = m\<lparr>TaskQueue := q, TaskMeta := meta_put (TaskNumber t)
      (mt\<lparr>TaskStatus := InProgress, StartTime := now\<rparr>) (TaskMeta m)\<rparr>" using as by auto
  have st: "status m' = (status m)(TaskNumber t \<mapsto> InProgress)" unfolding m' by simp
  have idle: "status m (TaskNumber t) = Some Idle" using task t by simp
  have dom: "dom (status m') = dom (status m)" using idle by (auto simp: st)
  have coll: "collected m' = collected m" using idle by (auto simp: collected_def st) (auto simp: m')
  have nd: "\<not> allTaskDone m'"
    using not_allTaskDone [OF mr_inv_assign [OF inv as], of "TaskNumber t" InProgress] by (simp add: st)
  have ph: "MasterPhase m \<noteq> Exit" "TaskState t = Map \<or> TaskState t = Reduce"
    using mr_invD(8) [OF inv, of t] task(1) t by auto
  have "map_phase_ok dir N m \<Longrightarrow> map_phase_ok dir N m'"
    using idle unfolding map_phase_ok_def dom coll by (auto simp: st) (auto simp: m')
  moreover have "reduce_phase_ok dir N (m, held) \<Longrightarrow> reduce_phase_ok dir N (m', t # held)"
    unfolding reduce_phase_ok_def prod.case dom using task(1) t by (auto simp: m')
  moreover have fields: "NReduce m' = NReduce m" "Goroutines m' = Goroutines m" "MasterPhase m' = MasterPhase m"
    by (simp_all add: m')
  ultimately show ?thesis using ser ph nd unfolding mr_serial_def prod.case fields by simp
next
  case (idle t')
  then show ?thesis using as ser by simp
qed

lemma mr_serial_complete:
  assumes inv: "mr_inv (m, held)" and ser: "mr_serial dir N n (m, held)" and t: "t \<in> set held"
    and gs: "Goroutines m = []" and as: "TaskCompleted (report dir t) m = Ret m'"
  shows "mr_serial dir N n (m', remove1 t held)"
proof -
  obtain mt where m': "m' = m\<lparr>TaskMeta := meta_put (TaskNumber t) (mt\<lparr>TaskStatus := Completed\<rparr>) (TaskMeta m),
      Goroutines := [report dir t]\<rparr>"
    using TaskCompleted_held [OF inv t, of dir] as gs by (metis append_Nil outcome.inject)
  have st: "status m' = (status m)(TaskNumber t \<mapsto> Completed)" unfolding m' by simp
  have prog: "status m (TaskNumber t) = Some InProgress" using mr_invD(7) [OF inv, of "TaskNumber t"] t by simp
  have dom: "dom (status m') = dom (status m)" using prog by (auto simp: st)
  have "Goroutines m' = [report dir t]" by (simp add: m')
  then have coll: "collected m' = collected m" using prog gs by (auto simp: collected_def st)
  have live: "NReducer t = NReduce m" "TaskState t = MasterPhase m" "MasterPhase m = Map \<or> MasterPhase m = Reduce"
    using mr_invD(8) [OF inv, of t] t by auto
  have "MasterPhase m = Map \<Longrightarrow> map_phase_ok dir N m \<Longrightarrow> map_phase_ok dir N m'"
    using live unfolding map_phase_ok_def dom coll by (simp add: st) (simp add: m' report_intermediates)
  moreover have "MasterPhase m \<noteq> Map \<Longrightarrow> reduce_phase_ok dir N (m, held) \<Longrightarrow> reduce_phase_ok dir N (m', remove1 t held)"
    using live unfolding reduce_phase_ok_def prod.case dom by (auto simp: m' dest: notin_set_remove1)
  moreover have "NReduce m' = NReduce m" "MasterPhase m' = MasterPhase m" "length (Goroutines m') \<le> 1" "Goroutines m' \<noteq> []"
    by (simp_all add: m')
  ultimately show ?thesis using ser live(3) unfolding mr_serial_def prod.case by auto
qed

lemma mset_map_range: "image_mset f (mset_set {0..<int N}) = mset (map (\<lambda>j. f (int j)) [0..<N])"
proof -
  have "mset_set {0..<int N} = image_mset int (mset_set {0..<N})"
    by (subst image_mset_mset_set) (auto simp: image_int_atLeastLessThan)
  then show ?thesis by (simp add: image_mset.compositionality comp_def)
qed

lemma map_phase_ok_collect:
  assumes inv: "mr_inv (m, held)" and ok: "map_phase_ok dir N m" and gs: "Goroutines m = [t]"
    and ims: "collect_files (tIntermediates t) 0 (Intermediates m) = Some ims"
  shows "map_phase_ok dir N (m\<lparr>Goroutines := [], Intermediates := ims\<rparr>)"
proof -
  let ?m = "m\<lparr>Goroutines := [], Intermediates := ims\<rparr>"
  have t: "status m (TaskNumber t) = Some Completed"
    "tIntermediates t = map (\<lambda>r. map_path dir (TaskNumber t) (int r)) [0..<nat (NReduce m)]"
    using ok gs by (auto simp: map_phase_ok_def)
  have "collected ?m = insert (TaskNumber t) (collected m)" "TaskNumber t \<notin> collected m"
    using t(1) gs by (auto simp: collected_def)
  moreover have "finite (collected m)" using finite_status by (auto simp: collected_def)
  ultimately have coll: "mset_set (collected ?m) = add_mset (TaskNumber t) (mset_set (collected m))" by simp
  have "\<forall>r < nat (NReduce m). ims ! r = Intermediates m ! r @ [map_path dir (TaskNumber t) (int r)]"
    using collect_files_appends [of "tIntermediates t" 0 "Intermediates m"] ims t(2) mr_invD(2) [OF inv] by auto
  then have "\<forall>r < nat (NReduce m). mset (ims ! r) = image_mset (\<lambda>k. map_path dir k (int r)) (mset_set (collected ?m))"
    using ok unfolding coll by (simp add: map_phase_ok_def)
  then show ?thesis using ok unfolding map_phase_ok_def by simp
qed

lemma reduce_start_ok:
  assumes inv: "mr_inv (m, [])" and ok: "map_phase_ok dir N m" and gs: "Goroutines m = []" and "allTaskDone m"
  shows "reduce_phase_ok dir N (reduce_start m, [])"
proof -
  note I = mr_invD [OF inv]
  have "\<forall>k s. status m k = Some s \<longrightarrow> s = Completed" using assms(4) allTaskDone_iff [OF I(4)] by simp
  then have "collected m = dom (status m)" using gs by (auto simp: collected_def)
  then have "collected m = {0..<int N}" using ok by (simp add: map_phase_ok_def)
  then have "\<forall>r < length (Intermediates m). mset (Intermediates m ! r) = mset (map (\<lambda>j. map_path dir (int j) (int r)) [0..<N])"
    using ok I(2) by (simp add: map_phase_ok_def mset_map_range del: mset_map)
  then have "\<forall>t \<in> set (reduce_tasks m). complete_input dir N t"
    by (auto simp: reduce_tasks_def complete_input_def)
  moreover have "TaskNumber ` set (reduce_tasks m) = {0..<NReduce m}"
    using arg_cong [OF reduce_tasks_numbers [of m], of set] I(1,2) by (auto simp: image_int_atLeastLessThan)
  then have "dom (status (reduce_start m)) = {0..<NReduce m}"
    by (auto simp: reduce_start_def status_entries split: if_splits)
  ultimately show ?thesis using gs unfolding reduce_phase_ok_def prod.case by (simp add: reduce_start_def)
qed

lemma reduce_start_fields [simp]:
  "NReduce (reduce_start m) = NReduce m" "Goroutines (reduce_start m) = Goroutines m"
  "MasterPhase (reduce_start m) = Reduce" "TaskQueue (reduce_start m) = reduce_tasks m"
  by (simp_all add: reduce_start_def)

lemma not_done_reduce_start:
  assumes "mr_inv (m, held)" and "allTaskDone m" and "0 < NReduce m"
  shows "\<not> allTaskDone (reduce_start m)"
proof
  assume "allTaskDone (reduce_start m)"
  with allTaskDone_empty [OF mr_inv_reduce_start [OF assms(1,2)]] have "reduce_tasks m = []" by simp
  then show False using assms(3) mr_invD(2) [OF assms(1)] by (simp add: reduce_tasks_def)
qed

lemma mr_serial_goroutine:
  assumes inv: "mr_inv (m, held)" and ser: "mr_serial dir N n (m, held)"
    and g: "g < length (Goroutines m)" and as: "run_goroutine g m = Ret m'"
  shows "mr_serial dir N n (m', held)"
proof -
  have "length (Goroutines m) = 1" "g = 0" using ser g by (auto simp: mr_serial_def)
  then obtain t where gs: "Goroutines m = [t]" by (cases "Goroutines m") auto
  note S = ser [unfolded mr_serial_def prod.case]
  have here: "Goroutines m ! g = t" "take g (Goroutines m) @ drop (Suc g) (Goroutines m) = []"
    using gs \<open>g = 0\<close> by auto
  show ?thesis using inv g
  proof (cases rule: run_goroutine_cases)
    case (collect ims m1)
    have m1: "m1 = m\<lparr>Goroutines := [], Intermediates := ims\<rparr>" using collect(3) here by simp
    have ph: "MasterPhase m = Map" using S collect(1) here gs by (auto simp: reduce_phase_ok_def)
    then have ok: "map_phase_ok dir N m1"
      using map_phase_ok_collect [OF inv _ gs] S collect(2) here m1 by simp
    show ?thesis
    proof (cases "allTaskDone m1")
      case True
      then have "held = []" using allTaskDone_empty [OF collect(4)] by simp
      with ok collect(4) True have "reduce_phase_ok dir N (reduce_start m1, held)" using reduce_start_ok m1 by simp
      moreover have "0 < n \<longrightarrow> \<not> allTaskDone (reduce_start m1)"
        using not_done_reduce_start [OF collect(4) True] S m1 by simp
      ultimately show ?thesis using S True as collect(5) m1 by (auto simp: mr_serial_def)
    next
      case False
      then show ?thesis using S ok ph as collect(5) m1 by (auto simp: mr_serial_def)
    qed
  next
    case (reduce m1)
    have m1: "m1 = m\<lparr>Goroutines := []\<rparr>" using reduce(2) here by simp
    have ph: "MasterPhase m \<noteq> Map" "MasterPhase m \<noteq> Exit"
      using S reduce(1) here gs by (auto simp: map_phase_ok_def)
    then have "reduce_phase_ok dir N (m1, held)" "reduce_phase_ok dir N (m1\<lparr>MasterPhase := Exit\<rparr>, held)"
      using S by (auto simp: m1 reduce_phase_ok_def)
    moreover have "allTaskDone (m1\<lparr>MasterPhase := Exit\<rparr>) = allTaskDone m1" by (simp add: allTaskDone_def)
    ultimately show ?thesis using S ph as reduce(4) m1 by (auto simp: mr_serial_def split: if_splits)
  next
    case (other m1)
    then show ?thesis using S here gs
      by (cases "MasterPhase m = Map") (auto simp: map_phase_ok_def reduce_phase_ok_def)
  qed
qed

lemma mr_serial_start:
  assumes "MakeMaster files n = Ret m"
  shows "mr_serial dir (length files) n (m, [])"
proof -
  have n: "0 \<le> n" using assms by (rule MakeMaster_nonneg)
  have inv: "mr_inv (m, [])" using assms by (rule mr_inv_start)
  let ?ts = "map_tasks files n"
  have m: "TaskQueue m = ?ts" "TaskMeta m = map idle_entry ?ts" "NReduce m = n" "Intermediates m = replicate (nat n) []"
    "Goroutines m = []" "MasterPhase m = Map"
    using assms MakeMaster_tasks [OF n, of files] by auto
  have st: "status m k = (if k \<in> TaskNumber ` set ?ts then Some Idle else None)" for k
    unfolding m by (rule status_entries)
  have "TaskNumber ` set ?ts = {0..<int (length files)}" by (auto simp: image_image image_int_atLeastLessThan)
  then have "dom (status m) = {0..<int (length files)}" "collected m = {}"
    by (auto simp: st collected_def split: if_splits)
  then have "map_phase_ok dir (length files) m" by (simp add: map_phase_ok_def m)
  moreover have "allTaskDone m \<longrightarrow> files = []" using allTaskDone_empty [OF inv] m(1) by auto
  ultimately show ?thesis using m by (auto simp: mr_serial_def)
qed

lemma mr_serial_step: "mr_step dir serial s s' \<Longrightarrow> serial \<Longrightarrow> mr_inv s \<Longrightarrow> mr_serial dir N n s \<Longrightarrow> mr_serial dir N n s'"
proof (induction rule: mr_step.induct)
  case (assign now m m' t held)
  then show ?case using mr_serial_assign by blast
qed (blast intro: mr_serial_complete mr_serial_goroutine)+

lemma mr_reach_serial: "mr_reach dir True files n s \<Longrightarrow> mr_serial dir (length files) n s"
  by (induction rule: mr_reach.induct) (auto intro: mr_serial_start mr_serial_step mr_reach_inv)

text \<open>
  Every reduce task that is handed to a worker lists, up to order, exactly the files that the map tasks
  of all input files wrote for it.
\<close>

lemma reduce_input_complete:
  assumes "mr_reach dir True files n (m, held)" and "AssignTask now m = Ret (m', t)" and "TaskState t = Reduce"
  shows "0 \<le> TaskNumber t \<and> TaskNumber t < n
    \<and> mset (tIntermediates t) = mset (map (\<lambda>j. map_path dir (int j) (TaskNumber t)) [0..<length files])"
proof -
  have inv: "mr_inv (m', t # held)" and ser: "mr_serial dir (length files) n (m', t # held)"
    using mr_inv_assign [OF mr_reach_inv [OF assms(1)] assms(2)] assms(3)
      mr_serial_assign [OF mr_reach_inv [OF assms(1)] mr_reach_serial [OF assms(1)] assms(2)] by auto
  have "MasterPhase m' = Reduce" using mr_invD(8) [OF inv, of t] assms(3) by simp
  then have "dom (status m') = {0..<n}" "complete_input dir (length files) t"
    using ser by (auto simp: mr_serial_def reduce_phase_ok_def)
  moreover have "TaskNumber t \<in> dom (status m')" using mr_invD(7) [OF inv, of "TaskNumber t"] by auto
  ultimately show ?thesis by (auto simp: complete_input_def)
qed

section \<open>Progress\<close>

definition rank :: "Master \<times> Task list \<Rightarrow> nat" where
  "rank s = (case s of (m, held) \<Rightarrow> (if MasterPhase m = Map then 3 * nat (NReduce m) else 0)
     + 3 * length (TaskQueue m) + 2 * length held + length (Goroutines m))"

lemma rank_goroutine:
  assumes inv: "mr_inv (m, held)" and ser: "mr_serial dir N n (m, held)"
    and gs: "Goroutines m \<noteq> []" and as: "run_goroutine 0 m = Ret m'"
  shows "rank (m', held) < rank (m, held)"
proof -
  have g: "0 < length (Goroutines m)" using gs by simp
  show ?thesis using inv g
  proof (cases rule: run_goroutine_cases)
    case (collect ims m1)
    have "MasterPhase m = Map" using ser collect(1) g by (auto simp: mr_serial_def reduce_phase_ok_def)
    moreover have "TaskQueue m1 = [] \<and> held = []" if "allTaskDone m1" using allTaskDone_empty [OF collect(4) that] .
    moreover have "length (Intermediates m1) = nat (NReduce m1)" using mr_invD(2) [OF collect(4)] .
    ultimately show ?thesis using collect(3,5) as g by (auto simp: rank_def reduce_tasks_def)
  next
    case (reduce m1)
    then show ?thesis using as g by (cases "Goroutines m") (auto simp: rank_def split: if_splits)
  next
    case (other m1)
    then show ?thesis using as g by (auto simp: rank_def)
  qed
qed

lemma mr_progress:
  assumes inv: "mr_inv (m, held)" and ser: "mr_serial dir N n (m, held)" and "0 < N" and "0 < n" and "\<not> Done m"
  shows "\<exists>s'. mr_step dir True (m, held) s' \<and> rank s' < rank (m, held)"
proof (cases "Goroutines m = []")
  case False
  then obtain m' where "run_goroutine 0 m = Ret m'" using run_goroutine_ret [OF inv, of 0] by auto
  with False show ?thesis using goroutine rank_goroutine [OF inv ser] by fastforce
next
  case True
  then have "\<not> allTaskDone m" using ser assms(3-5) by (simp add: mr_serial_def Done_def)
  then obtain k st where "status m k = Some st" "st \<noteq> Completed" using allTaskDone_iff [OF mr_invD(4) [OF inv]] by auto
  then have "TaskQueue m \<noteq> [] \<or> held \<noteq> []"
    using mr_invD(6,7) [OF inv, of k] by (cases st) auto
  then consider (queue) "TaskQueue m \<noteq> []" | (held) t where "t \<in> set held" by (cases held) auto
  then show ?thesis
  proof cases
    case queue
    from inv show ?thesis
    proof (cases rule: AssignTask_cases [where now = 0])
      case (task t q mt)
      then have tm: "TaskState t = Map \<or> TaskState t = Reduce" using mr_invD(8) [OF inv, of t] by auto
      show ?thesis
        by (rule exI, rule conjI, rule mr_step.assign [OF task(3)]) (use task(1) tm in \<open>auto simp: rank_def\<close>)
    qed (use queue in simp)
  next
    case held
    obtain mt where c: "TaskCompleted (report dir t) m = Ret (m\<lparr>TaskMeta := meta_put (TaskNumber t)
        (mt\<lparr>TaskStatus := Completed\<rparr>) (TaskMeta m), Goroutines := Goroutines m @ [report dir t]\<rparr>)"
      using TaskCompleted_held [OF inv held] .
    obtain l where pos: "length held = Suc l" using held by (cases held) auto
    show ?thesis
      by (rule exI, rule conjI, rule mr_step.complete [OF held _ c])
        (use True held pos in \<open>auto simp: rank_def length_remove1\<close>)
  qed
qed

section \<open>What goes wrong otherwise\<close>

lemma reduce_start_inputs:
  assumes "r < length (Intermediates m)"
  shows "tIntermediates (TaskQueue (reduce_start m) ! r) = Intermediates m ! r"
  using assms by (simp add: reduce_tasks_def)


text \<open>A run: operations on the master one after the other, with the tasks that workers hold by position.\<close>

datatype mr_op = Ask int | Report nat | Go nat | Tick int "int list"

fun mr_run :: "string \<Rightarrow> mr_op list \<Rightarrow> Master \<times> Task list \<Rightarrow> (Master \<times> Task list) outcome" where
  "mr_run dir [] s = Ret s"
| "mr_run dir (Ask now # os) (m, held) = and_then (AssignTask now m) (\<lambda>(m, t). mr_run dir os (m, held @ [t]))"
| "mr_run dir (Report i # os) (m, held) =
     (if i < length held then and_then (TaskCompleted (report dir (held ! i)) m) (\<lambda>m. mr_run dir os (m, held)) else mr_run dir os (m, held))"
| "mr_run dir (Go g # os) (m, held) =
     (if g < length (Goroutines m) then and_then (run_goroutine g m) (\<lambda>m. mr_run dir os (m, held)) else mr_run dir os (m, held))"
| "mr_run dir (Tick now ks # os) (m, held) = and_then (catchTimeOut now ks m) (\<lambda>m. mr_run dir os (m, held))"

fun mr_exec :: "string \<Rightarrow> string list \<Rightarrow> int \<Rightarrow> mr_op list \<Rightarrow> (Master \<times> Task list) outcome" where
  "mr_exec dir files n os = and_then (MakeMaster files n) (\<lambda>m. mr_run dir os (m, []))"

fun last_input :: "(Master \<times> Task list) outcome \<Rightarrow> string list" where
  "last_input (Ret (m, held)) = tIntermediates (last held)"
| "last_input _ = []"

text \<open>
  Such runs, also with timeouts. Two map tasks that are both marked completed before the first of their
  goroutines runs: the reduce task lists the files of one of them only. A map task that times out,
  is completed late, and is then handed out again from the queue: the reduce task lists its file
  twice. A task that times out and is completed late leaves a task in the queue, and the send of the
  last reduce task blocks with the mutex held.
\<close>

lemma mr_result_lost:
  "last_input (mr_exec ''d'' [''f'', ''g''] 1 [Ask 0, Ask 0, Report 0, Report 1, Go 0, Ask 1]) = [''d/mr-0-0'']"
  by code_simp

lemma mr_result_duplicated:
  "last_input (mr_exec ''d'' [''f'', ''g''] 1
       [Ask 0, Ask 5, Tick 11 [0, 1], Report 0, Go 0, Ask 12, Report 2, Go 0, Report 1, Go 0, Ask 13])
     = [''d/mr-0-0'', ''d/mr-0-0'', ''d/mr-1-0'']"
  by code_simp

lemma mr_send_blocks: "mr_exec ''d'' [''f''] 1 [Ask 0, Tick 11 [0], Report 0, Go 0] = Blocked"
  by code_simp

section \<open>Witnesses\<close>

definition first_master :: Master where
  "first_master = (case MakeMaster [''f'', ''g''] 2 of Ret m \<Rightarrow> m)"

lemma first_master_reach: "mr_reach ''d'' serial [''f'', ''g''] 2 (first_master, [])"
  by (rule start) (simp add: first_master_def MakeMaster_tasks)

definition first_held :: "Master \<times> Task list" where
  "first_held = (case AssignTask 0 first_master of Ret (m, t) \<Rightarrow> (m, [t]))"

lemma first_held_reach: "mr_reach ''d'' serial [''f'', ''g''] 2 first_held"
proof -
  obtain m t where mt: "AssignTask 0 first_master = Ret (m, t)" "first_held = (m, [t])"
    using mr_inv_start [of "[''f'', ''g'']" 2 first_master]
    by (auto simp: first_master_def MakeMaster_tasks first_held_def AssignTask_def)
  moreover have "TaskState t = Map" using mt(1) by (auto simp: first_master_def MakeMaster_tasks AssignTask_def)
  ultimately show ?thesis using mr_reach.step [OF first_master_reach mr_step.assign [OF mt(1)]] by simp
qed

theorem mr_no_crash_witness:
  "\<exists>m' t m''. AssignTask 7 (fst first_held) = Ret (m', t)
    \<and> TaskCompleted (report ''d'' (hd (snd first_held))) (fst first_held) = Ret m''"
proof -
  have "hd (snd first_held) \<in> set (snd first_held)"
    by (simp add: first_held_def first_master_def MakeMaster_tasks AssignTask_def)
  then show ?thesis
    using mr_no_crash [of "''d''" False "[''f'', ''g'']" 2 "fst first_held" "snd first_held" 7] first_held_reach by auto
qed

definition two_reported :: "(Master \<times> Task \<times> Task) outcome" where
  "two_reported = and_then (MakeMaster [''f'', ''g''] 1) (\<lambda>m. and_then (AssignTask 0 m) (\<lambda>(m, t). and_then (AssignTask 0 m) (\<lambda>(m, u).
     and_then (TaskCompleted (report ''d'' t) m) (\<lambda>m. and_then (TaskCompleted (report ''d'' u) m) (\<lambda>m. Ret (m, t, u))))))"

lemma and_then_Ret: "and_then x f = Ret y \<longleftrightarrow> (\<exists>z. x = Ret z \<and> f z = Ret y)"
  by (cases x) simp_all

lemma two_reported_state:
  "and_then two_reported (\<lambda>(m, t, u). Ret (NReduce m, map TaskState (Goroutines m), map tIntermediates (Goroutines m),
      allTaskDone m, Intermediates m, TaskState t, TaskState u))
   = Ret (1, [Map, Map], [[''d/mr-0-0''], [''d/mr-1-0'']], True, [[]], Map, Map)"
  by code_simp

lemma two_reported_reach:
  assumes "two_reported = Ret (m, t, u)" and "TaskState t = Map" "TaskState u = Map"
  shows "\<exists>held. mr_reach ''d'' False [''f'', ''g''] 1 (m, held)"
proof -
  from assms(1) obtain m0 m1 m2 m3 where s: "MakeMaster [''f'', ''g''] 1 = Ret m0" "AssignTask 0 m0 = Ret (m1, t)"
    "AssignTask 0 m1 = Ret (m2, u)" "TaskCompleted (report ''d'' t) m2 = Ret m3" "TaskCompleted (report ''d'' u) m3 = Ret m"
    unfolding two_reported_def and_then_Ret by (auto simp: and_then_Ret)
  have 1: "mr_reach ''d'' False [''f'', ''g''] 1 (m1, [t])"
    using mr_reach.step [OF mr_reach.start [OF s(1)] mr_step.assign [OF s(2)]] assms(2) by simp
  have 2: "mr_reach ''d'' False [''f'', ''g''] 1 (m2, [u, t])"
    using mr_reach.step [OF 1 mr_step.assign [OF s(3)]] assms(3) by simp
  have 3: "mr_reach ''d'' False [''f'', ''g''] 1 (m3, remove1 t [u, t])"
    by (rule mr_reach.step [OF 2], rule mr_step.complete [OF _ _ s(4)]) simp_all
  have "mr_reach ''d'' False [''f'', ''g''] 1 (m, remove1 u (remove1 t [u, t]))" if "u \<noteq> t"
    by (rule mr_reach.step [OF 3], rule mr_step.complete [OF _ _ s(5)]) (use that in simp_all)
  moreover have "mr_reach ''d'' False [''f'', ''g''] 1 (m, remove1 u (remove1 t [u, t]))" if "u = t"
    by (rule mr_reach.step [OF 3], rule mr_step.complete [OF _ _ s(5)]) (use that in simp_all)
  ultimately show ?thesis by blast
qed


end
