(* ===== verification/MRSystem.thy ===== *)
theory MRSystem
  imports MRCoordCorrect
begin

text \<open>
  The MapReduce system as a whole: the master of \<open>MRCoordinator\<close>, workers that run \<open>mapper\<close> and \<open>reducer\<close>
  of \<open>MRWorker\<close>, and the files they share. A worker gets a task, works on it at some later time, and
  reports it at some time after that; workers interleave in any way. As in \<open>MRCoordCorrect\<close> no task
  times out, and a report waits until the goroutine of the one before has run.

  The RPCs of \<open>src/src/mr/worker.go\<close> are \<open>getTask\<close> and \<open>TaskCompleted\<close>, over \<open>call\<close>; in the system every
  call of a worker is answered.
\<close>

section \<open>Remote calls of a worker\<close>

text \<open>The socket of the master, \<open>src/src/mr/rpc.go\<close>: every user has a different one.\<close>

definition masterSock :: "int \<Rightarrow> string" where
  "masterSock uid = ''/var/tmp/824-mr-'' @ itoa uid"

lemma masterSock_inject: "masterSock u = masterSock v \<longleftrightarrow> u = v"
  by (simp add: masterSock_def)

text \<open>\<open>call\<close>: the master cannot be reached and the process exits, the call fails, or there is a reply.\<close>

datatype 'r call_result = NoMaster | CallError | Reply 'r

definition mr_call :: "bool \<Rightarrow> 'r option \<Rightarrow> 'r call_result" where
  "mr_call dialled answer = (if \<not> dialled then NoMaster else case answer of None \<Rightarrow> CallError | Some r \<Rightarrow> Reply r)"

text \<open>\<open>getTask\<close> ignores the result of \<open>call\<close>: after an error it returns the zero value of \<open>Task\<close>.\<close>

definition getTask :: "bool \<Rightarrow> Task option \<Rightarrow> Task option" where
  "getTask dialled answer = (case mr_call dialled answer of NoMaster \<Rightarrow> None | CallError \<Rightarrow> Some zero_task | Reply t \<Rightarrow> Some t)"

text \<open>The worker's \<open>TaskCompleted\<close>: whether the process goes on; a report that fails is lost.\<close>

definition worker_TaskCompleted :: "bool \<Rightarrow> unit option \<Rightarrow> bool" where
  "worker_TaskCompleted dialled answer \<longleftrightarrow> mr_call dialled answer \<noteq> NoMaster"

text \<open>The zero value is a map task without input file, and the worker ends with \<open>log.Fatal\<close>.\<close>

lemma getTask_error_fatal:
  "fs (abs_path dir '''') = None \<Longrightarrow> Option.bind (getTask True None) (\<lambda>t. Worker_turn J srt dir temps mapf reducef t fs) = None"
  by (simp add: getTask_def mr_call_def Worker_turn_def zero_task_def mapper_def)

section \<open>The system\<close>

text \<open>A job: the files, the application and what it runs on; \<open>content\<close> is what the input files hold.\<close>

record job =
  job_json :: json
  job_sort :: "KeyValue list \<Rightarrow> KeyValue list"
  job_dir :: string
  job_map :: "string \<Rightarrow> string \<Rightarrow> KeyValue list"
  job_reduce :: "string \<Rightarrow> string list \<Rightarrow> string"
  job_inputs :: "string list"
  job_n :: int
  job_content :: "string \<Rightarrow> string"

definition job_paths :: "job \<Rightarrow> string set" where
  "job_paths B = abs_path (job_dir B) ` set (job_inputs B) \<union> task_files (job_dir B)"

text \<open>
  The state is the master, the tasks that workers hold, each with what the worker will report once it
  has done the work, and the files.
\<close>

type_synonym mr_state = "Master \<times> (Task \<times> Task option) list \<times> files"

inductive job_step :: "job \<Rightarrow> mr_state \<Rightarrow> mr_state \<Rightarrow> bool" for B where
  assign: "AssignTask now m = Ret (m', t) \<Longrightarrow>
    job_step B (m, ws, fs) (m', if TaskState t = Map \<or> TaskState t = Reduce then (t, None) # ws else ws, fs)"
| work: "i < length ws \<Longrightarrow> ws ! i = (t, None) \<Longrightarrow> temps_ok temps (job_paths B) \<Longrightarrow>
    Worker_turn (job_json B) (job_sort B) (job_dir B) temps (job_map B) (job_reduce B) t fs = Some (fs', Some t', True) \<Longrightarrow>
    job_step B (m, ws, fs) (m, ws[i := (t, Some t')], fs')"
| report: "(t, Some t') \<in> set ws \<Longrightarrow> Goroutines m = [] \<Longrightarrow> TaskCompleted t' m = Ret m' \<Longrightarrow>
    job_step B (m, ws, fs) (m', remove1 (t, Some t') ws, fs)"
| goroutine: "g < length (Goroutines m) \<Longrightarrow> run_goroutine g m = Ret m' \<Longrightarrow>
    job_step B (m, ws, fs) (m', ws, fs)"

inductive job_reach :: "job \<Rightarrow> files \<Rightarrow> mr_state \<Rightarrow> bool" for B fs0 where
  start: "MakeMaster (job_inputs B) (job_n B) = Ret m \<Longrightarrow> job_reach B fs0 (m, [], fs0)"
| step: "job_reach B fs0 s \<Longrightarrow> job_step B s s' \<Longrightarrow> job_reach B fs0 s'"

text \<open>What the development assumes of a job: documented behaviour of the libraries, an absolute working directory,
  readable inputs that are none of the files of tasks, and a reduce function that does not depend on the
  order of its values.\<close>

definition job_ok :: "job \<Rightarrow> files \<Rightarrow> bool" where
  "job_ok B fs0 \<longleftrightarrow> json_ok (job_json B) \<and> sort_ByKey_ok (job_sort B) \<and> order_free (job_reduce B) \<and> 0 < job_n B
     \<and> rooted (job_dir B)
     \<and> (\<forall>f \<in> set (job_inputs B). fs0 (abs_path (job_dir B) f) = Some (job_content B f)
          \<and> abs_path (job_dir B) f \<notin> task_files (job_dir B)
          \<and> (\<forall>kv \<in> set (job_map B f (job_content B f)). jvalid (job_json B) kv))"

lemma job_okD:
  assumes "job_ok B fs0"
  shows "json_ok (job_json B)" "sort_ByKey_ok (job_sort B)" "order_free (job_reduce B)" "0 < job_n B"
    "f \<in> set (job_inputs B) \<Longrightarrow> fs0 (abs_path (job_dir B) f) = Some (job_content B f)"
    "f \<in> set (job_inputs B) \<Longrightarrow> abs_path (job_dir B) f \<notin> task_files (job_dir B)"
    "f \<in> set (job_inputs B) \<Longrightarrow> kv \<in> set (job_map B f (job_content B f)) \<Longrightarrow> jvalid (job_json B) kv"
    "rooted (job_dir B)"
  using assms by (auto simp: job_ok_def)

section \<open>Files of tasks\<close>

definition pairs_of :: "job \<Rightarrow> int \<Rightarrow> KeyValue list" where
  "pairs_of B k = (let f = job_inputs B ! nat k in job_map B f (job_content B f))"

definition all_pairs :: "job \<Rightarrow> KeyValue list" where
  "all_pairs B = concat (map (\<lambda>f. job_map B f (job_content B f)) (job_inputs B))"

definition map_out :: "job \<Rightarrow> files \<Rightarrow> int \<Rightarrow> bool" where
  "map_out B fs k \<longleftrightarrow> (\<forall>r. 0 \<le> r \<and> r < job_n B \<longrightarrow>
     fs (map_path (job_dir B) k r) = Some (concat (map (jenc (job_json B)) (part (job_n B) (pairs_of B k) r))))"

definition reduce_out :: "job \<Rightarrow> files \<Rightarrow> int \<Rightarrow> bool" where
  "reduce_out B fs r \<longleftrightarrow> fs (out_path (job_dir B) r) =
     Some (lines_for (job_reduce B) (all_pairs B) {k \<in> kvKey ` set (all_pairs B). ihash k mod job_n B = r})"

lemma all_pairs_nth: "all_pairs B = concat (map (\<lambda>j. pairs_of B (int j)) [0..<length (job_inputs B)])"
  unfolding all_pairs_def pairs_of_def Let_def by (intro arg_cong [where f = concat] nth_equalityI) auto

text \<open>A reduce task that lists the files of all map tasks reads all pairs of its part.\<close>

lemma reads_part:
  assumes ok: "job_ok B fs0" and out: "\<forall>k \<in> {0..<int (length (job_inputs B))}. map_out B fs k" and r: "0 \<le> r" "r < job_n B"
    and files: "mset files = mset (map (\<lambda>j. map_path (job_dir B) (int j) r) [0..<length (job_inputs B)])"
  shows "\<exists>xs. readFromLocalFile (job_json B) (job_dir B) fs files = Some xs \<and> mset xs = mset (part (job_n B) (all_pairs B) r)"
proof -
  let ?J = "job_json B" and ?N = "length (job_inputs B)" and ?p = "\<lambda>j. map_path (job_dir B) (int j) r"
  let ?h = "\<lambda>p. jdec ?J (the (fs p))"
  have cont: "fs (?p j) = Some (concat (map (jenc ?J) (part (job_n B) (pairs_of B (int j)) r)))" if "j < ?N" for j
    using out r that by (simp add: map_out_def)
  have valid: "\<forall>kv \<in> set (part (job_n B) (pairs_of B (int j)) r). jvalid ?J kv" if "j < ?N" for j
    using job_okD(7) [OF ok, of "job_inputs B ! j"] that by (auto simp: part_def pairs_of_def Let_def)
  have dec: "?h (?p j) = part (job_n B) (pairs_of B (int j)) r" if "j < ?N" for j
    using cont [OF that] valid [OF that] job_okD(1) [OF ok] by (simp add: json_ok_def)
  have mp: "abs_path (job_dir B) (?p j) = ?p j" for j using job_okD(8) [OF ok] by (simp add: map_path_def)
  have set_files: "set files = ?p ` {0..<?N}" using files by (metis set_mset_mset set_map set_upt)
  have "\<forall>p \<in> set files. abs_path (job_dir B) p = p \<and> fs p \<noteq> None" unfolding set_files using cont mp by auto
  then have "readFromLocalFile ?J (job_dir B) fs files = Some (concat (map ?h files))"
    by (induction files) auto
  moreover have "mset (concat (map ?h files)) = mset (concat (map ?h (map ?p [0..<?N])))"
    unfolding mset_concat_map files ..
  moreover have "concat (map ?h (map ?p [0..<?N])) = part (job_n B) (all_pairs B) r"
  proof -
    have eq: "map ?h (map ?p [0..<?N]) = map (\<lambda>j. part (job_n B) (pairs_of B (int j)) r) [0..<?N]" using dec by simp
    show ?thesis unfolding eq by (simp add: all_pairs_nth part_def filter_concat comp_def)
  qed
  ultimately show ?thesis by auto
qed

section \<open>The invariant\<close>

text \<open>A task that is done as far as the files are concerned.\<close>

definition worked :: "Master \<Rightarrow> (Task \<times> Task option) list \<Rightarrow> int \<Rightarrow> bool" where
  "worked m ws k \<longleftrightarrow> status m k = Some Completed \<or> (\<exists>t t'. (t, Some t') \<in> set ws \<and> TaskNumber t = k)"

definition files_ok :: "job \<Rightarrow> mr_state \<Rightarrow> bool" where
  "files_ok B s \<longleftrightarrow> (case s of (m, ws, fs) \<Rightarrow>
     (\<forall>f \<in> set (job_inputs B). fs (abs_path (job_dir B) f) = Some (job_content B f))
     \<and> (\<forall>t t'. (t, Some t') \<in> set ws \<longrightarrow> t' = report (job_dir B) t)
     \<and> (MasterPhase m = Map \<longrightarrow> (\<forall>t \<in> set (TaskQueue m @ map fst ws). tInput t = job_inputs B ! nat (TaskNumber t))
          \<and> (\<forall>k. worked m ws k \<longrightarrow> map_out B fs k))
     \<and> (MasterPhase m \<noteq> Map \<longrightarrow> (\<forall>k \<in> {0..<int (length (job_inputs B))}. map_out B fs k)
          \<and> (\<forall>k. worked m ws k \<longrightarrow> reduce_out B fs k)))"

definition job_inv :: "job \<Rightarrow> mr_state \<Rightarrow> bool" where
  "job_inv B s \<longleftrightarrow> (case s of (m, ws, fs) \<Rightarrow> mr_inv (m, map fst ws)
     \<and> mr_serial (job_dir B) (length (job_inputs B)) (job_n B) (m, map fst ws) \<and> files_ok B s)"

text \<open>What a worker does with the task it holds.\<close>

lemma job_paths_mem: "0 \<le> x \<Longrightarrow> 0 \<le> y \<Longrightarrow> map_path (job_dir B) x y \<in> job_paths B" "out_path (job_dir B) r \<in> job_paths B"
  "f \<in> set (job_inputs B) \<Longrightarrow> abs_path (job_dir B) f \<in> job_paths B"
  by (auto simp: job_paths_def task_files_def)

lemma input_not_task_file:
  assumes "job_ok B fs0" and "f \<in> set (job_inputs B)"
  shows "0 \<le> x \<Longrightarrow> 0 \<le> y \<Longrightarrow> abs_path (job_dir B) f \<noteq> map_path (job_dir B) x y"
    "abs_path (job_dir B) f \<noteq> out_path (job_dir B) r"
  using job_okD(6) [OF assms] by (auto simp: task_files_def)

lemma Worker_map:
  assumes ok: "job_ok B fs0" and temps: "temps_ok temps (job_paths B)" and t: "TaskState t = Map" "NReducer t = job_n B"
    and k: "0 \<le> TaskNumber t" "TaskNumber t < int (length (job_inputs B))" and inp: "tInput t = job_inputs B ! nat (TaskNumber t)"
    and fs: "\<forall>f \<in> set (job_inputs B). fs (abs_path (job_dir B) f) = Some (job_content B f)"
  shows "\<exists>fs'. Worker_turn (job_json B) (job_sort B) (job_dir B) temps (job_map B) (job_reduce B) t fs
      = Some (fs', Some (report (job_dir B) t), True) \<and> map_out B fs' (TaskNumber t)
    \<and> (\<forall>p \<in> job_paths B. (\<forall>r \<ge> 0. p \<noteq> map_path (job_dir B) (TaskNumber t) r) \<longrightarrow> fs' p = fs p)"
proof -
  have "tInput t \<in> set (job_inputs B)" using inp k by (simp add: nat_less_iff)
  with fs have "fs (abs_path (job_dir B) (tInput t)) = Some (job_content B (tInput t))" by blast
  moreover have "\<forall>y \<ge> 0. map_path (job_dir B) (TaskNumber t) y \<in> job_paths B" using k(1) job_paths_mem by blast
  ultimately show ?thesis
    using mapper_files [OF temps k(1), of "job_dir B" fs "job_content B (tInput t)" "job_json B" "job_map B"]
      job_okD(4) [OF ok] t inp by (auto simp: Worker_turn_def report_def map_out_def pairs_of_def Let_def)
qed

lemma Worker_reduce:
  assumes ok: "job_ok B fs0" and temps: "temps_ok temps (job_paths B)" and t: "TaskState t = Reduce"
    and k: "0 \<le> TaskNumber t" "TaskNumber t < job_n B" and inp: "complete_input (job_dir B) (length (job_inputs B)) t"
    and fs: "\<forall>k \<in> {0..<int (length (job_inputs B))}. map_out B fs k"
  shows "\<exists>fs'. Worker_turn (job_json B) (job_sort B) (job_dir B) temps (job_map B) (job_reduce B) t fs
      = Some (fs', Some (report (job_dir B) t), True) \<and> reduce_out B fs' (TaskNumber t)
    \<and> (\<forall>p \<in> job_paths B. p \<noteq> out_path (job_dir B) (TaskNumber t) \<longrightarrow> fs' p = fs p)"
proof -
  obtain xs where xs: "readFromLocalFile (job_json B) (job_dir B) fs (tIntermediates t) = Some xs"
    "mset xs = mset (part (job_n B) (all_pairs B) (TaskNumber t))"
    using reads_part [OF ok fs k] inp by (auto simp: complete_input_def)
  obtain tmp where tmp: "temps 0 = Some tmp" "tmp \<notin> job_paths B" using temps by (auto simp: temps_ok_def)
  let ?o = "out_path (job_dir B) (TaskNumber t)"
  let ?fs = "(fs(tmp := None))(?o \<mapsto> concat (reduce_loop (job_reduce B) (job_sort B xs) 0))"
  have "Worker_turn (job_json B) (job_sort B) (job_dir B) temps (job_map B) (job_reduce B) t fs = Some (?fs, Some (report (job_dir B) t), True)"
    using t xs(1) tmp job_paths_mem(2) [of B "TaskNumber t"]
    by (auto simp: Worker_turn_def reducer_def report_def os_rename_def out_path_def Let_def)
  moreover have "reduce_out B ?fs (TaskNumber t)"
    using reduce_part [OF job_okD(2,3) [OF ok] xs(2)] by (simp add: reduce_out_def)
  moreover have "\<forall>p \<in> job_paths B. p \<noteq> ?o \<longrightarrow> ?fs p = fs p" using tmp(2) by auto
  ultimately show ?thesis by blast
qed

section \<open>Steps keep the invariant\<close>

lemma job_inv_iff:
  "job_inv B (m, ws, fs) \<longleftrightarrow> mr_inv (m, map fst ws)
     \<and> mr_serial (job_dir B) (length (job_inputs B)) (job_n B) (m, map fst ws)
     \<and> (\<forall>f \<in> set (job_inputs B). fs (abs_path (job_dir B) f) = Some (job_content B f))
     \<and> (\<forall>t t'. (t, Some t') \<in> set ws \<longrightarrow> t' = report (job_dir B) t)
     \<and> (MasterPhase m = Map \<longrightarrow> (\<forall>t \<in> set (TaskQueue m @ map fst ws). tInput t = job_inputs B ! nat (TaskNumber t))
          \<and> (\<forall>k. worked m ws k \<longrightarrow> map_out B fs k))
     \<and> (MasterPhase m \<noteq> Map \<longrightarrow> (\<forall>k \<in> {0..<int (length (job_inputs B))}. map_out B fs k)
          \<and> (\<forall>k. worked m ws k \<longrightarrow> reduce_out B fs k))"
  unfolding job_inv_def files_ok_def prod.case ..

lemma job_invD:
  assumes inv: "job_inv B (m, ws, fs)"
  shows "mr_inv (m, map fst ws)" "mr_serial (job_dir B) (length (job_inputs B)) (job_n B) (m, map fst ws)"
    "\<forall>f \<in> set (job_inputs B). fs (abs_path (job_dir B) f) = Some (job_content B f)" "(t, Some t') \<in> set ws \<Longrightarrow> t' = report (job_dir B) t"
    "MasterPhase m = Map \<Longrightarrow> \<forall>t \<in> set (TaskQueue m @ map fst ws). tInput t = job_inputs B ! nat (TaskNumber t)"
    "MasterPhase m = Map \<Longrightarrow> worked m ws k \<Longrightarrow> map_out B fs k"
    "MasterPhase m \<noteq> Map \<Longrightarrow> \<forall>k \<in> {0..<int (length (job_inputs B))}. map_out B fs k"
    "MasterPhase m \<noteq> Map \<Longrightarrow> worked m ws k \<Longrightarrow> reduce_out B fs k"
proof -
  note I = inv [unfolded job_inv_iff]
  show "mr_inv (m, map fst ws)" using I by (rule conjunct1)
  show "mr_serial (job_dir B) (length (job_inputs B)) (job_n B) (m, map fst ws)" using I by (elim conjE)
  show "\<forall>f \<in> set (job_inputs B). fs (abs_path (job_dir B) f) = Some (job_content B f)" using I by (elim conjE)
  from I have rep: "\<forall>t t'. (t, Some t') \<in> set ws \<longrightarrow> t' = report (job_dir B) t" by (elim conjE)
  show "(t, Some t') \<in> set ws \<Longrightarrow> t' = report (job_dir B) t" by (rule rep [rule_format])
  from I have M: "MasterPhase m = Map \<longrightarrow> (\<forall>t \<in> set (TaskQueue m @ map fst ws). tInput t = job_inputs B ! nat (TaskNumber t))
          \<and> (\<forall>k. worked m ws k \<longrightarrow> map_out B fs k)" by (elim conjE)
  show "MasterPhase m = Map \<Longrightarrow> \<forall>t \<in> set (TaskQueue m @ map fst ws). tInput t = job_inputs B ! nat (TaskNumber t)"
    using M by (rule conjunct1 [OF mp])
  show "MasterPhase m = Map \<Longrightarrow> worked m ws k \<Longrightarrow> map_out B fs k" using conjunct2 [OF mp [OF M]] by blast
  from I have R: "MasterPhase m \<noteq> Map \<longrightarrow> (\<forall>k \<in> {0..<int (length (job_inputs B))}. map_out B fs k)
          \<and> (\<forall>k. worked m ws k \<longrightarrow> reduce_out B fs k)" by (elim conjE)
  show "MasterPhase m \<noteq> Map \<Longrightarrow> \<forall>k \<in> {0..<int (length (job_inputs B))}. map_out B fs k"
    using R by (rule conjunct1 [OF mp])
  show "MasterPhase m \<noteq> Map \<Longrightarrow> worked m ws k \<Longrightarrow> reduce_out B fs k" using conjunct2 [OF mp [OF R]] by blast
qed

lemma job_invI:
  assumes "mr_inv (m, map fst ws)" "mr_serial (job_dir B) (length (job_inputs B)) (job_n B) (m, map fst ws)"
    and "\<forall>f \<in> set (job_inputs B). fs (abs_path (job_dir B) f) = Some (job_content B f)" and "\<And>t t'. (t, Some t') \<in> set ws \<Longrightarrow> t' = report (job_dir B) t"
    and inp: "\<And>t. MasterPhase m = Map \<Longrightarrow> t \<in> set (TaskQueue m) \<union> set (map fst ws) \<Longrightarrow> tInput t = job_inputs B ! nat (TaskNumber t)"
    and "\<And>k. MasterPhase m = Map \<Longrightarrow> worked m ws k \<Longrightarrow> map_out B fs k"
    and "MasterPhase m \<noteq> Map \<Longrightarrow> \<forall>k \<in> {0..<int (length (job_inputs B))}. map_out B fs k"
    and "\<And>k. MasterPhase m \<noteq> Map \<Longrightarrow> worked m ws k \<Longrightarrow> reduce_out B fs k"
  shows "job_inv B (m, ws, fs)"
  unfolding job_inv_iff set_append
proof (intro conjI impI allI)
  show "\<forall>t \<in> set (TaskQueue m) \<union> set (map fst ws). tInput t = job_inputs B ! nat (TaskNumber t)" if "MasterPhase m = Map"
    using inp [OF that] by blast
qed (fact assms | erule (1) assms | erule assms)+

lemma held_facts:
  assumes inv: "job_inv B (m, ws, fs)" and t: "(t, x) \<in> set ws"
  shows "NReducer t = job_n B" "TaskState t = MasterPhase m" "TaskState t = Map \<or> TaskState t = Reduce"
    "status m (TaskNumber t) = Some InProgress"
    "TaskState t = Map \<Longrightarrow> 0 \<le> TaskNumber t \<and> TaskNumber t < int (length (job_inputs B))"
    "TaskState t = Reduce \<Longrightarrow> 0 \<le> TaskNumber t \<and> TaskNumber t < job_n B \<and> complete_input (job_dir B) (length (job_inputs B)) t"
proof -
  note I = job_invD(1) [OF inv] and S = job_invD(2) [OF inv, unfolded mr_serial_def prod.case]
  have mem: "t \<in> set (map fst ws)" using t by force
  then show "NReducer t = job_n B" "TaskState t = MasterPhase m" "TaskState t = Map \<or> TaskState t = Reduce"
    using mr_invD(8) [OF I, of t] S by auto
  show st: "status m (TaskNumber t) = Some InProgress" using mr_invD(7) [OF I] mem by blast
  show "TaskState t = Map \<Longrightarrow> 0 \<le> TaskNumber t \<and> TaskNumber t < int (length (job_inputs B))"
    using S st \<open>TaskState t = MasterPhase m\<close> by (auto simp: map_phase_ok_def)
  show "TaskState t = Reduce \<Longrightarrow> 0 \<le> TaskNumber t \<and> TaskNumber t < job_n B \<and> complete_input (job_dir B) (length (job_inputs B)) t"
    using S st mem \<open>TaskState t = MasterPhase m\<close> by (auto simp: reduce_phase_ok_def)
qed

text \<open>Working on a task a second time, or on another one, does not disturb the files of finished tasks.\<close>

lemma map_out_keep:
  assumes "map_out B fs k" and "0 \<le> k" "0 \<le> x" "k \<noteq> x"
    and "\<forall>p \<in> job_paths B. (\<forall>r \<ge> 0. p \<noteq> map_path (job_dir B) x r) \<longrightarrow> fs' p = fs p"
  shows "map_out B fs' k"
  using assms job_paths_mem(1) map_path_inject by (auto simp: map_out_def)

lemma map_out_keep_reduce:
  assumes "map_out B fs k" and "0 \<le> k" and "\<forall>p \<in> job_paths B. p \<noteq> out_path (job_dir B) r \<longrightarrow> fs' p = fs p"
  shows "map_out B fs' k"
  using assms job_paths_mem(1) map_path_neq_out_path by (auto simp: map_out_def)

lemma reduce_out_keep:
  assumes "reduce_out B fs k" and "k \<noteq> r" and "\<forall>p \<in> job_paths B. p \<noteq> out_path (job_dir B) r \<longrightarrow> fs' p = fs p"
  shows "reduce_out B fs' k"
  using assms job_paths_mem(2) by (auto simp: reduce_out_def)

lemma worked_nonneg: "job_inv B (m, ws, fs) \<Longrightarrow> worked m ws k \<Longrightarrow> 0 \<le> k"
proof -
  assume inv: "job_inv B (m, ws, fs)" and w: "worked m ws k"
  then have "k \<in> dom (status m)" using held_facts(4) [OF inv] by (fastforce simp: worked_def)
  then show "0 \<le> k"
    using job_invD(2) [OF inv] by (auto simp: mr_serial_def map_phase_ok_def reduce_phase_ok_def split: if_splits)
qed

lemma worked_update:
  assumes "i < length ws" and "ws ! i = (t, None)"
  shows "worked m (ws[i := (t, Some t')]) k \<longleftrightarrow> worked m ws k \<or> k = TaskNumber t"
proof -
  have "(u, Some u') \<in> set (ws[i := (t, Some t')]) \<longleftrightarrow> (u, Some u') \<in> set ws \<or> (u = t \<and> u' = t')" for u u'
  proof
    assume "(u, Some u') \<in> set (ws[i := (t, Some t')])"
    then show "(u, Some u') \<in> set ws \<or> (u = t \<and> u' = t')" using set_update_subset_insert by fastforce
  next
    assume "(u, Some u') \<in> set ws \<or> (u = t \<and> u' = t')"
    then show "(u, Some u') \<in> set (ws[i := (t, Some t')])"
    proof
      assume "(u, Some u') \<in> set ws"
      then obtain j where "j < length ws" "ws ! j = (u, Some u')" by (auto simp: in_set_conv_nth)
      moreover from this have "j \<noteq> i" using assms(2) by auto
      ultimately show ?thesis by (metis in_set_conv_nth length_list_update nth_list_update_neq)
    qed (use assms(1) in \<open>auto simp: set_update_memI\<close>)
  qed
  then show ?thesis by (auto simp: worked_def)
qed

text \<open>The invariant after a worker has done its task, from what holds of the files.\<close>

lemma job_inv_done:
  assumes inv: "job_inv B (m, ws, fs)" and i: "i < length ws" "ws ! i = (t, None)"
    and inputs: "\<forall>f \<in> set (job_inputs B). fs' (abs_path (job_dir B) f) = Some (job_content B f)"
    and map: "\<And>k. MasterPhase m = Map \<Longrightarrow> worked m ws k \<or> k = TaskNumber t \<Longrightarrow> map_out B fs' k"
    and maps: "MasterPhase m \<noteq> Map \<Longrightarrow> \<forall>k \<in> {0..<int (length (job_inputs B))}. map_out B fs' k"
    and red: "\<And>k. MasterPhase m \<noteq> Map \<Longrightarrow> worked m ws k \<or> k = TaskNumber t \<Longrightarrow> reduce_out B fs' k"
  shows "job_inv B (m, ws[i := (t, Some (report (job_dir B) t))], fs')"
proof -
  let ?ws = "ws[i := (t, Some (report (job_dir B) t))]"
  have proj: "map fst ?ws = map fst ws" using i by (simp add: map_update list_update_same_conv)
  note W = worked_update [OF i, of m "report (job_dir B) t"]
  show ?thesis
  proof (rule job_invI)
    show "mr_inv (m, map fst ?ws)" unfolding proj using job_invD(1) [OF inv] .
    show "mr_serial (job_dir B) (length (job_inputs B)) (job_n B) (m, map fst ?ws)" unfolding proj using job_invD(2) [OF inv] .
    show "u' = report (job_dir B) u" if "(u, Some u') \<in> set ?ws" for u u'
      using subsetD [OF set_update_subset_insert that] job_invD(4) [OF inv, of u u'] by blast
    show "tInput u = job_inputs B ! nat (TaskNumber u)" if "MasterPhase m = Map" "u \<in> set (TaskQueue m) \<union> set (map fst ?ws)" for u
      using job_invD(5) [OF inv that(1)] that(2) unfolding proj set_append by blast
    show "map_out B fs' k" if "MasterPhase m = Map" "worked m ?ws k" for k using map [OF that(1)] that(2) unfolding W by blast
    show "reduce_out B fs' k" if "MasterPhase m \<noteq> Map" "worked m ?ws k" for k using red [OF that(1)] that(2) unfolding W by blast
  qed (fact inputs maps)+
qed

lemma Worker_files:
  assumes ok: "job_ok B fs0" and inv: "job_inv B (m, ws, fs)" and t: "(t, None) \<in> set ws" and temps: "temps_ok temps (job_paths B)"
  obtains fs' where "Worker_turn (job_json B) (job_sort B) (job_dir B) temps (job_map B) (job_reduce B) t fs
      = Some (fs', Some (report (job_dir B) t), True)"
    and "if TaskState t = Map then map_out B fs' (TaskNumber t) else reduce_out B fs' (TaskNumber t)"
    and "\<forall>p \<in> job_paths B. (\<forall>r \<ge> 0. TaskState t = Map \<longrightarrow> p \<noteq> map_path (job_dir B) (TaskNumber t) r)
      \<and> (TaskState t = Reduce \<longrightarrow> p \<noteq> out_path (job_dir B) (TaskNumber t)) \<longrightarrow> fs' p = fs p"
proof (cases "TaskState t = Map")
  case True
  note H = held_facts [OF inv t]
  have ph: "MasterPhase m = Map" using H(2) True by simp
  have "t \<in> set (TaskQueue m @ map fst ws)" using t by force
  with job_invD(5) [OF inv ph] have inp: "tInput t = job_inputs B ! nat (TaskNumber t)" by blast
  from H(5) [OF True] have k: "0 \<le> TaskNumber t" "TaskNumber t < int (length (job_inputs B))" by blast+
  from Worker_map [OF ok temps True H(1) k inp job_invD(3) [OF inv]] show thesis using that True by auto
next
  case False
  note H = held_facts [OF inv t]
  have red: "TaskState t = Reduce" and ph: "MasterPhase m \<noteq> Map" using H(2,3) False by auto
  from H(6) [OF red] have k: "0 \<le> TaskNumber t" "TaskNumber t < job_n B" "complete_input (job_dir B) (length (job_inputs B)) t" by blast+
  from Worker_reduce [OF ok temps red k job_invD(7) [OF inv ph]] show thesis using that red by auto
qed

lemma job_inv_work:
  assumes ok: "job_ok B fs0" and inv: "job_inv B (m, ws, fs)" and i: "i < length ws" "ws ! i = (t, None)"
    and temps: "temps_ok temps (job_paths B)"
    and w: "Worker_turn (job_json B) (job_sort B) (job_dir B) temps (job_map B) (job_reduce B) t fs = Some (fs', Some t', True)"
  shows "job_inv B (m, ws[i := (t, Some t')], fs')"
proof -
  have mem: "(t, None) \<in> set ws" using i by (metis nth_mem)
  note H = held_facts [OF inv mem]
  obtain fs1 where f: "Worker_turn (job_json B) (job_sort B) (job_dir B) temps (job_map B) (job_reduce B) t fs
      = Some (fs1, Some (report (job_dir B) t), True)"
    and out: "if TaskState t = Map then map_out B fs1 (TaskNumber t) else reduce_out B fs1 (TaskNumber t)"
    and keep: "\<forall>p \<in> job_paths B. (\<forall>r \<ge> 0. TaskState t = Map \<longrightarrow> p \<noteq> map_path (job_dir B) (TaskNumber t) r)
      \<and> (TaskState t = Reduce \<longrightarrow> p \<noteq> out_path (job_dir B) (TaskNumber t)) \<longrightarrow> fs1 p = fs p"
    by (rule Worker_files [OF ok inv mem temps])
  have eq: "t' = report (job_dir B) t" "fs' = fs1" using w f by auto
  show ?thesis
    unfolding eq
  proof (rule job_inv_done [OF inv i])
    show "\<forall>f \<in> set (job_inputs B). fs1 (abs_path (job_dir B) f) = Some (job_content B f)"
    proof
      fix f assume f: "f \<in> set (job_inputs B)"
      then have "fs1 (abs_path (job_dir B) f) = fs (abs_path (job_dir B) f)"
        using keep job_paths_mem(3) [OF f] input_not_task_file [OF ok f] H(5) by blast
      then show "fs1 (abs_path (job_dir B) f) = Some (job_content B f)" using job_invD(3) [OF inv] f by simp
    qed
  next
    fix k assume ph: "MasterPhase m = Map" and k: "worked m ws k \<or> k = TaskNumber t"
    then have st: "TaskState t = Map" using H(2) by simp
    have same: "\<forall>p \<in> job_paths B. (\<forall>r \<ge> 0. p \<noteq> map_path (job_dir B) (TaskNumber t) r) \<longrightarrow> fs1 p = fs p" using keep st by simp
    show "map_out B fs1 k"
    proof (cases "k = TaskNumber t")
      case False
      with k have "worked m ws k" by simp
      from map_out_keep [OF job_invD(6) [OF inv ph this] worked_nonneg [OF inv this] _ False same] H(5) [OF st]
      show ?thesis by simp
    qed (use out st in simp)
  next
    assume ph: "MasterPhase m \<noteq> Map"
    then have st: "TaskState t = Reduce" using H(2,3) by auto
    have same: "\<forall>p \<in> job_paths B. p \<noteq> out_path (job_dir B) (TaskNumber t) \<longrightarrow> fs1 p = fs p" using keep st by simp
    show "\<forall>k \<in> {0..<int (length (job_inputs B))}. map_out B fs1 k"
      using map_out_keep_reduce [OF _ _ same] job_invD(7) [OF inv ph] by auto
    show "reduce_out B fs1 k" if k: "worked m ws k \<or> k = TaskNumber t" for k
    proof (cases "k = TaskNumber t")
      case False
      with k have "worked m ws k" by simp
      from reduce_out_keep [OF job_invD(8) [OF inv ph this] False same] show ?thesis .
    qed (use out st in simp)
  qed
qed

lemma job_inv_assign:
  assumes inv: "job_inv B (m, ws, fs)" and as: "AssignTask now m = Ret (m', t)"
  shows "job_inv B (m', if TaskState t = Map \<or> TaskState t = Reduce then (t, None) # ws else ws, fs)"
  using job_invD(1) [OF inv]
proof (cases rule: AssignTask_cases [where now = now])
  case (task t' q mt)
  then have t: "t' = t" and m': "m' = m\<lparr>TaskQueue := q, TaskMeta := meta_put (TaskNumber t)
      (mt\<lparr>TaskStatus := InProgress, StartTime := now\<rparr>) (TaskMeta m)\<rparr>" using as by auto
  have st: "status m' = (status m)(TaskNumber t \<mapsto> InProgress)" unfolding m' by simp
  have ph: "MasterPhase m' = MasterPhase m" by (simp add: m')
  have live: "TaskState t = Map \<or> TaskState t = Reduce" using mr_invD(8) [OF job_invD(1) [OF inv], of t] task(1) t by auto
  have was: "worked m ws k" if "worked m' ((t, None) # ws) k" for k
    using that by (auto simp: worked_def st split: if_splits)
  have "job_inv B (m', (t, None) # ws, fs)"
  proof (rule job_invI)
    show "mr_inv (m', map fst ((t, None) # ws))" using mr_inv_assign [OF job_invD(1) [OF inv] as] live by simp
    show "mr_serial (job_dir B) (length (job_inputs B)) (job_n B) (m', map fst ((t, None) # ws))"
      using mr_serial_assign [OF job_invD(1,2) [OF inv] as] live by simp
    show "\<forall>f \<in> set (job_inputs B). fs (abs_path (job_dir B) f) = Some (job_content B f)" using job_invD(3) [OF inv] .
    show "u' = report (job_dir B) u" if "(u, Some u') \<in> set ((t, None) # ws)" for u u' using that job_invD(4) [OF inv] by simp
    show "tInput u = job_inputs B ! nat (TaskNumber u)"
      if "MasterPhase m' = Map" "u \<in> set (TaskQueue m') \<union> set (map fst ((t, None) # ws))" for u
    proof -
      have "u \<in> set (TaskQueue m @ map fst ws)" using that(2) task(1) t unfolding m' by auto
      with job_invD(5) [OF inv] that(1) ph show ?thesis by metis
    qed
    show "map_out B fs k" if "MasterPhase m' = Map" "worked m' ((t, None) # ws) k" for k
      using job_invD(6) [OF inv _ was [OF that(2)]] that(1) ph by simp
    show "\<forall>k \<in> {0..<int (length (job_inputs B))}. map_out B fs k" if "MasterPhase m' \<noteq> Map"
      using job_invD(7) [OF inv] that ph by simp
    show "reduce_out B fs k" if "MasterPhase m' \<noteq> Map" "worked m' ((t, None) # ws) k" for k
      using job_invD(8) [OF inv _ was [OF that(2)]] that(1) ph by simp
  qed
  then show ?thesis using live by simp
next
  case (idle t')
  then show ?thesis using as inv by simp
qed

lemma remove1_fst: "distinct (map fst ws) \<Longrightarrow> (t, x) \<in> set ws \<Longrightarrow> map fst (remove1 (t, x) ws) = remove1 t (map fst ws)"
  by (induction ws) force+

lemma held_remove1:
  assumes inv: "job_inv B (m, ws, fs)" and t: "(t, x) \<in> set ws"
  shows "map fst (remove1 (t, x) ws) = remove1 t (map fst ws)"
proof -
  have "distinct (map TaskNumber (map fst ws))" using mr_invD(5) [OF job_invD(1) [OF inv]] by simp
  then show ?thesis using remove1_fst [OF distinct_map [THEN iffD1, THEN conjunct1] t] by blast
qed

lemma job_inv_report:
  assumes inv: "job_inv B (m, ws, fs)" and t: "(t, Some t') \<in> set ws" and gs: "Goroutines m = []"
    and c: "TaskCompleted t' m = Ret m'"
  shows "job_inv B (m', remove1 (t, Some t') ws, fs)"
proof -
  note I = job_invD(1) [OF inv]
  have mem: "t \<in> set (map fst ws)" using t by force
  have c': "TaskCompleted (report (job_dir B) t) m = Ret m'" using c job_invD(4) [OF inv t] by simp
  obtain mt where m': "m' = m\<lparr>TaskMeta := meta_put (TaskNumber t) (mt\<lparr>TaskStatus := Completed\<rparr>) (TaskMeta m),
      Goroutines := Goroutines m @ [report (job_dir B) t]\<rparr>"
    using TaskCompleted_held [OF I mem, of "job_dir B"] c' by (metis outcome.inject)
  have st: "status m' = (status m)(TaskNumber t \<mapsto> Completed)" unfolding m' by simp
  have ph: "MasterPhase m' = MasterPhase m" "TaskQueue m' = TaskQueue m" by (simp_all add: m')
  note proj = held_remove1 [OF inv t]
  have sub: "set (remove1 (t, Some t') ws) \<subseteq> set ws" by (rule set_remove1_subset)
  have was: "worked m ws k" if "worked m' (remove1 (t, Some t') ws) k" for k
    using that t sub by (auto simp: worked_def st split: if_splits)
  show ?thesis
  proof (rule job_invI)
    show "mr_inv (m', map fst (remove1 (t, Some t') ws))" unfolding proj using mr_inv_complete [OF I mem c'] .
    show "mr_serial (job_dir B) (length (job_inputs B)) (job_n B) (m', map fst (remove1 (t, Some t') ws))"
      unfolding proj using mr_serial_complete [OF I job_invD(2) [OF inv] mem gs c'] .
    show "\<forall>f \<in> set (job_inputs B). fs (abs_path (job_dir B) f) = Some (job_content B f)" using job_invD(3) [OF inv] .
    show "u' = report (job_dir B) u" if "(u, Some u') \<in> set (remove1 (t, Some t') ws)" for u u'
      using job_invD(4) [OF inv subsetD [OF sub that]] .
    show "tInput u = job_inputs B ! nat (TaskNumber u)"
      if "MasterPhase m' = Map" "u \<in> set (TaskQueue m') \<union> set (map fst (remove1 (t, Some t') ws))" for u
    proof -
      have "u \<in> set (TaskQueue m @ map fst ws)" using that(2) image_mono [OF sub, of fst] unfolding ph by auto
      with job_invD(5) [OF inv] that(1) ph show ?thesis by metis
    qed
    show "map_out B fs k" if "MasterPhase m' = Map" "worked m' (remove1 (t, Some t') ws) k" for k
      using job_invD(6) [OF inv _ was [OF that(2)]] that(1) ph by simp
    show "\<forall>k \<in> {0..<int (length (job_inputs B))}. map_out B fs k" if "MasterPhase m' \<noteq> Map"
      using job_invD(7) [OF inv] that ph by simp
    show "reduce_out B fs k" if "MasterPhase m' \<noteq> Map" "worked m' (remove1 (t, Some t') ws) k" for k
      using job_invD(8) [OF inv _ was [OF that(2)]] that(1) ph by simp
  qed
qed

text \<open>A goroutine that neither creates tasks nor changes the status of one.\<close>

lemma job_inv_master:
  assumes inv: "job_inv B (m, ws, fs)" and I: "mr_inv (m', map fst ws)"
    and S: "mr_serial (job_dir B) (length (job_inputs B)) (job_n B) (m', map fst ws)"
    and same: "TaskMeta m' = TaskMeta m" "TaskQueue m' = TaskQueue m" "MasterPhase m' = Map \<longleftrightarrow> MasterPhase m = Map"
  shows "job_inv B (m', ws, fs)"
proof (rule job_invI [OF I S job_invD(3,4) [OF inv]])
  have w: "worked m' ws k = worked m ws k" for k by (simp add: worked_def same(1))
  show "tInput t = job_inputs B ! nat (TaskNumber t)" if "MasterPhase m' = Map" "t \<in> set (TaskQueue m') \<union> set (map fst ws)" for t
    using job_invD(5) [OF inv] that unfolding same set_append by blast
  show "map_out B fs k" if "MasterPhase m' = Map" "worked m' ws k" for k using job_invD(6) [OF inv] that unfolding same w by blast
  show "\<forall>k \<in> {0..<int (length (job_inputs B))}. map_out B fs k" if "MasterPhase m' \<noteq> Map"
    using job_invD(7) [OF inv] that unfolding same by blast
  show "reduce_out B fs k" if "MasterPhase m' \<noteq> Map" "worked m' ws k" for k using job_invD(8) [OF inv] that unfolding same w by blast
qed

text \<open>The goroutine of the last map task: all files of the map phase are there.\<close>

lemma job_inv_reduce_start:
  assumes inv: "job_inv B (m, ws, fs)" and ph: "MasterPhase m = Map"
    and I: "mr_inv (reduce_start m1, map fst ws)"
    and S: "mr_serial (job_dir B) (length (job_inputs B)) (job_n B) (reduce_start m1, map fst ws)"
    and all: "TaskMeta m1 = TaskMeta m" "mr_inv (m1, map fst ws)" "allTaskDone m1"
  shows "job_inv B (reduce_start m1, ws, fs)"
proof (rule job_invI [OF I S job_invD(3,4) [OF inv]])
  have ws: "ws = []" using allTaskDone_empty [OF all(2,3)] by simp
  have comp: "status m k = Some s \<Longrightarrow> s = Completed" for k s
    using all(3) allTaskDone_iff [OF mr_invD(4) [OF all(2)]] unfolding all(1) by blast
  have dom: "dom (status m) = {0..<int (length (job_inputs B))}"
    using job_invD(2) [OF inv] ph by (simp add: mr_serial_def map_phase_ok_def)
  show "\<forall>k \<in> {0..<int (length (job_inputs B))}. map_out B fs k"
  proof
    fix k assume "k \<in> {0..<int (length (job_inputs B))}"
    then have "k \<in> dom (status m)" unfolding dom .
    then obtain s where "status m k = Some s" by blast
    with comp [OF this] have "worked m ws k" by (simp add: worked_def)
    then show "map_out B fs k" by (rule job_invD(6) [OF inv ph])
  qed
  show "reduce_out B fs k" if "worked (reduce_start m1) ws k" for k
    using that ws by (simp add: worked_def reduce_start_def status_entries split: if_splits)
qed simp_all

lemma job_inv_goroutine:
  assumes inv: "job_inv B (m, ws, fs)" and g: "g < length (Goroutines m)" and r: "run_goroutine g m = Ret m'"
  shows "job_inv B (m', ws, fs)"
proof -
  note I = job_invD(1) [OF inv] and S = job_invD(2) [OF inv]
  note I' = mr_inv_goroutine [OF I g r] and S' = mr_serial_goroutine [OF I S g r]
  have mem: "Goroutines m ! g \<in> set (Goroutines m)" using g by simp
  show ?thesis using I g
  proof (cases rule: run_goroutine_cases)
    case (collect ims m1)
    have ph: "MasterPhase m = Map"
      using S collect(1) mem by (auto simp: mr_serial_def reduce_phase_ok_def)
    have m1: "TaskMeta m1 = TaskMeta m" "TaskQueue m1 = TaskQueue m" "MasterPhase m1 = MasterPhase m" by (simp_all add: collect(3))
    show ?thesis
    proof (cases "allTaskDone m1")
      case True
      then have m': "m' = reduce_start m1" using collect(5) r by simp
      show ?thesis using job_inv_reduce_start [OF inv ph _ _ m1(1) collect(4) True] I' S' unfolding m' by blast
    next
      case False
      then have m': "m' = m1" using collect(5) r by simp
      show ?thesis using job_inv_master [OF inv I' S'] m1 unfolding m' by simp
    qed
  next
    case (reduce m1)
    have ph: "MasterPhase m \<noteq> Map" using S reduce(1) mem by (auto simp: mr_serial_def map_phase_ok_def)
    have "TaskMeta m' = TaskMeta m" "TaskQueue m' = TaskQueue m" "MasterPhase m' \<noteq> Map"
      using reduce(2,4) r ph by (auto split: if_splits)
    then show ?thesis using job_inv_master [OF inv I' S'] ph by simp
  next
    case (other m1)
    then show ?thesis using job_inv_master [OF inv I' S'] r by auto
  qed
qed

lemma job_inv_start:
  assumes ok: "job_ok B fs" and m: "MakeMaster (job_inputs B) (job_n B) = Ret m"
  shows "job_inv B (m, [], fs)"
proof (rule job_invI)
  have st: "TaskQueue m = map_tasks (job_inputs B) (job_n B)" "TaskMeta m = map idle_entry (map_tasks (job_inputs B) (job_n B))"
    "MasterPhase m = Map"
    using m MakeMaster_tasks [of "job_n B" "job_inputs B"] job_okD(4) [OF ok] by auto
  have none: "\<not> worked m [] k" for k unfolding worked_def st status_entries by simp
  show "mr_inv (m, map fst [])" using mr_inv_start [OF m] by simp
  show "mr_serial (job_dir B) (length (job_inputs B)) (job_n B) (m, map fst [])" using mr_serial_start [OF m] by simp
  show "\<forall>f \<in> set (job_inputs B). fs (abs_path (job_dir B) f) = Some (job_content B f)" using job_okD(5) [OF ok] by blast
  show "tInput t = job_inputs B ! nat (TaskNumber t)" if "t \<in> set (TaskQueue m) \<union> set (map fst [])" for t
    using that by (auto simp: st(1))
  show "map_out B fs k" if "worked m [] k" for k using that none by blast
  show "reduce_out B fs k" if "worked m [] k" for k using that none by blast
  show "\<forall>k \<in> {0..<int (length (job_inputs B))}. map_out B fs k" if "MasterPhase m \<noteq> Map" using that st(3) by blast
qed simp

lemma job_inv_step:
  assumes ok: "job_ok B fs0"
  shows "job_step B s s' \<Longrightarrow> job_inv B s \<Longrightarrow> job_inv B s'"
proof (induction rule: job_step.induct)
  case (assign now m m' t ws fs)
  then show ?case using job_inv_assign by blast
next
  case (work i ws t temps fs fs' t' m)
  show ?case by (rule job_inv_work [OF ok work.prems work.hyps])
next
  case (report t t' ws m m' fs)
  show ?case by (rule job_inv_report [OF report.prems report.hyps])
next
  case (goroutine g m m' ws fs)
  show ?case by (rule job_inv_goroutine [OF goroutine.prems goroutine.hyps])
qed

lemma job_reach_inv: "job_reach B fs0 s \<Longrightarrow> job_ok B fs0 \<Longrightarrow> job_inv B s"
  by (induction rule: job_reach.induct) (auto intro: job_inv_start job_inv_step)

section \<open>The job is done right\<close>

lemma exit_reduce_out:
  assumes inv: "job_inv B (m, ws, fs)" and d: "Done m" and r: "0 \<le> r" "r < job_n B"
  shows "reduce_out B fs r"
proof -
  have ph: "MasterPhase m = Exit" "MasterPhase m \<noteq> Map" using d by (simp_all add: Done_def)
  have S: "dom (status m) = {0..<job_n B}" "allTaskDone m"
    using job_invD(2) [OF inv] ph by (auto simp: mr_serial_def reduce_phase_ok_def)
  then have "r \<in> dom (status m)" using r by simp
  then obtain s where s: "status m r = Some s" by blast
  moreover have "s = Completed" using S(2) s allTaskDone_iff [OF mr_invD(4) [OF job_invD(1) [OF inv]]] by blast
  ultimately have "worked m ws r" by (simp add: worked_def)
  then show ?thesis by (rule job_invD(8) [OF inv ph(2)])
qed

lemma job_lines:
  assumes ok: "job_ok B fs0" and srt: "sort_ByKey_ok srt'" and inv: "job_inv B (m, ws, fs)" and d: "Done m"
  shows "(\<forall>r < nat (job_n B). fs (out_path (job_dir B) (int r)) =
      Some (lines_for (job_reduce B) (all_pairs B) {k \<in> kvKey ` set (all_pairs B). ihash k mod job_n B = int r}))
    \<and> mrsequential srt' (job_dir B) (job_map B) (job_reduce B) (job_inputs B) fs0 =
      Some (fs0(out_path (job_dir B) 0 \<mapsto> lines_for (job_reduce B) (all_pairs B) (kvKey ` set (all_pairs B))))"
proof
  show "\<forall>r < nat (job_n B). fs (out_path (job_dir B) (int r)) =
      Some (lines_for (job_reduce B) (all_pairs B) {k \<in> kvKey ` set (all_pairs B). ihash k mod job_n B = int r})"
    using exit_reduce_out [OF inv d] by (auto simp: reduce_out_def)
  have "\<forall>f \<in> set (job_inputs B). fs0 (abs_path (job_dir B) f) = Some (job_content B f)" using job_okD(5) [OF ok] by blast
  from mrsequential_lines [where kvs = "all_pairs B" and mapf = "job_map B", OF srt job_okD(3) [OF ok] this all_pairs_def]
  show "mrsequential srt' (job_dir B) (job_map B) (job_reduce B) (job_inputs B) fs0 =
      Some (fs0(out_path (job_dir B) 0 \<mapsto> lines_for (job_reduce B) (all_pairs B) (kvKey ` set (all_pairs B))))"
    by (simp add: out_path_0)
qed

text \<open>
  C32. The whole system computes what the sequential program computes, line by line. A master and any number of
  workers run a job, in any interleaving in which no task times out and results are processed one at
  a time. Once \<open>Done\<close> holds, the output file of every reduce task \<open>r\<close> is there and has, in the order of the keys,
  the line \<open>key output\<close> for exactly those keys whose hash is \<open>r\<close> modulo the number of reduce tasks, and \<open>mrsequential\<close>
  writes the same lines for all keys to its one file. The output is what the reduce function makes of
  all values of the key in all input files; it must not depend on their order.
\<close>

theorem mr_job_correct:
  assumes ok: "job_ok B fs0" and srt: "sort_ByKey_ok srt'" and reach: "job_reach B fs0 (m, ws, fs)" and d: "Done m"
  shows "(\<forall>r < nat (job_n B). fs (out_path (job_dir B) (int r)) =
      Some (lines_for (job_reduce B) (all_pairs B) {k \<in> kvKey ` set (all_pairs B). ihash k mod job_n B = int r}))
    \<and> mrsequential srt' (job_dir B) (job_map B) (job_reduce B) (job_inputs B) fs0 =
      Some (fs0(out_path (job_dir B) 0 \<mapsto> lines_for (job_reduce B) (all_pairs B) (kvKey ` set (all_pairs B))))"
  using job_lines [OF ok srt job_reach_inv [OF reach ok] d] .

section \<open>The job can always be finished\<close>

definition job_rank :: "mr_state \<Rightarrow> nat" where
  "job_rank s = (case s of (m, ws, fs) \<Rightarrow> 2 * rank (m, map fst ws) + length (filter (\<lambda>(t, x). x = None) ws))"

lemma filter_update_less:
  assumes "i < length xs" and "P (xs ! i)" and "\<not> P y"
  shows "length (filter P (xs[i := y])) < length (filter P xs)"
proof -
  have "filter P xs = filter P (take i xs) @ filter P (xs ! i # drop (Suc i) xs)"
    using id_take_nth_drop [OF assms(1)] by (metis filter_append)
  moreover have "filter P (xs[i := y]) = filter P (take i xs) @ filter P (y # drop (Suc i) xs)"
    using upd_conv_take_nth_drop [OF assms(1), of y] by simp
  ultimately show ?thesis using assms(2,3) by simp
qed

lemma job_work:
  assumes ok: "job_ok B fs0" and inv: "job_inv B (m, ws, fs)" and t: "(t, None) \<in> set ws" and temps: "temps_ok temps (job_paths B)"
  shows "\<exists>s'. job_step B (m, ws, fs) s' \<and> job_rank s' < job_rank (m, ws, fs)"
proof -
  obtain fs' where w: "Worker_turn (job_json B) (job_sort B) (job_dir B) temps (job_map B) (job_reduce B) t fs
      = Some (fs', Some (report (job_dir B) t), True)"
    by (rule Worker_files [OF ok inv t temps])
  obtain i where i: "i < length ws" "ws ! i = (t, None)" using t by (auto simp: in_set_conv_nth)
  let ?ws = "ws[i := (t, Some (report (job_dir B) t))]"
  have "map fst ?ws = map fst ws" using i by (simp add: map_update list_update_same_conv)
  moreover have "length (filter (\<lambda>(t, x). x = None) ?ws) < length (filter (\<lambda>(t, x). x = None) ws)"
    by (rule filter_update_less) (simp_all add: i)
  ultimately have "job_rank (m, ?ws, fs') < job_rank (m, ws, fs)" by (simp add: job_rank_def)
  with job_step.work [OF i temps w] show ?thesis by blast
qed

lemma job_progress:
  assumes ok: "job_ok B fs0" and inv: "job_inv B (m, ws, fs)" and temps: "temps_ok temps (job_paths B)"
    and "job_inputs B \<noteq> []" and "\<not> Done m"
  shows "\<exists>s'. job_step B (m, ws, fs) s' \<and> job_rank s' < job_rank (m, ws, fs)"
proof -
  obtain s1 where s1: "mr_step (job_dir B) True (m, map fst ws) s1" "rank s1 < rank (m, map fst ws)"
    using mr_progress [OF job_invD(1,2) [OF inv]] job_okD(4) [OF ok] assms(4,5) by auto
  from s1(1) show ?thesis
  proof (cases rule: mr_step.cases)
    case (assign now m' t)
    let ?s = "(m', if TaskState t = Map \<or> TaskState t = Reduce then (t, None) # ws else ws, fs)"
    have "job_rank ?s < job_rank (m, ws, fs)" using s1(2) unfolding assign(1) by (auto simp: job_rank_def)
    with job_step.assign [OF assign(2)] show ?thesis by blast
  next
    case (complete t m')
    then obtain x where x: "(t, x) \<in> set ws" by auto
    show ?thesis
    proof (cases x)
      case None
      then show ?thesis using job_work [OF ok inv _ temps] x by blast
    next
      case (Some t')
      with x job_invD(4) [OF inv] complete(4) have t: "(t, Some t') \<in> set ws" "TaskCompleted t' m = Ret m'" by auto
      have "Goroutines m = []" using complete(3) by simp
      moreover have "length (filter P (remove1 (t, Some t') ws)) \<le> length (filter P ws)" for P
        by (simp add: filter_remove1 length_remove1)
      then have "job_rank (m', remove1 (t, Some t') ws, fs) < job_rank (m, ws, fs)"
        using s1(2) complete(1) unfolding job_rank_def prod.case held_remove1 [OF inv t(1)] by (simp add: add_less_le_mono)
      ultimately show ?thesis using job_step.report [OF t(1) _ t(2)] by blast
    qed
  next
    case (goroutine g m')
    then have "job_rank (m', ws, fs) < job_rank (m, ws, fs)" using s1(2) by (simp add: job_rank_def)
    with job_step.goroutine [OF goroutine(2,3)] show ?thesis by blast
  qed
qed

lemma job_finishes:
  assumes ok: "job_ok B fs0" and temps: "temps_ok temps (job_paths B)" and ne: "job_inputs B \<noteq> []"
  shows "job_inv B s \<Longrightarrow> \<exists>s'. (job_step B)\<^sup>*\<^sup>* s s' \<and> Done (fst s')"
proof (induction s rule: measure_induct_rule [of job_rank])
  case (less s)
  obtain m ws fs where s: "s = (m, ws, fs)" by (cases s)
  show ?case
  proof (cases "Done m")
    case False
    then obtain s1 where s1: "job_step B s s1" "job_rank s1 < job_rank s"
      using job_progress [OF ok _ temps ne] less.prems unfolding s by blast
    then obtain s' where "(job_step B)\<^sup>*\<^sup>* s1 s'" "Done (fst s')"
      using less.IH [OF s1(2) job_inv_step [OF ok s1(1) less.prems]] by blast
    with s1(1) show ?thesis by (meson converse_rtranclp_into_rtranclp)
  qed (use s in auto)
qed

text \<open>
  C33. The whole job can always be finished. From every state of a job with at least one input file
  that is reached without timeouts and with results processed one at a time, there are further steps
  of the master and its workers after which \<open>Done\<close> holds: no task is lost, and no worker fails on the
  files it reads and writes, as long as temporary files can be created.
\<close>

theorem mr_job_finishes:
  assumes "job_ok B fs0" and "temps_ok temps (job_paths B)" and "job_inputs B \<noteq> []" and "job_reach B fs0 s"
  shows "\<exists>s'. (job_step B)\<^sup>*\<^sup>* s s' \<and> Done (fst s')"
  using job_finishes [OF assms(1-3) job_reach_inv [OF assms(4,1)]] .

section \<open>Witnesses\<close>

definition w_job :: job where
  "w_job = \<lparr>job_json = esc_json, job_sort = sort_key kvKey, job_dir = ''/d'', job_map = letters, job_reduce = count_vals,
     job_inputs = [''in''], job_n = 1, job_content = (\<lambda>f. ''abca'')\<rparr>"

definition w_files :: files where
  "w_files = [''/d/in'' \<mapsto> ''abca'']"

lemma w_job_ok: "job_ok w_job w_files"
  by (simp add: job_ok_def w_job_def w_files_def esc_json_ok sort_key_ok count_vals_order_free not_task_file in_path esc_json_valid)

lemma w_job_inputs: "job_inputs w_job \<noteq> []"
  by (simp add: w_job_def)

lemma w_temps_ok: "temps_ok (\<lambda>i. Some ''/tmp/t'') (job_paths w_job)"
  by (simp add: temps_ok_def job_paths_def w_job_def not_task_file in_path)

lemma job_reach_steps: "(job_step B)\<^sup>*\<^sup>* s s' \<Longrightarrow> job_reach B fs0 s \<Longrightarrow> job_reach B fs0 s'"
  by (induction rule: rtranclp_induct) (auto intro: job_reach.step)

definition w_master :: Master where
  "w_master = (case MakeMaster [''in''] 1 of Ret m \<Rightarrow> m)"

lemma w_job_start: "job_reach w_job w_files (w_master, [], w_files)"
  by (rule job_reach.start) (simp add: w_job_def w_master_def MakeMaster_tasks)

theorem mr_job_finishes_witness: "\<exists>s'. (job_step w_job)\<^sup>*\<^sup>* (w_master, [], w_files) s' \<and> Done (fst s')"
  by (rule mr_job_finishes [OF w_job_ok w_temps_ok w_job_inputs w_job_start])

lemma w_keys: "kvKey ` set (all_pairs w_job) = {''a'', ''b'', ''c''}" and w_pairs: "all_pairs w_job = letters ''in'' ''abca''"
  by (auto simp: all_pairs_def w_job_def letters_def)

lemma w_lines:
  "lines_for count_vals (letters ''in'' ''abca'') {''a'', ''b'', ''c''} =
     ''a 2'' @ [CHR 0x0A] @ ''b 1'' @ [CHR 0x0A] @ ''c 1'' @ [CHR 0x0A]"
  by code_simp

theorem mr_job_correct_witness:
  "\<exists>m ws fs. job_reach w_job w_files (m, ws, fs) \<and> Done m
    \<and> fs (out_path ''/d'' 0) = Some (''a 2'' @ [CHR 0x0A] @ ''b 1'' @ [CHR 0x0A] @ ''c 1'' @ [CHR 0x0A])"
proof -
  obtain m ws fs where s: "(job_step w_job)\<^sup>*\<^sup>* (w_master, [], w_files) (m, ws, fs)" "Done m"
    using job_finishes [OF w_job_ok w_temps_ok w_job_inputs job_reach_inv [OF w_job_start w_job_ok]] by auto
  note reach = job_reach_steps [OF s(1) w_job_start]
  have B: "job_n w_job = 1" "job_dir w_job = ''/d''" "job_reduce w_job = count_vals" by (simp_all add: w_job_def)
  have "{k \<in> kvKey ` set (all_pairs w_job). ihash k mod 1 = 0} = {''a'', ''b'', ''c''}" unfolding w_keys by auto
  with mr_job_correct [OF w_job_ok sort_key_ok reach s(2)]
  have "fs (out_path ''/d'' 0) = Some (lines_for count_vals (letters ''in'' ''abca'') {''a'', ''b'', ''c''})"
    by (simp add: B w_pairs)
  with w_lines reach s(2) show ?thesis by auto
qed

end
