(* ===== verification/MainPrograms.thy ===== *)
theory MainPrograms
  imports MRSystem
begin

text \<open>
  The programs under \<open>src/src/main\<close>: what they make of their arguments. \<open>args\<close> is \<open>os.Args\<close>, with the name
  of the program first. The packages \<open>lockservice\<close>, \<open>pbservice\<close>, \<open>viewservice\<close> and \<open>diskv\<close> are not part of the
  repository: what a program asks of them is its result, or their functions are arguments. \<open>plugin.Open\<close>
  is an argument too.
\<close>

text \<open>A program prints its usage and exits, ends with \<open>log.Fatal\<close>, panics, or gets to work.\<close>

datatype 'a program = Usage | LogFatal | Panics | Runs 'a

fun run_program :: "'a program \<Rightarrow> ('a \<Rightarrow> 'b program) \<Rightarrow> 'b program" where
  "run_program (Runs x) f = f x"
| "run_program Usage f = Usage"
| "run_program LogFatal f = LogFatal"
| "run_program Panics f = Panics"

section \<open>Numbers of the command line\<close>

text \<open>
  \<open>strconv.ParseUint(s, 10, 64)\<close>: digits are read from the left, and the first that is no digit or
  exceeds 64 bits ends the loop. \<open>ParseInt\<close> is its result when the error is ignored: 0 after a
  syntax error, the nearest value after a range error. \<open>Atoi\<close> agrees with it where \<open>int\<close> has 64 bits.
\<close>

datatype parse_result = SyntaxError | RangeError | Number nat

definition is_digit :: "char \<Rightarrow> bool" where
  "is_digit c \<longleftrightarrow> 48 \<le> (of_char c :: nat) \<and> (of_char c :: nat) < 58"

fun ParseUint_loop :: "nat \<Rightarrow> string \<Rightarrow> parse_result" where
  "ParseUint_loop n [] = Number n"
| "ParseUint_loop n (c # s) =
     (if \<not> is_digit c then SyntaxError
      else let n1 = 10 * n + (of_char c - 48) in if 2 ^ 64 - 1 < n1 then RangeError else ParseUint_loop n1 s)"

definition ParseUint :: "string \<Rightarrow> parse_result" where
  "ParseUint s = (if s = [] then SyntaxError else ParseUint_loop 0 s)"

definition ParseInt :: "string \<Rightarrow> int" where
  "ParseInt s =
     (let neg = (s \<noteq> [] \<and> hd s = CHR ''-'');
          s' = (if s \<noteq> [] \<and> (hd s = CHR ''+'' \<or> hd s = CHR ''-'') then tl s else s)
      in case ParseUint s' of
        SyntaxError \<Rightarrow> 0
      | RangeError \<Rightarrow> if neg then - (2 ^ 63) else 2 ^ 63 - 1
      | Number un \<Rightarrow>
          if \<not> neg \<and> 2 ^ 63 \<le> un then 2 ^ 63 - 1 else if neg \<and> 2 ^ 63 < un then - (2 ^ 63)
          else if neg then - int un else int un)"

definition ParseBool :: "string \<Rightarrow> bool" where
  "ParseBool s \<longleftrightarrow> s \<in> {''1'', ''t'', ''T'', ''true'', ''TRUE'', ''True''}"

section \<open>MapReduce\<close>

datatype plugin_symbol =
    MapFun "string \<Rightarrow> string \<Rightarrow> KeyValue list"
  | ReduceFun "string \<Rightarrow> string list \<Rightarrow> string"
  | OtherSymbol

definition loadPlugin ::
  "(string \<Rightarrow> (string \<Rightarrow> plugin_symbol option) option) \<Rightarrow> string
     \<Rightarrow> ((string \<Rightarrow> string \<Rightarrow> KeyValue list) \<times> (string \<Rightarrow> string list \<Rightarrow> string)) program" where
  "loadPlugin Open filename = (case Open filename of
     None \<Rightarrow> LogFatal
   | Some Lookup \<Rightarrow> (case Lookup ''Map'' of
       None \<Rightarrow> LogFatal
     | Some (MapFun mapf) \<Rightarrow> (case Lookup ''Reduce'' of
         None \<Rightarrow> LogFatal
       | Some (ReduceFun reducef) \<Rightarrow> Runs (mapf, reducef)
       | Some _ \<Rightarrow> Panics)
     | Some _ \<Rightarrow> Panics))"

text \<open>The functions with which \<open>mrworker\<close> calls \<open>Worker\<close>.\<close>

definition mrworker_main where
  "mrworker_main Open args = (if length args \<noteq> 2 then Usage else loadPlugin Open (args ! 1))"

definition mrsequential_main ::
  "(string \<Rightarrow> (string \<Rightarrow> plugin_symbol option) option) \<Rightarrow> (KeyValue list \<Rightarrow> KeyValue list) \<Rightarrow> string \<Rightarrow> string list \<Rightarrow> files
     \<Rightarrow> files program" where
  "mrsequential_main Open srt dir args fs =
     (if length args < 3 then Usage
      else run_program (loadPlugin Open (args ! 1)) (\<lambda>(mapf, reducef).
        case mrsequential srt dir mapf reducef (drop 2 args) fs of None \<Rightarrow> LogFatal | Some fs' \<Rightarrow> Runs fs'))"

text \<open>\<open>mrcoordinator\<close> starts the master for 10 reduce tasks and asks once a second whether it is done.\<close>

definition mrcoordinator_main :: "string list \<Rightarrow> Master outcome program" where
  "mrcoordinator_main args = (if length args < 2 then Usage else Runs (MakeMaster (drop 1 args) 10))"

partial_function (option) mrcoordinator_wait :: "(nat \<Rightarrow> Master) \<Rightarrow> nat \<Rightarrow> nat option" where
  [code]: "mrcoordinator_wait m t = (if Done (m t) then Some t else mrcoordinator_wait m (t + 1))"

section \<open>Lock service, primary/backup service\<close>

definition lockd_main :: "string list \<Rightarrow> (string \<times> string \<times> bool) program" where
  "lockd_main args =
     (if length args = 4 \<and> args ! 1 = ''-p'' then Runs (args ! 2, args ! 3, True)
      else if length args = 4 \<and> args ! 1 = ''-b'' then Runs (args ! 2, args ! 3, False)
      else Usage)"

definition lockc_main ::
  "(string \<Rightarrow> string \<Rightarrow> string \<Rightarrow> bool) \<Rightarrow> (string \<Rightarrow> string \<Rightarrow> string \<Rightarrow> bool) \<Rightarrow> string list \<Rightarrow> string program" where
  "lockc_main lock unlock args =
     (let print = (\<lambda>ok. Runs (''reply: '' @ (if ok then ''true'' else ''false'') @ newline))
      in if length args = 5 then
           if args ! 1 = ''-l'' then print (lock (args ! 2) (args ! 3) (args ! 4))
           else if args ! 1 = ''-u'' then print (unlock (args ! 2) (args ! 3) (args ! 4))
           else Usage
         else Usage)"

definition viewd_main :: "string list \<Rightarrow> string program" where
  "viewd_main args = (if length args \<noteq> 2 then Usage else Runs (args ! 1))"

definition pbd_main :: "string list \<Rightarrow> (string \<times> string) program" where
  "pbd_main args = (if length args \<noteq> 3 then Usage else Runs (args ! 1, args ! 2))"

text \<open>The state of the service is threaded through; \<open>pbc\<close> makes its clerk with an empty name.\<close>

definition pbc_main ::
  "(string \<Rightarrow> string \<Rightarrow> string \<Rightarrow> 's \<Rightarrow> string) \<Rightarrow> (string \<Rightarrow> string \<Rightarrow> string \<Rightarrow> string \<Rightarrow> 's \<Rightarrow> 's) \<Rightarrow> string list \<Rightarrow> 's
     \<Rightarrow> (string \<times> 's) program" where
  "pbc_main get put args s =
     (if length args = 3 then Runs (get (args ! 1) '''' (args ! 2) s @ newline, s)
      else if length args = 4 then Runs ('''', put (args ! 1) '''' (args ! 2) (args ! 3) s)
      else Usage)"

section \<open>diskvd\<close>

record diskv_args =
  d_gid :: int
  d_masters :: "string list"
  d_replicas :: "string list"
  d_me :: int
  d_unreliable :: bool
  d_dir :: string
  d_restart :: bool

fun diskvd_loop :: "string list \<Rightarrow> diskv_args \<Rightarrow> diskv_args option" where
  "diskvd_loop (a0 # a1 # rest) d =
     (if a0 = ''-g'' then diskvd_loop rest (d\<lparr>d_gid := ParseInt a1\<rparr>)
      else if a0 = ''-m'' then diskvd_loop rest (d\<lparr>d_masters := d_masters d @ [a1]\<rparr>)
      else if a0 = ''-s'' then diskvd_loop rest (d\<lparr>d_replicas := d_replicas d @ [a1]\<rparr>)
      else if a0 = ''-i'' then diskvd_loop rest (d\<lparr>d_me := ParseInt a1\<rparr>)
      else if a0 = ''-u'' then diskvd_loop rest (d\<lparr>d_unreliable := ParseBool a1\<rparr>)
      else if a0 = ''-d'' then diskvd_loop rest (d\<lparr>d_dir := a1\<rparr>)
      else if a0 = ''-r'' then diskvd_loop rest (d\<lparr>d_restart := ParseBool a1\<rparr>)
      else None)"
| "diskvd_loop args d = Some d"

definition diskvd_main :: "string list \<Rightarrow> diskv_args program" where
  "diskvd_main args =
     (case diskvd_loop (drop 1 args) \<lparr>d_gid = -1, d_masters = [], d_replicas = [], d_me = -1, d_unreliable = False,
         d_dir = '''', d_restart = False\<rparr> of
       None \<Rightarrow> Usage
     | Some d \<Rightarrow>
         if d_gid d < 0 \<or> d_me d < 0 \<or> length (d_masters d) < 1 \<or> int (length (d_replicas d)) \<le> d_me d \<or> d_dir d = ''''
         then Usage else Runs d)"

section \<open>Properties\<close>

text \<open>Reading a number that was printed.\<close>

lemma is_digit_digit: "d < 10 \<Longrightarrow> is_digit (digit d)"
  by (simp add: is_digit_def of_char_digit)

lemma foldl_digits_mono: "n \<le> foldl (\<lambda>n c. 10 * n + (of_char c - 48)) n s"
  for n :: nat
proof (induction s arbitrary: n)
  case (Cons c s)
  have "n \<le> 10 * n + (of_char c - 48)" by simp
  also have "\<dots> \<le> foldl (\<lambda>n c. 10 * n + (of_char c - 48)) (10 * n + (of_char c - 48)) s" by (rule Cons.IH)
  finally show ?case by simp
qed simp

lemma ParseUint_loop_digits:
  "list_all is_digit s \<Longrightarrow> foldl (\<lambda>n c. 10 * n + (of_char c - 48)) n s < 2 ^ 64 \<Longrightarrow>
     ParseUint_loop n s = Number (foldl (\<lambda>n c. 10 * n + (of_char c - 48)) n s)"
proof (induction n s rule: ParseUint_loop.induct)
  case (2 n c s)
  let ?n = "10 * n + (of_char c - 48)"
  have "?n < 2 ^ 64" using foldl_digits_mono [of ?n s] 2(3) by simp
  then show ?case using 2 by (simp add: Let_def not_less)
qed simp

lemma ParseUint_digits: "n < 2 ^ 64 \<Longrightarrow> ParseUint (digits n) = Number n"
proof -
  assume n: "n < 2 ^ 64"
  have "list_all is_digit (digits n)" using digits_range [of _ n] by (auto simp: list_all_iff is_digit_def)
  moreover have "foldl (\<lambda>n c. 10 * n + (of_char c - 48)) 0 (digits n) = n" using undigits_digits [of n] by (simp add: undigits_def)
  ultimately show ?thesis using ParseUint_loop_digits [of "digits n" 0] n by (simp add: ParseUint_def)
qed

lemma ParseInt_itoa:
  assumes "- (2 ^ 63) \<le> i" and "i < 2 ^ 63"
  shows "ParseInt (itoa i) = i"
proof (cases "i < 0")
  case True
  then have "nat (- i) \<le> 2 ^ 63" using assms(1) by simp
  moreover from this have "ParseUint (digits (nat (- i))) = Number (nat (- i))" by (intro ParseUint_digits) simp
  ultimately show ?thesis using True by (simp add: ParseInt_def itoa_def Let_def)
next
  case False
  then have n: "nat i < 2 ^ 63" using assms(2) by simp
  then have "ParseUint (digits (nat i)) = Number (nat i)" by (intro ParseUint_digits) simp
  moreover have "hd (digits (nat i)) \<noteq> CHR ''-''" "hd (digits (nat i)) \<noteq> CHR ''+''"
    using digits_range [of "hd (digits (nat i))" "nat i"] by auto
  ultimately show ?thesis using False n by (simp add: ParseInt_def itoa_def Let_def)
qed

text \<open>
  MapReduce from the command line: the coordinator, workers that load the same plugin, and the
  sequential program on the same files.
\<close>

lemma commands_agree:
  assumes B: "job_inputs B = files" "job_n B = 10" "files \<noteq> []" and ok: "job_ok B fs0" and srt: "sort_ByKey_ok srt'"
    and worker: "mrworker_main Open [prog, so] = Runs (job_map B, job_reduce B)"
    and master: "mrcoordinator_main (prog # files) = Runs (Ret m0)"
    and steps: "(job_step B)\<^sup>*\<^sup>* (m0, [], fs0) (m, ws, fs)" and d: "Done m"
  shows "(\<forall>r < 10. fs (out_path (job_dir B) (int r)) =
      Some (lines_for (job_reduce B) (all_pairs B) {k \<in> kvKey ` set (all_pairs B). ihash k mod 10 = int r}))
    \<and> mrsequential_main Open srt' (job_dir B) (prog # so # files) fs0 =
      Runs (fs0(out_path (job_dir B) 0 \<mapsto> lines_for (job_reduce B) (all_pairs B) (kvKey ` set (all_pairs B))))"
proof -
  have "job_reach B fs0 (m0, [], fs0)"
    by (rule job_reach.start) (use master B in \<open>simp add: mrcoordinator_main_def split: if_splits\<close>)
  note inv = job_reach_inv [OF job_reach_steps [OF steps this] ok]
  note lines = job_lines [OF ok srt inv d, unfolded B]
  have "loadPlugin Open so = Runs (job_map B, job_reduce B)" using worker by (simp add: mrworker_main_def)
  then show ?thesis
    using lines B(3) by (cases files) (simp_all add: mrsequential_main_def)
qed

text \<open>With at least one file the coordinator always starts; it returns when some poll finds the master done.\<close>

lemma mrcoordinator_starts: "2 \<le> length args \<Longrightarrow> \<exists>m. mrcoordinator_main args = Runs (Ret m) \<and> \<not> Done m"
  by (simp add: mrcoordinator_main_def MakeMaster_tasks Done_def)

lemma mrcoordinator_wait_returns:
  "Done (m (t + k)) \<Longrightarrow> \<exists>u. mrcoordinator_wait m t = Some u \<and> Done (m u) \<and> t \<le> u \<and> u \<le> t + k"
proof (induction k arbitrary: t)
  case 0
  then show ?case by (subst mrcoordinator_wait.simps) simp
next
  case (Suc k)
  show ?case
  proof (cases "Done (m t)")
    case True
    then show ?thesis by (subst mrcoordinator_wait.simps) simp
  next
    case False
    have "Done (m (t + 1 + k))" using Suc.prems by simp
    from Suc.IH [OF this] False show ?thesis by (subst mrcoordinator_wait.simps) auto
  qed
qed

text \<open>\<open>diskvd\<close> only starts a server whose index is one of the replicas.\<close>

lemma diskvd_sound:
  assumes "diskvd_main args = Runs d"
  shows "0 \<le> d_gid d \<and> 0 \<le> d_me d \<and> d_me d < int (length (d_replicas d)) \<and> d_masters d \<noteq> [] \<and> d_dir d \<noteq> []"
  using assms by (auto simp: diskvd_main_def not_less split: option.splits if_splits)

text \<open>The arguments that a test would pass for a configuration, and that they are read back.\<close>

definition flag_list :: "string \<Rightarrow> string list \<Rightarrow> string list" where
  "flag_list f xs = concat (map (\<lambda>x. [f, x]) xs)"

definition diskvd_argv :: "diskv_args \<Rightarrow> string list" where
  "diskvd_argv d = [''diskvd'', ''-g'', itoa (d_gid d)] @ flag_list ''-m'' (d_masters d) @ flag_list ''-s'' (d_replicas d)
     @ [''-i'', itoa (d_me d), ''-u'', if d_unreliable d then ''true'' else ''false'', ''-d'', d_dir d,
        ''-r'', if d_restart d then ''true'' else ''false'']"

lemma diskvd_loop_masters:
  "diskvd_loop (flag_list ''-m'' xs @ rest) d = diskvd_loop rest (d\<lparr>d_masters := d_masters d @ xs\<rparr>)"
  by (induction xs arbitrary: d) (simp_all add: flag_list_def)

lemma diskvd_loop_replicas:
  "diskvd_loop (flag_list ''-s'' xs @ rest) d = diskvd_loop rest (d\<lparr>d_replicas := d_replicas d @ xs\<rparr>)"
  by (induction xs arbitrary: d) (simp_all add: flag_list_def)

lemma diskvd_roundtrip:
  assumes "0 \<le> d_gid d" "d_gid d < 2 ^ 63" "0 \<le> d_me d" "d_me d < 2 ^ 63" "d_me d < int (length (d_replicas d))"
    and "d_masters d \<noteq> []" "d_dir d \<noteq> []"
  shows "diskvd_main (diskvd_argv d) = Runs d"
proof -
  have nums: "ParseInt (itoa (d_gid d)) = d_gid d" "ParseInt (itoa (d_me d)) = d_me d"
    using assms(1-4) by (intro ParseInt_itoa; simp)+
  have bools: "ParseBool (if b then ''true'' else ''false'') = b" for b by (simp add: ParseBool_def)
  show ?thesis using assms nums
    by (cases d) (simp add: diskvd_main_def diskvd_argv_def diskvd_loop_masters diskvd_loop_replicas bools Suc_le_eq)
qed

text \<open>Errors of the parser are ignored: a group and an index that are no numbers are read as 0.\<close>

lemma diskvd_malformed:
  "diskvd_main [''diskvd'', ''-g'', ''one'', ''-m'', ''a'', ''-s'', ''b'', ''-i'', ''x'', ''-d'', ''dir'']
     = Runs \<lparr>d_gid = 0, d_masters = [''a''], d_replicas = [''b''], d_me = 0, d_unreliable = False, d_dir = ''dir'', d_restart = False\<rparr>"
  by code_simp

end
