(* ===== verification/KvClient.thy ===== *)
theory KvClient
  imports CheckerApi
begin

text \<open>
  The client of the key-value service, \<open>src/src/kvraft/client.go\<close>. It is the skeleton of the lab: no call
  sends an RPC, so the arguments and replies of \<open>common.go\<close> are not used. The checker tells it apart from
  a client of a key-value store.
\<close>

record 'e KvClerk =
  clerk_servers :: "'e list"
  OldLeader :: int

definition kvraft_MakeClerk :: "'e list \<Rightarrow> 'e KvClerk" where
  "kvraft_MakeClerk servers = \<lparr>clerk_servers = servers, OldLeader = 0\<rparr>"

definition kvraft_Get :: "'e KvClerk \<Rightarrow> string \<Rightarrow> 'e KvClerk \<times> string" where
  "kvraft_Get ck key = (ck, [])"

definition kvraft_PutAppend :: "'e KvClerk \<Rightarrow> string \<Rightarrow> string \<Rightarrow> string \<Rightarrow> 'e KvClerk" where
  "kvraft_PutAppend ck key val oper = ck"

definition kvraft_Put :: "'e KvClerk \<Rightarrow> string \<Rightarrow> string \<Rightarrow> 'e KvClerk" where
  "kvraft_Put ck key val = kvraft_PutAppend ck key val ''Put''"

definition kvraft_Append :: "'e KvClerk \<Rightarrow> string \<Rightarrow> string \<Rightarrow> 'e KvClerk" where
  "kvraft_Append ck key val = kvraft_PutAppend ck key val ''Append''"

text \<open>
  The history of a client that puts a value and then gets it, one after the other, as a test records
  it. It is not linearizable, and \<open>CheckOperations\<close> says so.
\<close>

definition put_get_history :: "'e KvClerk \<Rightarrow> string \<Rightarrow> string \<Rightarrow> kv_op list" where
  "put_get_history ck key val = [kv_put key val 0 10, kv_get key (snd (kvraft_Get (kvraft_Put ck key val) key)) 20 30]"

lemma two_ints: "distinct ks \<Longrightarrow> set ks = {0 :: int, 1} \<Longrightarrow> ks = [0, 1] \<or> ks = [1, 0]"
proof -
  assume d: "distinct ks" and s: "set ks = {0 :: int, 1}"
  then have "length ks = 2" using distinct_card [OF d] by simp
  then obtain a b where "ks = [a, b]" by (auto simp: numeral_2_eq_2 length_Suc_conv)
  then show ?thesis using d s by auto
qed

lemma put_get_not_linearizable:
  assumes "val \<noteq> []"
  shows "\<not> op_linearizable KvModel (put_get_history ck key val)"
proof
  assume "op_linearizable KvModel (put_get_history ck key val)"
  then obtain ks where ks: "distinct ks" "set ks = {0..<2}"
    "sorted_wrt (\<lambda>a b. \<not> Return (put_get_history ck key val ! nat b) < Call (put_get_history ck key val ! nat a)) ks"
    "legal (\<lambda>s k. KvStep s (Input (put_get_history ck key val ! nat k)) (Output (put_get_history ck key val ! nat k))) [] ks"
    by (auto simp: op_linearizable_def linearization_def put_get_history_def KvModel_def)
  have "{0..<2} = {0 :: int, 1}" by auto
  with two_ints [OF ks(1)] ks(2) have "ks = [0, 1] \<or> ks = [1, 0]" by simp
  then show False
    using ks(3,4) assms by (auto simp: put_get_history_def kv_put_def kv_get_def KvStep_def kvraft_Get_def)
qed

lemma kvraft_not_linearizable:
  assumes "sort_ok f" and "val \<noteq> []"
  shows "CheckOperations dop dst f iter [Result 0] seen KvModel (put_get_history ck key val) = Some False"
proof -
  let ?h = "put_get_history ck key val"
  have parts: "parts KvModel ?h = [?h]"
    by (simp add: parts_KvModel put_get_history_def kv_put_def kv_get_def)
  have "CheckOperations dop dst f iter [Result 0] seen KvModel ?h =
    (if \<exists>i \<in> arrived [Result 0]. \<not> op_linearizable KvModel (parts KvModel ?h ! i) then Some False
     else if parts KvModel ?h \<noteq> [] \<and> arrived [Result 0] = {..<length (parts KvModel ?h)} then Some True else None)"
  proof (rule CheckOperations_parts [OF assms(1)])
    show "Equal KvModel = None \<or> equal_ok KvModel" by (simp add: KvModel_def)
    show "\<forall>p \<in> set (parts KvModel ?h). \<forall>v \<in> set p. Call v \<le> Return v"
      unfolding parts by (simp add: put_get_history_def kv_put_def kv_get_def)
    show "arrivals_ok (length (parts KvModel ?h)) [Result 0]" by (simp add: parts arrivals_ok_def arrived_def)
  qed
  then show ?thesis using put_get_not_linearizable [OF assms(2)] by (auto simp: parts arrived_def)
qed

end
