(* ===== verification/LabRpc.thy ===== *)
theory LabRpc
  imports GoText
begin

text \<open>
  The simulated network, \<open>src/src/labrpc/labrpc.go\<close>.

  A \<open>*Server\<close> is an address in a heap, because \<open>isServerDead\<close> compares pointers: a server that is
  deleted and started again under the same name is a different one. The entry of a missing key and a nil
  entry read alike, so both are \<open>None\<close>. Random numbers are arguments. The methods of a service are found
  by reflection and work on encoded arguments: a handler maps the encoded arguments and the state \<open>'s\<close> of
  the receivers to a new state and the encoded reply. \<open>log.Fatal\<close> and panics are \<open>None\<close>.

  \<open>processReq\<close> runs concurrently with the handler goroutine it starts and with the operations on the
  network, so one request is a \<open>flight\<close> that moves in steps: every step is the code between two points
  where other goroutines can intervene.
\<close>

section \<open>Services\<close>

datatype kind = Ptr | OtherKind

type_synonym 's handler = "bytes \<Rightarrow> 's \<Rightarrow> 's \<times> bytes"

text \<open>What \<open>reflect\<close> says of a method; \<open>InKinds\<close> are the kinds of its \<open>NumIn\<close> parameters, the receiver first.\<close>

record 's Method =
  methName :: string
  PkgPath :: string
  InKinds :: "kind list"
  NumOut :: int
  methFunc :: "'s handler"

record 's Service =
  svcName :: string
  methods :: "(string \<times> 's handler) list"

fun svc_put :: "string \<Rightarrow> 'a \<Rightarrow> (string \<times> 'a) list \<Rightarrow> (string \<times> 'a) list" where
  "svc_put k v [] = [(k, v)]"
| "svc_put k v ((k', v') # xs) = (if k = k' then (k, v) # xs else (k', v') # svc_put k v xs)"

fun MakeService_loop :: "'s Method list \<Rightarrow> 's Service \<Rightarrow> 's Service option" where
  "MakeService_loop [] svc = Some svc"
| "MakeService_loop (m # ms) svc =
     (if PkgPath m \<noteq> [] \<or> length (InKinds m) \<noteq> 3 then MakeService_loop ms svc
      else case idx (InKinds m) 2 of
        None \<Rightarrow> None
      | Some k \<Rightarrow>
          if k \<noteq> Ptr \<or> NumOut m \<noteq> 0 then MakeService_loop ms svc
          else MakeService_loop ms (svc\<lparr>methods := svc_put (methName m) (methFunc m) (methods svc)\<rparr>))"

definition MakeService :: "string \<Rightarrow> 's Method list \<Rightarrow> 's Service option" where
  "MakeService typeName ms = MakeService_loop ms \<lparr>svcName = typeName, methods = []\<rparr>"

record reqMsg =
  req_endname :: string
  req_svcMeth :: string
  req_args :: bytes

record replyMsg =
  rep_ok :: bool
  rep_reply :: bytes

abbreviation no_reply :: replyMsg where
  "no_reply \<equiv> \<lparr>rep_ok = False, rep_reply = []\<rparr>"

definition Service_dispatch :: "'s Service \<Rightarrow> string \<Rightarrow> reqMsg \<Rightarrow> 's \<Rightarrow> ('s \<times> replyMsg) option" where
  "Service_dispatch svc methname req s = (case map_of (methods svc) methname of
     None \<Rightarrow> None
   | Some f \<Rightarrow> let (s, rb) = f (req_args req) s in Some (s, \<lparr>rep_ok = True, rep_reply = rb\<rparr>))"

section \<open>Servers\<close>

record 's Server =
  services :: "(string \<times> 's Service) list"
  srv_count :: int

definition MakeServer :: "'s Server" where
  "MakeServer = \<lparr>services = [], srv_count = 0\<rparr>"

definition AddService :: "'s Service \<Rightarrow> 's Server \<Rightarrow> 's Server" where
  "AddService svc rs = rs\<lparr>services := svc_put (svcName svc) svc (services rs)\<rparr>"

text \<open>\<open>strings.LastIndex(s, ".")\<close>.\<close>

fun lastDot :: "string \<Rightarrow> int" where
  "lastDot [] = -1"
| "lastDot (c # s) = (if lastDot s \<ge> 0 then lastDot s + 1 else if c = CHR ''.'' then 0 else -1)"

definition Server_dispatch :: "reqMsg \<Rightarrow> 's Server \<Rightarrow> 's \<Rightarrow> ('s Server \<times> 's \<times> replyMsg) option" where
  "Server_dispatch req rs s = do {
     let rs = rs\<lparr>srv_count := srv_count rs + 1\<rparr>;
     let dot = lastDot (req_svcMeth req);
     serviceName \<leftarrow> slice_to (req_svcMeth req) dot;
     methodName \<leftarrow> slice_from (req_svcMeth req) (dot + 1);
     service \<leftarrow> map_of (services rs) serviceName;
     (s, r) \<leftarrow> Service_dispatch service methodName req s;
     Some (rs, s, r)
   }"

definition Server_GetCount :: "'s Server \<Rightarrow> int" where
  "Server_GetCount rs = srv_count rs"

section \<open>The network\<close>

text \<open>The \<open>interface{}\<close> values that name servers: integers in some testers, strings in others.\<close>

datatype name = IntName int | StrName string

record Network =
  reliable :: bool
  longDelays :: bool
  longReordering :: bool
  ends :: "string list"
  enabled :: "string \<Rightarrow> bool"
  servers :: "name \<Rightarrow> nat option"
  connections :: "string \<Rightarrow> name option"
  net_done :: bool
  net_count :: "32 word"
  net_bytes :: "64 word"

definition MakeNetwork :: Network where
  "MakeNetwork = \<lparr>reliable = True, longDelays = False, longReordering = False, ends = [],
     enabled = (\<lambda>e. False), servers = (\<lambda>s. None), connections = (\<lambda>e. None), net_done = False,
     net_count = 0, net_bytes = 0\<rparr>"

definition Cleanup :: "Network \<Rightarrow> Network option" where
  "Cleanup rn = (if net_done rn then None else Some (rn\<lparr>net_done := True\<rparr>))"

definition Reliable :: "bool \<Rightarrow> Network \<Rightarrow> Network" where
  "Reliable yes rn = rn\<lparr>reliable := yes\<rparr>"

definition LongReordering :: "bool \<Rightarrow> Network \<Rightarrow> Network" where
  "LongReordering yes rn = rn\<lparr>longReordering := yes\<rparr>"

definition LongDelays :: "bool \<Rightarrow> Network \<Rightarrow> Network" where
  "LongDelays yes rn = rn\<lparr>longDelays := yes\<rparr>"

definition MakeEnd :: "string \<Rightarrow> Network \<Rightarrow> Network option" where
  "MakeEnd endname rn =
     (if endname \<in> set (ends rn) then None
      else Some (rn\<lparr>ends := ends rn @ [endname], enabled := (enabled rn)(endname := False),
        connections := (connections rn)(endname := None)\<rparr>))"

definition AddServer :: "name \<Rightarrow> nat \<Rightarrow> Network \<Rightarrow> Network" where
  "AddServer servername rs rn = rn\<lparr>servers := (servers rn)(servername := Some rs)\<rparr>"

definition DeleteServer :: "name \<Rightarrow> Network \<Rightarrow> Network" where
  "DeleteServer servername rn = rn\<lparr>servers := (servers rn)(servername := None)\<rparr>"

definition Connect :: "string \<Rightarrow> name \<Rightarrow> Network \<Rightarrow> Network" where
  "Connect endname servername rn = rn\<lparr>connections := (connections rn)(endname := Some servername)\<rparr>"

definition Enable :: "string \<Rightarrow> bool \<Rightarrow> Network \<Rightarrow> Network" where
  "Enable endname b rn = rn\<lparr>enabled := (enabled rn)(endname := b)\<rparr>"

definition readEndnameInfo :: "string \<Rightarrow> Network \<Rightarrow> bool \<times> name option \<times> nat option \<times> bool \<times> bool" where
  "readEndnameInfo endname rn =
     (enabled rn endname, connections rn endname, Option.bind (connections rn endname) (servers rn),
      reliable rn, longReordering rn)"

definition isServerDead :: "string \<Rightarrow> name \<Rightarrow> nat \<Rightarrow> Network \<Rightarrow> bool" where
  "isServerDead endname servername server rn \<longleftrightarrow>
     \<not> enabled rn endname \<or> servers rn servername \<noteq> Some server"

definition GetTotalCount :: "Network \<Rightarrow> int" where
  "GetTotalCount rn = sint (net_count rn)"

definition GetTotalBytes :: "Network \<Rightarrow> int" where
  "GetTotalBytes rn = sint (net_bytes rn)"

text \<open>A missing server is a nil pointer.\<close>

definition GetCount :: "name \<Rightarrow> (nat \<Rightarrow> 's Server option) \<Rightarrow> Network \<Rightarrow> int option" where
  "GetCount servername heap rn = do { svr \<leftarrow> servers rn servername; rs \<leftarrow> heap svr; Some (Server_GetCount rs) }"

section \<open>One request\<close>

text \<open>
  \<open>fl_threads\<close> are the handler goroutines that a \<open>go\<close> statement of \<open>processReq\<close> has started and that have not
  run yet; \<open>fl_runs\<close> counts the runs of the handler and \<open>fl_ech\<close> is what the last one sent on \<open>ech\<close>.
\<close>

datatype stage = Queued | Selecting | Checking bool replyMsg | Delayed replyMsg | Answered replyMsg

record flight =
  fl_req :: reqMsg
  fl_stage :: stage
  fl_server :: "(name \<times> nat) option"
  fl_reliable :: bool
  fl_longreordering :: bool
  fl_threads :: nat
  fl_runs :: nat
  fl_ech :: "replyMsg option"

text \<open>The dispatcher goroutine of \<open>MakeNetwork\<close> takes a request from \<open>endCh\<close>.\<close>

definition take_request :: "reqMsg \<Rightarrow> Network \<Rightarrow> Network \<times> flight" where
  "take_request xreq rn =
     (rn\<lparr>net_count := net_count rn + 1, net_bytes := net_bytes rn + of_nat (length (req_args xreq))\<rparr>,
      \<lparr>fl_req = xreq, fl_stage = Queued, fl_server = None, fl_reliable = True, fl_longreordering = False,
       fl_threads = 0, fl_runs = 0, fl_ech = None\<rparr>)"

text \<open>
  \<open>processReq\<close> up to and with the \<open>go\<close> statement for the handler; \<open>r\<close> decides whether an unreliable network
  drops the request.
\<close>

definition processReq_begin :: "int \<Rightarrow> Network \<Rightarrow> flight \<Rightarrow> flight" where
  "processReq_begin r rn f = (case readEndnameInfo (req_endname (fl_req f)) rn of
     (True, Some servername, Some server, rel, longreordering) \<Rightarrow>
       if \<not> rel \<and> r mod 1000 < 100 then f\<lparr>fl_stage := Answered no_reply\<rparr>
       else f\<lparr>fl_stage := Selecting, fl_server := Some (servername, server), fl_reliable := rel,
         fl_longreordering := longreordering, fl_threads := fl_threads f + 1\<rparr>
   | _ \<Rightarrow> f\<lparr>fl_stage := Delayed no_reply\<rparr>)"

text \<open>The handler goroutine: \<open>ech <- server.dispatch(req)\<close>. It runs even when nobody waits for it any more.\<close>

definition run_handler :: "flight \<Rightarrow> 's Server \<Rightarrow> 's \<Rightarrow> ('s Server \<times> 's \<times> flight) option" where
  "run_handler f rs s = do {
     (rs, s, r) \<leftarrow> Server_dispatch (fl_req f) rs s;
     Some (rs, s, f\<lparr>fl_threads := fl_threads f - 1, fl_runs := fl_runs f + 1, fl_ech := Some r\<rparr>)
   }"

text \<open>The two cases of the \<open>select\<close> in the waiting loop.\<close>

definition select_reply :: "replyMsg \<Rightarrow> flight \<Rightarrow> flight" where
  "select_reply r f = f\<lparr>fl_stage := Checking True r\<rparr>"

definition select_timeout :: "name \<Rightarrow> nat \<Rightarrow> Network \<Rightarrow> flight \<Rightarrow> flight" where
  "select_timeout servername server rn f =
     (if isServerDead (req_endname (fl_req f)) servername server rn then f\<lparr>fl_stage := Checking False no_reply\<rparr> else f)"

text \<open>After the loop; \<open>r1\<close> and \<open>r2\<close> decide whether the reply is dropped or delayed.\<close>

definition count_bytes :: "replyMsg \<Rightarrow> Network \<Rightarrow> Network" where
  "count_bytes r rn = rn\<lparr>net_bytes := net_bytes rn + of_nat (length (rep_reply r))\<rparr>"

definition processReq_end ::
  "int \<Rightarrow> int \<Rightarrow> name \<Rightarrow> nat \<Rightarrow> bool \<Rightarrow> replyMsg \<Rightarrow> Network \<Rightarrow> flight \<Rightarrow> Network \<times> flight" where
  "processReq_end r1 r2 servername server replyOK r rn f =
     (let serverDead = isServerDead (req_endname (fl_req f)) servername server rn in
      if \<not> replyOK \<or> serverDead then (rn, f\<lparr>fl_stage := Answered no_reply\<rparr>)
      else if \<not> fl_reliable f \<and> r1 mod 1000 < 100 then (rn, f\<lparr>fl_stage := Answered no_reply\<rparr>)
      else if fl_longreordering f \<and> r2 < 600 then (rn, f\<lparr>fl_stage := Delayed r\<rparr>)
      else (count_bytes r rn, f\<lparr>fl_stage := Answered r\<rparr>))"

text \<open>A timer started by \<open>time.AfterFunc\<close> fires; a failure reply has no bytes.\<close>

definition timer_fires :: "replyMsg \<Rightarrow> Network \<Rightarrow> flight \<Rightarrow> Network \<times> flight" where
  "timer_fires r rn f = (count_bytes r rn, f\<lparr>fl_stage := Answered r\<rparr>)"

text \<open>
  \<open>ClientEnd.Call\<close> up to the \<open>select\<close>: it encodes the arguments, or panics; then the dispatcher takes the
  request, or the network is gone and the call returns false. \<open>sent\<close> is the choice of the \<open>select\<close>, which
  has only one case while the network is up.
\<close>

definition Call_send ::
  "('a \<Rightarrow> bytes option) \<Rightarrow> bool \<Rightarrow> string \<Rightarrow> string \<Rightarrow> 'a \<Rightarrow> Network \<Rightarrow> (bool + Network \<times> flight) option" where
  "Call_send encode sent endname svcMeth args rn = do {
     qb \<leftarrow> encode args;
     let req = \<lparr>req_endname = endname, req_svcMeth = svcMeth, req_args = qb\<rparr>;
     if sent \<or> \<not> net_done rn then Some (Inr (take_request req rn)) else Some (Inl False)
   }"

text \<open>
  What \<open>ClientEnd.Call\<close> returns for a reply: \<open>None\<close> is the \<open>log.Fatalf\<close> when the reply cannot be decoded.
  \<open>decode\<close> is \<open>labgob\<close>'s decoder for the type of the reply.
\<close>

definition Call_return :: "(bytes \<Rightarrow> 'r option) \<Rightarrow> replyMsg \<Rightarrow> (bool \<times> 'r option) option" where
  "Call_return decode rep =
     (if rep_ok rep
      then (case decode (rep_reply rep) of None \<Rightarrow> None | Some reply \<Rightarrow> Some (True, Some reply))
      else Some (False, None))"

section \<open>Runs\<close>

record 's world =
  w_net :: Network
  w_heap :: "nat \<Rightarrow> 's Server option"
  w_app :: 's
  w_flights :: "nat \<Rightarrow> flight option"

datatype netop =
    OpReliable bool | OpLongReordering bool | OpLongDelays bool | OpMakeEnd string | OpAddServer name nat
  | OpDeleteServer name | OpConnect string name | OpEnable string bool

fun net_op :: "netop \<Rightarrow> Network \<Rightarrow> Network option" where
  "net_op (OpReliable b) rn = Some (Reliable b rn)"
| "net_op (OpLongReordering b) rn = Some (LongReordering b rn)"
| "net_op (OpLongDelays b) rn = Some (LongDelays b rn)"
| "net_op (OpMakeEnd e) rn = MakeEnd e rn"
| "net_op (OpAddServer s a) rn = Some (AddServer s a rn)"
| "net_op (OpDeleteServer s) rn = Some (DeleteServer s rn)"
| "net_op (OpConnect e s) rn = Some (Connect e s rn)"
| "net_op (OpEnable e b) rn = Some (Enable e b rn)"

definition set_flight :: "nat \<Rightarrow> Network \<times> flight \<Rightarrow> 's world \<Rightarrow> 's world" where
  "set_flight i nf w = w\<lparr>w_net := fst nf, w_flights := (w_flights w)(i \<mapsto> snd nf)\<rparr>"

text \<open>The steps; the label \<open>Some op\<close> marks an operation on the network.\<close>

inductive rpc_step :: "netop option \<Rightarrow> 's world \<Rightarrow> 's world \<Rightarrow> bool" where
  oper: "net_op op (w_net w) = Some rn \<Longrightarrow> rpc_step (Some op) w (w\<lparr>w_net := rn\<rparr>)"
| call: "w_flights w i = None \<Longrightarrow> rpc_step None w (set_flight i (take_request req (w_net w)) w)"
| start: "w_flights w i = Some f \<Longrightarrow> fl_stage f = Queued \<Longrightarrow>
    rpc_step None w (set_flight i (w_net w, processReq_begin r (w_net w) f) w)"
| handle: "w_flights w i = Some f \<Longrightarrow> fl_server f = Some (s, a) \<Longrightarrow> 0 < fl_threads f \<Longrightarrow> w_heap w a = Some rs \<Longrightarrow>
    run_handler f rs (w_app w) = Some (rs', s', f') \<Longrightarrow>
    rpc_step None w (w\<lparr>w_heap := (w_heap w)(a \<mapsto> rs'), w_app := s', w_flights := (w_flights w)(i \<mapsto> f')\<rparr>)"
| got: "w_flights w i = Some f \<Longrightarrow> fl_stage f = Selecting \<Longrightarrow> fl_ech f = Some r \<Longrightarrow>
    rpc_step None w (set_flight i (w_net w, select_reply r f) w)"
| timeout: "w_flights w i = Some f \<Longrightarrow> fl_stage f = Selecting \<Longrightarrow> fl_server f = Some (s, a) \<Longrightarrow>
    rpc_step None w (set_flight i (w_net w, select_timeout s a (w_net w) f) w)"
| finish: "w_flights w i = Some f \<Longrightarrow> fl_stage f = Checking rok r \<Longrightarrow> fl_server f = Some (s, a) \<Longrightarrow>
    rpc_step None w (set_flight i (processReq_end r1 r2 s a rok r (w_net w) f) w)"
| fires: "w_flights w i = Some f \<Longrightarrow> fl_stage f = Delayed r \<Longrightarrow>
    rpc_step None w (set_flight i (timer_fires r (w_net w) f) w)"

inductive rpc_run :: "netop option list \<Rightarrow> 's world \<Rightarrow> 's world \<Rightarrow> bool" where
  none: "rpc_run [] w w"
| more: "rpc_run ls w w' \<Longrightarrow> rpc_step l w' w'' \<Longrightarrow> rpc_run (ls @ [l]) w w''"

definition first_world :: "(nat \<Rightarrow> 's Server option) \<Rightarrow> 's \<Rightarrow> 's world" where
  "first_world heap s = \<lparr>w_net = MakeNetwork, w_heap = heap, w_app = s, w_flights = (\<lambda>i. None)\<rparr>"

end
