(* ===== verification/LabRpcCorrect.thy ===== *)
theory LabRpcCorrect
  imports LabRpc
begin

text \<open>
  What an RPC promises: the handler runs at most once; a successful reply is the reply of that run; a
  server that has been deleted or replaced never answers; a reliable network delivers; the dispatcher
  finds the method that the name denotes.
\<close>

section \<open>Requests\<close>

definition flight_ok :: "flight \<Rightarrow> bool" where
  "flight_ok f \<longleftrightarrow> fl_runs f = (case fl_ech f of None \<Rightarrow> 0 | Some r \<Rightarrow> 1) \<and> fl_threads f + fl_runs f \<le> 1
     \<and> (fl_stage f = Queued \<longrightarrow> fl_server f = None \<and> fl_threads f = 0 \<and> fl_runs f = 0)
     \<and> (fl_stage f = Selecting \<longrightarrow> fl_server f \<noteq> None)
     \<and> (\<forall>b r. fl_stage f = Checking b r \<longrightarrow> fl_server f \<noteq> None \<and> (b \<longrightarrow> fl_ech f = Some r))
     \<and> (\<forall>r. fl_stage f = Delayed r \<or> fl_stage f = Answered r \<longrightarrow> r = no_reply \<or> fl_ech f = Some r)"

definition world_ok :: "'s world \<Rightarrow> bool" where
  "world_ok w \<longleftrightarrow> (\<forall>i f. w_flights w i = Some f \<longrightarrow> flight_ok f)"

lemma world_okD: "world_ok w \<Longrightarrow> w_flights w i = Some f \<Longrightarrow> flight_ok f"
  by (simp add: world_ok_def)

lemma set_flight_simps [simp]:
  "w_flights (set_flight i nf w) = (w_flights w)(i \<mapsto> snd nf)" "w_net (set_flight i nf w) = fst nf"
  "w_heap (set_flight i nf w) = w_heap w" "w_app (set_flight i nf w) = w_app w"
  by (simp_all add: set_flight_def)

lemma world_ok_set: "world_ok w \<Longrightarrow> flight_ok (snd nf) \<Longrightarrow> world_ok (set_flight i nf w)"
  by (auto simp: world_ok_def)

lemma run_handler_Some:
  "run_handler f rs s = Some (rs', s', f') \<Longrightarrow>
     \<exists>r. Server_dispatch (fl_req f) rs s = Some (rs', s', r) \<and> f' = f\<lparr>fl_threads := fl_threads f - 1, fl_runs := fl_runs f + 1, fl_ech := Some r\<rparr>"
  by (auto simp: run_handler_def bind_eq_Some_conv)

lemma flight_ok_steps:
  "flight_ok (snd (take_request req rn))"
  "flight_ok f \<Longrightarrow> fl_stage f = Queued \<Longrightarrow> flight_ok (processReq_begin r rn f)"
  "flight_ok f \<Longrightarrow> fl_stage f = Selecting \<Longrightarrow> fl_ech f = Some rep \<Longrightarrow> flight_ok (select_reply rep f)"
  "flight_ok f \<Longrightarrow> fl_stage f = Selecting \<Longrightarrow> flight_ok (select_timeout s a rn f)"
  "flight_ok f \<Longrightarrow> fl_stage f = Checking b rep \<Longrightarrow> flight_ok (snd (processReq_end r1 r2 s a b rep rn f))"
  "flight_ok f \<Longrightarrow> fl_stage f = Delayed rep \<Longrightarrow> flight_ok (snd (timer_fires rep rn f))"
  by (auto simp: flight_ok_def take_request_def processReq_begin_def select_reply_def select_timeout_def
      processReq_end_def timer_fires_def Let_def split: bool.splits option.splits prod.splits)

lemma flight_ok_handler:
  assumes "flight_ok f" and "fl_server f = Some (s, a)" and "0 < fl_threads f" and "run_handler f rs st = Some (rs', st', f')"
  shows "flight_ok f'"
  using assms(1-3) run_handler_Some [OF assms(4)] by (auto simp: flight_ok_def split: option.splits)

lemma world_ok_step: "rpc_step l w w' \<Longrightarrow> world_ok w \<Longrightarrow> world_ok w'"
proof (induction rule: rpc_step.induct)
  case (handle w i f s a rs rs' s' f')
  have "flight_ok f'"
    using world_okD [OF handle(6,1)] handle(2,3,5) by (rule flight_ok_handler)
  with handle(6) show ?case by (auto simp: world_ok_def)
qed (auto intro!: world_ok_set flight_ok_steps dest: world_okD simp: world_ok_def)

lemma rpc_run_ok: "rpc_run ls w w' \<Longrightarrow> world_ok w \<Longrightarrow> world_ok w'"
  by (induction rule: rpc_run.induct) (auto intro: world_ok_step)

text \<open>
  C34. At most once, and honest. However requests, handlers, timers and operations on the network are
  interleaved, the handler of a request runs at most once (\<open>processReq\<close> starts one goroutine for it, counted
  in \<open>fl_threads\<close>), and when the caller gets a successful reply
  it has run exactly once and the reply is the one that run returned.
\<close>

theorem rpc_at_most_once:
  assumes "rpc_run ls (first_world heap s) w" and "w_flights w i = Some f"
  shows "fl_runs f \<le> 1 \<and> (\<forall>r. fl_stage f = Answered r \<and> rep_ok r \<longrightarrow> fl_runs f = 1 \<and> fl_ech f = Some r)"
proof -
  have "world_ok w" using rpc_run_ok [OF assms(1)] by (simp add: world_ok_def first_world_def)
  then have "flight_ok f" using assms(2) by (rule world_okD)
  then show ?thesis by (auto simp: flight_ok_def split: option.splits)
qed

section \<open>Dead servers\<close>

text \<open>A request that waits for, or was refused by, the server at address \<open>a\<close>.\<close>

definition doomed :: "name \<Rightarrow> nat \<Rightarrow> flight \<Rightarrow> bool" where
  "doomed s a f \<longleftrightarrow> (fl_server f = Some (s, a) \<and> (fl_stage f = Selecting \<or> (\<exists>b r. fl_stage f = Checking b r)))
     \<or> fl_stage f = Delayed no_reply \<or> fl_stage f = Answered no_reply"

lemma doomed_steps:
  assumes "servers rn s \<noteq> Some a" and "doomed s a f"
  shows "fl_stage f = Selecting \<Longrightarrow> fl_ech f = Some rep \<Longrightarrow> doomed s a (select_reply rep f)"
    "fl_stage f = Selecting \<Longrightarrow> doomed s a (select_timeout s' a' rn f)"
    "fl_stage f = Checking b rep \<Longrightarrow> fl_server f = Some (s', a') \<Longrightarrow> doomed s a (snd (processReq_end r1 r2 s' a' b rep rn f))"
    "fl_stage f = Delayed rep \<Longrightarrow> doomed s a (snd (timer_fires rep rn f))"
  using assms by (auto simp: doomed_def select_reply_def select_timeout_def processReq_end_def timer_fires_def
      isServerDead_def Let_def)

definition gone :: "name \<Rightarrow> nat \<Rightarrow> nat \<Rightarrow> 's world \<Rightarrow> bool" where
  "gone s a i w \<longleftrightarrow> servers (w_net w) s \<noteq> Some a \<and> (\<exists>f. w_flights w i = Some f \<and> doomed s a f)"

lemma servers_flight [simp]:
  "servers (fst (take_request req rn)) = servers rn" "servers (fst (processReq_end r1 r2 s a b rep rn f)) = servers rn"
  "servers (fst (timer_fires rep rn f)) = servers rn"
  by (simp_all add: take_request_def processReq_end_def timer_fires_def count_bytes_def Let_def)

lemma net_op_servers:
  "net_op op rn = Some rn' \<Longrightarrow> op \<noteq> OpAddServer s a \<Longrightarrow> servers rn s \<noteq> Some a \<Longrightarrow> servers rn' s \<noteq> Some a"
  by (cases op) (auto simp: Reliable_def LongReordering_def LongDelays_def MakeEnd_def AddServer_def
      DeleteServer_def Connect_def Enable_def split: if_splits)

lemma gone_step: "rpc_step l w w' \<Longrightarrow> l \<noteq> Some (OpAddServer s a) \<Longrightarrow> gone s a i w \<Longrightarrow> gone s a i w'"
proof (induction rule: rpc_step.induct)
  case (oper op w rn)
  then show ?case by (auto simp: gone_def dest: net_op_servers)
next
  case (handle w j f s' a' rs rs' st' f')
  obtain r where "f' = f\<lparr>fl_threads := fl_threads f - 1, fl_runs := fl_runs f + 1, fl_ech := Some r\<rparr>" using run_handler_Some [OF handle(5)] by auto
  then have "doomed s a f \<Longrightarrow> doomed s a f'" by (simp add: doomed_def)
  with handle show ?case by (auto simp: gone_def)
next
  case (start w j f r)
  then show ?case by (auto simp: gone_def doomed_def)
qed (auto simp: gone_def intro: doomed_steps)

lemma gone_run: "rpc_run ls w w' \<Longrightarrow> Some (OpAddServer s a) \<notin> set ls \<Longrightarrow> gone s a i w \<Longrightarrow> gone s a i w'"
  by (induction rule: rpc_run.induct) (auto intro: gone_step)

text \<open>
  C35. A deleted server does not answer. Once \<open>DeleteServer\<close> or a new server under the same name has
  taken the server at address \<open>a\<close> out of the network, no request that is waiting for it is ever answered
  successfully, even if its handler has run: the client cannot take for done what the old server
  saved in a persister that has been superseded.
\<close>

theorem deleted_server_silent:
  assumes "w_flights w i = Some f" and "fl_server f = Some (s, a)" and "fl_stage f = Selecting \<or> (\<exists>b r. fl_stage f = Checking b r)"
    and "servers (w_net w) s \<noteq> Some a" and "rpc_run ls w w'" and "Some (OpAddServer s a) \<notin> set ls"
  shows "\<exists>f'. w_flights w' i = Some f' \<and> (\<forall>r. fl_stage f' = Delayed r \<or> fl_stage f' = Answered r \<longrightarrow> \<not> rep_ok r)"
proof -
  have "gone s a i w" using assms(1-4) by (auto simp: gone_def doomed_def)
  then have "gone s a i w'" using gone_run assms(5,6) by blast
  then show ?thesis by (auto simp: gone_def doomed_def)
qed

section \<open>Delivery\<close>

lemma rpc_run_append: "rpc_run ls' w' w'' \<Longrightarrow> rpc_run ls w w' \<Longrightarrow> rpc_run (ls @ ls') w w''"
proof (induction rule: rpc_run.induct)
  case (more ls1 w1 w2 l w3)
  then show ?case using rpc_run.more [of "ls @ ls1" w w2 l w3] by simp
qed simp

lemma rpc_run_Cons: "rpc_step l w w1 \<Longrightarrow> rpc_run ls w1 w2 \<Longrightarrow> rpc_run (l # ls) w w2"
proof (rotate_tac, induction rule: rpc_run.induct)
  case (none w1)
  then show ?case using rpc_run.more [OF rpc_run.none] by fastforce
next
  case (more ls w1 w' l' w'')
  then show ?case using rpc_run.more by fastforce
qed

text \<open>An end that is enabled and connected to a registered server, on a reliable network without reordering.\<close>

definition route :: "string \<Rightarrow> name \<Rightarrow> nat \<Rightarrow> Network \<Rightarrow> bool" where
  "route e s a rn \<longleftrightarrow> enabled rn e \<and> connections rn e = Some s \<and> servers rn s = Some a \<and> reliable rn \<and> \<not> longReordering rn"

text \<open>A server that has the method of a request.\<close>

definition can_serve :: "reqMsg \<Rightarrow> 's Server \<Rightarrow> bool" where
  "can_serve req rs \<longleftrightarrow> (\<forall>st. Server_dispatch req rs st \<noteq> None)"

lemma Server_dispatch_services:
  assumes "Server_dispatch req rs st = Some (rs', st', r)"
  shows "services rs' = services rs" "rep_ok r"
  using assms by (auto simp: Server_dispatch_def Service_dispatch_def bind_eq_Some_conv split_beta Let_def split: option.splits)

lemma can_serve_cong:
  assumes "services rs' = services rs" and "can_serve req rs"
  shows "can_serve req rs'"
  unfolding can_serve_def
proof
  fix st
  have "Server_dispatch req rs' st = map_option (\<lambda>(_, x). (rs'\<lparr>srv_count := srv_count rs' + 1\<rparr>, x)) (Server_dispatch req rs st)"
    using assms(1) by (auto simp: Server_dispatch_def Let_def split: Option.bind_splits)
  then show "Server_dispatch req rs' st \<noteq> None" using assms(2) by (simp add: can_serve_def)
qed

lemma route_flight [simp]:
  "route e s a (fst (take_request req rn)) = route e s a rn" "route e s a (fst (processReq_end r1 r2 s' a' b rep rn f)) = route e s a rn"
  "route e s a (fst (timer_fires rep rn f)) = route e s a rn"
  by (simp_all add: route_def take_request_def processReq_end_def timer_fires_def count_bytes_def Let_def)

text \<open>The stages of a request that is on its way to the server \<open>s\<close> at \<open>a\<close> and back.\<close>

definition under_way :: "name \<Rightarrow> nat \<Rightarrow> flight \<Rightarrow> bool" where
  "under_way s a f \<longleftrightarrow> (case fl_stage f of
       Queued \<Rightarrow> True
     | Selecting \<Rightarrow> fl_server f = Some (s, a) \<and> fl_reliable f \<and> \<not> fl_longreordering f \<and> (fl_ech f = None \<longrightarrow> 0 < fl_threads f)
     | Checking b r \<Rightarrow> b \<and> fl_server f = Some (s, a) \<and> fl_reliable f \<and> \<not> fl_longreordering f
     | Delayed r \<Rightarrow> False
     | Answered r \<Rightarrow> rep_ok r)"

definition on_way :: "reqMsg \<Rightarrow> name \<Rightarrow> nat \<Rightarrow> nat \<Rightarrow> 's world \<Rightarrow> bool" where
  "on_way req s a i w \<longleftrightarrow> world_ok w \<and> route (req_endname req) s a (w_net w)
     \<and> (\<exists>rs. w_heap w a = Some rs \<and> can_serve req rs)
     \<and> (\<exists>f. w_flights w i = Some f \<and> fl_req f = req \<and> under_way s a f \<and> (\<forall>r. fl_ech f = Some r \<longrightarrow> rep_ok r))"

lemma under_way_start:
  "route (req_endname (fl_req f)) s a rn \<Longrightarrow> fl_stage f = Queued \<Longrightarrow> under_way s a (processReq_begin r rn f)"
  by (simp add: route_def processReq_begin_def readEndnameInfo_def under_way_def)

lemma under_way_end:
  assumes "route (req_endname (fl_req f)) s a rn" and "under_way s a f" and "fl_stage f = Checking b rep" and "rep_ok rep"
    and "fl_server f = Some (s', a')"
  shows "processReq_end r1 r2 s' a' b rep rn f = (count_bytes rep rn, f\<lparr>fl_stage := Answered rep\<rparr>)"
  using assms by (auto simp: route_def under_way_def processReq_end_def isServerDead_def)

lemma keep_fields [simp]:
  "fl_req (processReq_begin r rn f) = fl_req f" "fl_ech (processReq_begin r rn f) = fl_ech f"
  "fl_req (select_reply rep f) = fl_req f" "fl_ech (select_reply rep f) = fl_ech f"
  "fl_req (select_timeout s a rn f) = fl_req f" "fl_ech (select_timeout s a rn f) = fl_ech f"
  by (auto simp: processReq_begin_def select_reply_def select_timeout_def split: prod.splits option.splits bool.splits)

lemma on_wayD:
  assumes "on_way req s a i w"
  obtains rs f where "world_ok w" "route (req_endname req) s a (w_net w)" "w_heap w a = Some rs" "can_serve req rs"
    "w_flights w i = Some f" "fl_req f = req" "under_way s a f" "\<And>r. fl_ech f = Some r \<Longrightarrow> rep_ok r" "flight_ok f"
  using assms world_okD unfolding on_way_def by blast

lemma on_wayI:
  assumes "world_ok w" "route (req_endname req) s a (w_net w)" "w_heap w a = Some rs" "can_serve req rs"
    "w_flights w i = Some f" "fl_req f = req" "under_way s a f" "\<And>r. fl_ech f = Some r \<Longrightarrow> rep_ok r"
  shows "on_way req s a i w"
  using assms unfolding on_way_def by blast

text \<open>A step on flight \<open>j\<close> that leaves heap and routes alone.\<close>

lemma on_way_set:
  assumes on: "on_way req s a i w" and ok: "world_ok (set_flight j nf w)" and net: "route (req_endname req) s a (fst nf)"
    and mine: "\<And>f. i = j \<Longrightarrow> w_flights w i = Some f \<Longrightarrow> fl_req f = req \<Longrightarrow> under_way s a f \<Longrightarrow> flight_ok f \<Longrightarrow>
      (\<And>r. fl_ech f = Some r \<Longrightarrow> rep_ok r) \<Longrightarrow> fl_req (snd nf) = req \<and> under_way s a (snd nf) \<and> (\<forall>r. fl_ech (snd nf) = Some r \<longrightarrow> rep_ok r)"
  shows "on_way req s a i (set_flight j nf w)"
proof -
  obtain rs f where w: "world_ok w" "route (req_endname req) s a (w_net w)" "w_heap w a = Some rs" "can_serve req rs"
    "w_flights w i = Some f" "fl_req f = req" "under_way s a f" "\<And>r. fl_ech f = Some r \<Longrightarrow> rep_ok r" "flight_ok f"
    using on_wayD [OF on] by metis
  show ?thesis
  proof (cases "i = j")
    case True
    then show ?thesis using mine [OF True w(5-7,9,8)] ok net w(3,4) by (intro on_wayI [where f = "snd nf"]) auto
  next
    case False
    then show ?thesis using ok net w by (intro on_wayI [where f = f]) auto
  qed
qed

lemma on_way_handle:
  assumes on: "on_way req s a i w" and f: "w_flights w j = Some f" and rs: "w_heap w b = Some rs"
    and run: "run_handler f rs (w_app w) = Some (rs', st', f')"
    and ok: "world_ok (w\<lparr>w_heap := (w_heap w)(b \<mapsto> rs'), w_app := st', w_flights := (w_flights w)(j \<mapsto> f')\<rparr>)"
  shows "on_way req s a i (w\<lparr>w_heap := (w_heap w)(b \<mapsto> rs'), w_app := st', w_flights := (w_flights w)(j \<mapsto> f')\<rparr>)"
proof -
  obtain r where r: "Server_dispatch (fl_req f) rs (w_app w) = Some (rs', st', r)"
    "f' = f\<lparr>fl_threads := fl_threads f - 1, fl_runs := fl_runs f + 1, fl_ech := Some r\<rparr>"
    using run_handler_Some [OF run] by blast
  obtain rs0 g where w: "route (req_endname req) s a (w_net w)" "w_heap w a = Some rs0" "can_serve req rs0"
    "w_flights w i = Some g" "fl_req g = req" "under_way s a g" "\<And>r. fl_ech g = Some r \<Longrightarrow> rep_ok r"
    using on_wayD [OF on] by metis
  have serve: "\<exists>rs1. ((w_heap w)(b \<mapsto> rs')) a = Some rs1 \<and> can_serve req rs1"
    using w(2,3) rs can_serve_cong [OF Server_dispatch_services(1) [OF r(1)]] by auto
  have way: "under_way s a f \<Longrightarrow> under_way s a f'" unfolding r(2) by (auto simp: under_way_def split: stage.splits)
  show ?thesis
    using ok w serve way Server_dispatch_services(2) [OF r(1)] f unfolding on_way_def by (cases "i = j") (auto simp: r(2))
qed

lemma on_way_step: "rpc_step l w w' \<Longrightarrow> l = None \<Longrightarrow> on_way req s a i w \<Longrightarrow> on_way req s a i w'"
proof (induction rule: rpc_step.induct)
  case (oper op w rn)
  then show ?case by simp
next
  case (call w j req')
  note ok = world_ok_step [OF rpc_step.call [OF call.hyps]]
  from call show ?case
    by (intro on_way_set ok) (auto elim: on_wayD)
next
  case (start w j f r)
  note ok = world_ok_step [OF rpc_step.start [OF start.hyps(1,2)]]
  from start show ?case by (intro on_way_set ok) (auto intro: under_way_start elim: on_wayD)
next
  case (handle w j f s' a' rs rs' st' f')
  note ok = world_ok_step [OF rpc_step.handle [OF handle.hyps(1-5)]]
  from handle show ?case by (intro on_way_handle ok) (auto elim: on_wayD)
next
  case (got w j f r)
  note ok = world_ok_step [OF rpc_step.got [OF got.hyps(1-3)]]
  from got show ?case by (intro on_way_set ok) (auto simp: under_way_def select_reply_def elim: on_wayD)
next
  case (timeout w j f s' a')
  note ok = world_ok_step [OF rpc_step.timeout [OF timeout.hyps(1-3)]]
  from timeout have "route (req_endname req) s a (w_net w)" by (auto elim: on_wayD)
  then have "under_way s a f \<Longrightarrow> fl_req f = req \<Longrightarrow> select_timeout s' a' (w_net w) f = f"
    using timeout.hyps(2,3) by (auto simp: under_way_def select_timeout_def isServerDead_def route_def)
  with timeout show ?case by (intro on_way_set ok) (auto elim: on_wayD)
next
  case (finish w j f rok r s' a' r1 r2)
  note ok = world_ok_step [OF rpc_step.finish [OF finish.hyps(1-3)]]
  have "route (req_endname req) s a (w_net w)" using finish.prems(2) by (auto elim: on_wayD)
  moreover have "flight_ok f \<Longrightarrow> rok \<Longrightarrow> fl_ech f = Some r" using finish.hyps(2) by (auto simp: flight_ok_def)
  ultimately have "fl_req f = req \<Longrightarrow> under_way s a f \<Longrightarrow> flight_ok f \<Longrightarrow> (\<And>r. fl_ech f = Some r \<Longrightarrow> rep_ok r) \<Longrightarrow>
      processReq_end r1 r2 s' a' rok r (w_net w) f = (count_bytes r (w_net w), f\<lparr>fl_stage := Answered r\<rparr>) \<and> rep_ok r"
    using under_way_end [of f s a "w_net w" rok r s' a' r1 r2] finish.hyps(2,3) by (auto simp: under_way_def)
  with finish show ?case by (intro on_way_set ok) (auto simp: under_way_def elim: on_wayD)
next
  case (fires w j f r)
  note ok = world_ok_step [OF rpc_step.fires [OF fires.hyps(1,2)]]
  from fires show ?case by (intro on_way_set ok) (auto simp: under_way_def elim: on_wayD)
qed

lemma on_way_run: "rpc_run ls w w' \<Longrightarrow> set ls \<subseteq> {None} \<Longrightarrow> on_way req s a i w \<Longrightarrow> on_way req s a i w'"
  by (induction rule: rpc_run.induct) (auto intro: on_way_step)

text \<open>How far a request is from its answer.\<close>

definition to_go :: "nat \<Rightarrow> 's world \<Rightarrow> nat" where
  "to_go i w = (case w_flights w i of None \<Rightarrow> 0 | Some f \<Rightarrow> (case fl_stage f of
     Queued \<Rightarrow> 4 | Selecting \<Rightarrow> if fl_ech f = None then 3 else 2 | Checking b r \<Rightarrow> 1 | _ \<Rightarrow> 0))"

lemma on_way_progress:
  assumes "on_way req s a i w" and "0 < to_go i w"
  shows "\<exists>w'. rpc_step None w w' \<and> to_go i w' < to_go i w"
proof -
  obtain rs f where w: "route (req_endname req) s a (w_net w)" "w_heap w a = Some rs" "can_serve req rs"
    "w_flights w i = Some f" "fl_req f = req" "under_way s a f"
    using on_wayD [OF assms(1)] by metis
  consider (queued) "fl_stage f = Queued" | (handler) "fl_stage f = Selecting" "fl_ech f = None"
    | (reply) r where "fl_stage f = Selecting" "fl_ech f = Some r" | (check) b r where "fl_stage f = Checking b r"
    using assms(2) w(4) by (cases "fl_stage f"; cases "fl_ech f") (auto simp: to_go_def)
  then show ?thesis
  proof cases
    case queued
    have "fl_stage (processReq_begin 0 (w_net w) f) = Selecting"
      using w(1,5) by (simp add: route_def processReq_begin_def readEndnameInfo_def)
    with rpc_step.start [OF w(4) queued, of 0] show ?thesis using queued w(4)
      by (intro exI [of _ "set_flight i (w_net w, processReq_begin 0 (w_net w) f) w"]) (simp add: to_go_def)
  next
    case handler
    then have t: "0 < fl_threads f" "fl_server f = Some (s, a)" using w(6) by (auto simp: under_way_def)
    obtain rs' st' r where d: "Server_dispatch req rs (w_app w) = Some (rs', st', r)" using w(3) by (fastforce simp: can_serve_def)
    let ?f = "f\<lparr>fl_threads := fl_threads f - 1, fl_runs := fl_runs f + 1, fl_ech := Some r\<rparr>"
    have "run_handler f rs (w_app w) = Some (rs', st', ?f)" using d w(5) by (simp add: run_handler_def)
    from rpc_step.handle [OF w(4) t(2,1) w(2) this] show ?thesis using handler w(4) by (fastforce simp: to_go_def)
  next
    case reply
    from rpc_step.got [OF w(4) reply] show ?thesis using reply w(4)
      by (intro exI [of _ "set_flight i (w_net w, select_reply r f) w"]) (simp add: to_go_def select_reply_def)
  next
    case check
    then have sv: "fl_server f = Some (s, a)" using w(6) by (simp add: under_way_def)
    have "fl_stage (snd (processReq_end 0 0 s a b r (w_net w) f)) \<in> {Answered no_reply, Delayed r, Answered r}"
      by (simp add: processReq_end_def Let_def)
    with rpc_step.finish [OF w(4) check sv, of 0 0] show ?thesis using check w(4)
      by (intro exI [of _ "set_flight i (processReq_end 0 0 s a b r (w_net w) f) w"]) (auto simp: to_go_def)
  qed
qed

lemma on_way_arrives:
  "on_way req s a i w \<Longrightarrow> \<exists>ls w' f r. rpc_run ls w w' \<and> set ls \<subseteq> {None} \<and> w_flights w' i = Some f \<and> fl_stage f = Answered r"
proof (induction "to_go i w" arbitrary: w rule: less_induct)
  case less
  obtain f where f: "w_flights w i = Some f" "under_way s a f" using on_wayD [OF less.prems] by metis
  show ?case
  proof (cases "0 < to_go i w")
    case True
    then obtain w1 where w1: "rpc_step None w w1" "to_go i w1 < to_go i w" using on_way_progress [OF less.prems] by blast
    then obtain ls w' f r where "rpc_run ls w1 w'" "set ls \<subseteq> {None}" "w_flights w' i = Some f" "fl_stage f = Answered r"
      using less.hyps [OF w1(2) on_way_step [OF w1(1) refl less.prems]] by blast
    with rpc_run_Cons [OF w1(1)] show ?thesis by (intro exI [of _ "None # ls"]) auto
  next
    case False
    then obtain r where "fl_stage f = Answered r"
      using f by (cases "fl_stage f") (auto simp: to_go_def under_way_def split: if_splits)
    with f(1) rpc_run.none show ?thesis by fastforce
  qed
qed

lemma on_way_start:
  assumes "rpc_run ls0 (first_world heap st) w" and "w_flights w i = Some f" "fl_stage f = Queued" "fl_req f = req"
    and "route (req_endname req) s a (w_net w)" "w_heap w a = Some rs" "can_serve req rs"
  shows "on_way req s a i w"
proof (rule on_wayI [OF _ assms(5-7,2,4)])
  show ok: "world_ok w" using rpc_run_ok [OF assms(1)] by (simp add: world_ok_def first_world_def)
  show "under_way s a f" using assms(3) by (simp add: under_way_def)
  show "rep_ok r" if "fl_ech f = Some r" for r
    using world_okD [OF ok assms(2)] assms(3) that by (auto simp: flight_ok_def)
qed

text \<open>
  C36. A reliable network delivers. A request waits in a reachable state whose network is reliable and
  does not reorder, its end is enabled and connected to a registered server, and that server has
  the method. Whatever then happens short of operations on the network -- other requests, timers, every
  outcome of the random numbers -- the request does not fail: when it is answered, the answer is the
  reply of the one run of its handler; and until then there are further such steps that answer it.
\<close>

theorem rpc_delivers:
  assumes "rpc_run ls0 (first_world heap st) w" and "w_flights w i = Some f" "fl_stage f = Queued"
    and "route (req_endname (fl_req f)) s a (w_net w)" "w_heap w a = Some rs" "can_serve (fl_req f) rs"
    and "rpc_run ls w w'" "set ls \<subseteq> {None}"
  shows "(\<exists>f'. w_flights w' i = Some f' \<and>
      (\<forall>r. fl_stage f' = Answered r \<longrightarrow> rep_ok r \<and> fl_runs f' = 1 \<and> fl_ech f' = Some r))
    \<and> (\<exists>ls' w'' f'' r. rpc_run ls' w' w'' \<and> set ls' \<subseteq> {None} \<and> w_flights w'' i = Some f'' \<and> fl_stage f'' = Answered r)"
proof -
  have on: "on_way (fl_req f) s a i w'"
    using on_way_run [OF assms(7,8) on_way_start [OF assms(1-3) refl assms(4-6)]] .
  then obtain f' where f': "w_flights w' i = Some f'" "under_way s a f'" "flight_ok f'" by (rule on_wayD)
  have "rep_ok r \<and> fl_runs f' = 1 \<and> fl_ech f' = Some r" if "fl_stage f' = Answered r" for r
    using f'(2,3) that by (auto simp: under_way_def flight_ok_def split: option.splits)
  with f'(1) on_way_arrives [OF on] show ?thesis by blast
qed

section \<open>Dispatch\<close>

lemma map_of_svc_put [simp]: "map_of (svc_put k v xs) = (map_of xs)(k \<mapsto> v)"
  by (induction k v xs rule: svc_put.induct) auto

definition suitable :: "'s Method \<Rightarrow> bool" where
  "suitable m \<longleftrightarrow> PkgPath m = [] \<and> length (InKinds m) = 3 \<and> InKinds m ! 2 = Ptr \<and> NumOut m = 0"

lemma MakeService_loop_Cons:
  "MakeService_loop (m # ms) svc =
     MakeService_loop ms (if suitable m then svc\<lparr>methods := svc_put (methName m) (methFunc m) (methods svc)\<rparr> else svc)"
  by (auto simp: suitable_def idx_def)

lemma MakeService_loop_methods:
  assumes "distinct (map methName ms)"
  shows "\<exists>svc'. MakeService_loop ms svc = Some svc' \<and> svcName svc' = svcName svc
    \<and> (\<forall>m \<in> set ms. suitable m \<longrightarrow> map_of (methods svc') (methName m) = Some (methFunc m))
    \<and> (\<forall>k. k \<notin> methName ` {m \<in> set ms. suitable m} \<longrightarrow> map_of (methods svc') k = map_of (methods svc) k)"
  using assms
proof (induction ms arbitrary: svc)
  case (Cons m ms)
  let ?svc = "if suitable m then svc\<lparr>methods := svc_put (methName m) (methFunc m) (methods svc)\<rparr> else svc"
  obtain svc' where svc': "MakeService_loop ms ?svc = Some svc'" "svcName svc' = svcName ?svc"
    "\<forall>m \<in> set ms. suitable m \<longrightarrow> map_of (methods svc') (methName m) = Some (methFunc m)"
    "\<forall>k. k \<notin> methName ` {m \<in> set ms. suitable m} \<longrightarrow> map_of (methods svc') k = map_of (methods ?svc) k"
    using Cons.IH [of ?svc] Cons.prems by auto
  have "methName m \<notin> methName ` {m \<in> set ms. suitable m}" using Cons.prems by auto
  with svc'(4) have "suitable m \<longrightarrow> map_of (methods svc') (methName m) = Some (methFunc m)" by auto
  moreover have "map_of (methods svc') k = map_of (methods svc) k" if "k \<notin> methName ` {x \<in> set (m # ms). suitable x}" for k
  proof -
    have "k \<notin> methName ` {m \<in> set ms. suitable m}" "suitable m \<longrightarrow> k \<noteq> methName m" using that by auto
    then show ?thesis using svc'(4) by auto
  qed
  ultimately show ?case using svc'(1-3) unfolding MakeService_loop_Cons by auto
qed simp

lemma lastDot_no: "CHR ''.'' \<notin> set m \<longleftrightarrow> lastDot m < 0"
  by (induction m) auto

lemma lastDot_split: "CHR ''.'' \<notin> set m \<Longrightarrow> lastDot (s @ ''.'' @ m) = int (length s)"
  by (induction s) (auto simp: lastDot_no)

text \<open>
  Dispatch finds the method. A request for \<open>Type.Method\<close> on a server with the service made from an
  object of that type runs that method if it is exported, has two parameters, of which the second is
  a pointer, and no result; the type's name may contain dots. A name without a dot panics, and a name that
  denotes no suitable method is fatal.
\<close>

theorem dispatch_routes:
  assumes ms: "distinct (map methName ms)" and m: "CHR ''.'' \<notin> set m" and req: "req_svcMeth req = tn @ ''.'' @ m"
  shows "\<exists>svc. MakeService tn ms = Some svc
    \<and> (\<forall>h \<in> set ms. methName h = m \<and> suitable h \<longrightarrow> Server_dispatch req (AddService svc rs) st =
         Some ((AddService svc rs)\<lparr>srv_count := srv_count rs + 1\<rparr>, fst (methFunc h (req_args req) st),
           \<lparr>rep_ok = True, rep_reply = snd (methFunc h (req_args req) st)\<rparr>))
    \<and> ((\<forall>h \<in> set ms. methName h = m \<longrightarrow> \<not> suitable h) \<longrightarrow> Server_dispatch req (AddService svc rs) st = None)
    \<and> (\<forall>nm. CHR ''.'' \<notin> set nm \<longrightarrow> Server_dispatch (req\<lparr>req_svcMeth := nm\<rparr>) (AddService svc rs) st = None)"
proof -
  obtain svc where svc: "MakeService tn ms = Some svc" "svcName svc = tn"
    "\<forall>h \<in> set ms. suitable h \<longrightarrow> map_of (methods svc) (methName h) = Some (methFunc h)"
    "\<forall>k. k \<notin> methName ` {h \<in> set ms. suitable h} \<longrightarrow> map_of (methods svc) k = None"
    using MakeService_loop_methods [OF ms, of "\<lparr>svcName = tn, methods = []\<rparr>"] by (auto simp: MakeService_def)
  have split: "slice_to (req_svcMeth req) (lastDot (req_svcMeth req)) = Some tn"
    "slice_from (req_svcMeth req) (lastDot (req_svcMeth req) + 1) = Some m"
    unfolding req lastDot_split [OF m] by (simp_all add: slice_to_def slice_from_def nat_add_distrib)
  have disp: "Server_dispatch req (AddService svc rs) st = do {
      (s, r) \<leftarrow> Service_dispatch svc m req st; Some ((AddService svc rs)\<lparr>srv_count := srv_count rs + 1\<rparr>, s, r) }"
    using svc(2) by (simp add: Server_dispatch_def split AddService_def)
  have "Server_dispatch req (AddService svc rs) st =
      Some ((AddService svc rs)\<lparr>srv_count := srv_count rs + 1\<rparr>, fst (methFunc h (req_args req) st),
        \<lparr>rep_ok = True, rep_reply = snd (methFunc h (req_args req) st)\<rparr>)"
    if "h \<in> set ms" "methName h = m" "suitable h" for h
    using svc(3) that unfolding disp by (auto simp: Service_dispatch_def split_beta)
  moreover have "Server_dispatch req (AddService svc rs) st = None" if "\<forall>h \<in> set ms. methName h = m \<longrightarrow> \<not> suitable h"
  proof -
    have "m \<notin> methName ` {h \<in> set ms. suitable h}" using that by auto
    then have "map_of (methods svc) m = None" using svc(4) by blast
    then show ?thesis unfolding disp by (simp add: Service_dispatch_def)
  qed
  moreover have "Server_dispatch (req\<lparr>req_svcMeth := nm\<rparr>) (AddService svc rs) st = None" if "CHR ''.'' \<notin> set nm" for nm
    using that by (simp add: Server_dispatch_def lastDot_no slice_to_def)
  ultimately show ?thesis using svc(1) by blast
qed

section \<open>Witnesses\<close>

text \<open>A server that counts its calls and echoes the arguments, and a client connected to it.\<close>

definition echo_method :: "nat Method" where
  "echo_method = \<lparr>methName = ''Do'', PkgPath = [], InKinds = [Ptr, Ptr, Ptr], NumOut = 0, methFunc = (\<lambda>args n. (n + 1, args))\<rparr>"

definition echo_server :: "nat Server" where
  "echo_server = AddService (the (MakeService ''Echo'' [echo_method])) MakeServer"

definition echo_req :: reqMsg where
  "echo_req = \<lparr>req_endname = ''e'', req_svcMeth = ''Echo.Do'', req_args = [1, 2]\<rparr>"

definition echo_net :: Network where
  "echo_net = Enable ''e'' True (Connect ''e'' (StrName ''s'') (AddServer (StrName ''s'') 0 (the (MakeEnd ''e'' MakeNetwork))))"

definition echo_world :: "nat world" where
  "echo_world = set_flight 7 (take_request echo_req echo_net) ((first_world [0 \<mapsto> echo_server] 0)\<lparr>w_net := echo_net\<rparr>)"

lemma echo_run:
  "rpc_run [Some (OpMakeEnd ''e''), Some (OpAddServer (StrName ''s'') 0), Some (OpConnect ''e'' (StrName ''s'')), Some (OpEnable ''e'' True), None]
     (first_world [0 \<mapsto> echo_server] 0) echo_world"
proof -
  let ?w = "first_world [0 \<mapsto> echo_server] (0 :: nat)"
  have end_ok: "MakeEnd ''e'' MakeNetwork = Some (the (MakeEnd ''e'' MakeNetwork))"
    by (simp add: MakeEnd_def MakeNetwork_def)
  let ?n1 = "the (MakeEnd ''e'' MakeNetwork)"
  let ?n2 = "AddServer (StrName ''s'') 0 ?n1" and ?n3 = "Connect ''e'' (StrName ''s'') (AddServer (StrName ''s'') 0 ?n1)"
  have "rpc_step (Some (OpMakeEnd ''e'')) ?w (?w\<lparr>w_net := ?n1\<rparr>)"
    by (rule rpc_step.oper) (simp add: first_world_def end_ok [symmetric])
  moreover have "rpc_step (Some (OpAddServer (StrName ''s'') 0)) (?w\<lparr>w_net := ?n1\<rparr>) (?w\<lparr>w_net := ?n2\<rparr>)"
    using rpc_step.oper [of "OpAddServer (StrName ''s'') 0" "?w\<lparr>w_net := ?n1\<rparr>" ?n2] by simp
  moreover have "rpc_step (Some (OpConnect ''e'' (StrName ''s''))) (?w\<lparr>w_net := ?n2\<rparr>) (?w\<lparr>w_net := ?n3\<rparr>)"
    using rpc_step.oper [of "OpConnect ''e'' (StrName ''s'')" "?w\<lparr>w_net := ?n2\<rparr>" ?n3] by simp
  moreover have "rpc_step (Some (OpEnable ''e'' True)) (?w\<lparr>w_net := ?n3\<rparr>) (?w\<lparr>w_net := echo_net\<rparr>)"
    using rpc_step.oper [of "OpEnable ''e'' True" "?w\<lparr>w_net := ?n3\<rparr>" echo_net] by (simp add: echo_net_def)
  moreover have "rpc_step None (?w\<lparr>w_net := echo_net\<rparr>) echo_world"
    using rpc_step.call [of "?w\<lparr>w_net := echo_net\<rparr>" 7 echo_req] by (simp add: echo_world_def first_world_def)
  ultimately show ?thesis by (blast intro: rpc_run_Cons rpc_run.none)
qed

definition echo_flight :: flight where
  "echo_flight = snd (take_request echo_req echo_net)"

lemma echo_world_flight: "w_flights echo_world 7 = Some echo_flight"
  by (simp add: echo_world_def echo_flight_def)

lemma echo_simps:
  "req_endname echo_req = ''e''" "fl_req echo_flight = echo_req" "fl_stage echo_flight = Queued" "fl_runs echo_flight = 0"
  "enabled (w_net echo_world) ''e''" "connections (w_net echo_world) ''e'' = Some (StrName ''s'')" "servers (w_net echo_world) (StrName ''s'') = Some 0"
  "reliable (w_net echo_world)" "\<not> longReordering (w_net echo_world)" "w_heap echo_world 0 = Some echo_server" "w_app echo_world = 0"
  by (simp_all add: echo_flight_def echo_world_def echo_req_def take_request_def echo_net_def Enable_def Connect_def AddServer_def
      MakeEnd_def MakeNetwork_def first_world_def)

lemma echo_route: "route (req_endname (fl_req echo_flight)) (StrName ''s'') 0 (w_net echo_world)"
  unfolding echo_simps(1,2) by (simp add: route_def echo_simps)

lemma echo_serves: "can_serve (fl_req echo_flight) echo_server"
  unfolding can_serve_def echo_simps(2)
  by (simp add: Server_dispatch_def echo_req_def echo_server_def echo_method_def MakeService_def AddService_def MakeServer_def
      idx_def slice_to_def slice_from_def Service_dispatch_def)

theorem rpc_delivers_witness:
  "\<exists>ls' w'' f'' r. rpc_run ls' echo_world w'' \<and> set ls' \<subseteq> {None} \<and> w_flights w'' 7 = Some f'' \<and> fl_stage f'' = Answered r"
  using rpc_delivers [OF echo_run echo_world_flight echo_simps(3) echo_route echo_simps(10) echo_serves rpc_run.none] by simp

theorem rpc_at_most_once_witness:
  "\<exists>ls w f r. rpc_run ls (first_world [0 \<mapsto> echo_server] 0) w \<and> w_flights w 7 = Some f \<and> fl_stage f = Answered r \<and> rep_ok r
    \<and> fl_runs f = 1 \<and> fl_ech f = Some r"
proof -
  have on: "on_way (fl_req echo_flight) (StrName ''s'') 0 7 echo_world"
    by (rule on_way_start [OF echo_run echo_world_flight echo_simps(3) refl echo_route echo_simps(10) echo_serves])
  then obtain ls w f r where w: "rpc_run ls echo_world w" "set ls \<subseteq> {None}" "w_flights w 7 = Some f" "fl_stage f = Answered r"
    using on_way_arrives by blast
  obtain f' where "w_flights w 7 = Some f'" "under_way (StrName ''s'') 0 f'" by (rule on_wayD [OF on_way_run [OF w(1,2) on]])
  then have "rep_ok r" using w(3,4) by (simp add: under_way_def)
  with rpc_at_most_once [OF rpc_run_append [OF w(1) echo_run] w(3)] w(4) have "fl_runs f = 1 \<and> fl_ech f = Some r" by simp
  with rpc_run_append [OF w(1) echo_run] w(3,4) \<open>rep_ok r\<close> show ?thesis by blast
qed

text \<open>The server is deleted while the request waits for it.\<close>

definition dead_flight :: flight where
  "dead_flight = processReq_begin 0 echo_net echo_flight"

definition dead_world :: "nat world" where
  "dead_world = set_flight 7 (DeleteServer (StrName ''s'') echo_net, dead_flight) echo_world"

lemma dead_simps: "fl_server dead_flight = Some ((StrName ''s''), 0)" "fl_stage dead_flight = Selecting" "servers (w_net dead_world) (StrName ''s'') = None"
  using echo_simps by (simp_all add: dead_flight_def dead_world_def processReq_begin_def readEndnameInfo_def DeleteServer_def echo_world_def
      take_request_def)

theorem deleted_server_silent_witness:
  "\<exists>ls w' f' r. rpc_run ls dead_world w' \<and> w_flights w' 7 = Some f' \<and> fl_stage f' = Answered r \<and> \<not> rep_ok r"
proof -
  let ?f1 = "select_timeout (StrName ''s'') 0 (w_net dead_world) dead_flight"
  let ?w1 = "set_flight 7 (w_net dead_world, ?f1) dead_world"
  let ?w2 = "set_flight 7 (processReq_end 0 0 (StrName ''s'') 0 False no_reply (w_net ?w1) ?f1) ?w1"
  have d: "w_flights dead_world 7 = Some dead_flight" by (simp add: dead_world_def)
  have f1: "?f1 = dead_flight\<lparr>fl_stage := Checking False no_reply\<rparr>"
    using dead_simps(3) by (simp add: select_timeout_def isServerDead_def)
  then have s1: "fl_stage ?f1 = Checking False no_reply" "fl_server ?f1 = Some ((StrName ''s''), 0)" by (simp_all add: dead_simps)
  have run: "rpc_run [None, None] dead_world ?w2"
    by (rule rpc_run_Cons [OF rpc_step.timeout [OF d dead_simps(2,1)] rpc_run_Cons [OF rpc_step.finish [OF _ s1] rpc_run.none]]) simp
  have ans: "w_flights ?w2 7 = Some (?f1\<lparr>fl_stage := Answered no_reply\<rparr>)" by (simp add: processReq_end_def)
  have "\<not> rep_ok no_reply"
    using deleted_server_silent [OF d dead_simps(1) _ _ run] dead_simps ans by simp
  with run ans show ?thesis by fastforce
qed

theorem dispatch_routes_witness:
  "\<exists>svc. MakeService ''Echo'' [echo_method] = Some svc
    \<and> Server_dispatch echo_req (AddService svc (MakeServer :: nat Server)) 0 =
       Some ((AddService svc MakeServer)\<lparr>srv_count := srv_count (MakeServer :: nat Server) + 1\<rparr>, fst (methFunc echo_method (req_args echo_req) 0),
         \<lparr>rep_ok = True, rep_reply = snd (methFunc echo_method (req_args echo_req) 0)\<rparr>)"
proof -
  have "suitable echo_method" "methName echo_method = ''Do''" by (simp_all add: suitable_def echo_method_def)
  moreover have "req_svcMeth echo_req = ''Echo'' @ ''.'' @ ''Do''" by (simp add: echo_req_def)
  ultimately show ?thesis
    using dispatch_routes [of "[echo_method]" "''Do''" echo_req "''Echo''" "MakeServer :: nat Server" 0] by auto
qed

end
