(* ===== verification/Clerks.thy ===== *)
theory Clerks
  imports GoText
begin

text \<open>
  The clients of the shard controller and of the sharded key-value service, \<open>src/src/shardctrler/client.go\<close>
  and \<open>src/src/shardkv/client.go\<close>, with the data of their \<open>common.go\<close>.

  A client calls the servers in turn until one of them accepts. \<open>call t srv args\<close> is what the \<open>t\<close>-th RPC,
  counted from the start, returns when it goes to \<open>srv\<close>: \<open>None\<close> is a call that returned false, otherwise
  the reply. The loops may run for ever; then the value is \<open>None\<close>. Sleeping between rounds has no effect.
\<close>

section \<open>Data\<close>

definition NShards :: int where
  "NShards = 10"

record Config =
  Num :: int
  Shards :: "int list"
  Groups :: "int \<Rightarrow> string list option"

record JoinArgs =
  joinServers :: "int \<Rightarrow> string list option"

record LeaveArgs =
  leaveGIDs :: "int list"

record MoveArgs =
  moveShard :: int
  moveGID :: int

record QueryArgs =
  queryNum :: int

text \<open>The replies of \<open>Join\<close>, \<open>Leave\<close> and \<open>Move\<close> have the same two fields.\<close>

record CtrlReply =
  WrongLeader :: bool
  ctrlErr :: string

record QueryReply = CtrlReply +
  replyConfig :: Config

section \<open>The client of the shard controller\<close>

fun Query_round :: "(nat \<Rightarrow> 'e \<Rightarrow> QueryArgs \<Rightarrow> QueryReply option) \<Rightarrow> QueryArgs \<Rightarrow> 'e list \<Rightarrow> nat \<Rightarrow> Config option \<times> nat" where
  "Query_round call args [] t = (None, t)"
| "Query_round call args (srv # rest) t = (case call t srv args of
     Some reply \<Rightarrow> if \<not> WrongLeader reply then (Some (replyConfig reply), t + 1) else Query_round call args rest (t + 1)
   | None \<Rightarrow> Query_round call args rest (t + 1))"

partial_function (option) Query_loop ::
  "(nat \<Rightarrow> 'e \<Rightarrow> QueryArgs \<Rightarrow> QueryReply option) \<Rightarrow> QueryArgs \<Rightarrow> 'e list \<Rightarrow> nat \<Rightarrow> (Config \<times> nat) option" where
  [code]: "Query_loop call args servers t = (case Query_round call args servers t of
     (Some c, t) \<Rightarrow> Some (c, t)
   | (None, t) \<Rightarrow> Query_loop call args servers t)"

definition Query ::
  "(nat \<Rightarrow> 'e \<Rightarrow> QueryArgs \<Rightarrow> QueryReply option) \<Rightarrow> 'e list \<Rightarrow> int \<Rightarrow> nat \<Rightarrow> (Config \<times> nat) option" where
  "Query call servers num t = Query_loop call \<lparr>queryNum = num\<rparr> servers t"

text \<open>\<open>Join\<close>, \<open>Leave\<close> and \<open>Move\<close> differ in their arguments only.\<close>

fun Join_round :: "(nat \<Rightarrow> 'e \<Rightarrow> JoinArgs \<Rightarrow> CtrlReply option) \<Rightarrow> JoinArgs \<Rightarrow> 'e list \<Rightarrow> nat \<Rightarrow> unit option \<times> nat" where
  "Join_round call args [] t = (None, t)"
| "Join_round call args (srv # rest) t = (case call t srv args of
     Some reply \<Rightarrow> if \<not> WrongLeader reply then (Some (), t + 1) else Join_round call args rest (t + 1)
   | None \<Rightarrow> Join_round call args rest (t + 1))"

partial_function (option) Join_loop ::
  "(nat \<Rightarrow> 'e \<Rightarrow> JoinArgs \<Rightarrow> CtrlReply option) \<Rightarrow> JoinArgs \<Rightarrow> 'e list \<Rightarrow> nat \<Rightarrow> (unit \<times> nat) option" where
  [code]: "Join_loop call args servers t = (case Join_round call args servers t of
     (Some c, t) \<Rightarrow> Some (c, t)
   | (None, t) \<Rightarrow> Join_loop call args servers t)"

definition Join ::
  "(nat \<Rightarrow> 'e \<Rightarrow> JoinArgs \<Rightarrow> CtrlReply option) \<Rightarrow> 'e list \<Rightarrow> (int \<Rightarrow> string list option) \<Rightarrow> nat \<Rightarrow> (unit \<times> nat) option" where
  "Join call servers groups t = Join_loop call \<lparr>joinServers = groups\<rparr> servers t"

fun Leave_round :: "(nat \<Rightarrow> 'e \<Rightarrow> LeaveArgs \<Rightarrow> CtrlReply option) \<Rightarrow> LeaveArgs \<Rightarrow> 'e list \<Rightarrow> nat \<Rightarrow> unit option \<times> nat" where
  "Leave_round call args [] t = (None, t)"
| "Leave_round call args (srv # rest) t = (case call t srv args of
     Some reply \<Rightarrow> if \<not> WrongLeader reply then (Some (), t + 1) else Leave_round call args rest (t + 1)
   | None \<Rightarrow> Leave_round call args rest (t + 1))"

partial_function (option) Leave_loop ::
  "(nat \<Rightarrow> 'e \<Rightarrow> LeaveArgs \<Rightarrow> CtrlReply option) \<Rightarrow> LeaveArgs \<Rightarrow> 'e list \<Rightarrow> nat \<Rightarrow> (unit \<times> nat) option" where
  [code]: "Leave_loop call args servers t = (case Leave_round call args servers t of
     (Some c, t) \<Rightarrow> Some (c, t)
   | (None, t) \<Rightarrow> Leave_loop call args servers t)"

definition Leave ::
  "(nat \<Rightarrow> 'e \<Rightarrow> LeaveArgs \<Rightarrow> CtrlReply option) \<Rightarrow> 'e list \<Rightarrow> int list \<Rightarrow> nat \<Rightarrow> (unit \<times> nat) option" where
  "Leave call servers gids t = Leave_loop call \<lparr>leaveGIDs = gids\<rparr> servers t"

fun Move_round :: "(nat \<Rightarrow> 'e \<Rightarrow> MoveArgs \<Rightarrow> CtrlReply option) \<Rightarrow> MoveArgs \<Rightarrow> 'e list \<Rightarrow> nat \<Rightarrow> unit option \<times> nat" where
  "Move_round call args [] t = (None, t)"
| "Move_round call args (srv # rest) t = (case call t srv args of
     Some reply \<Rightarrow> if \<not> WrongLeader reply then (Some (), t + 1) else Move_round call args rest (t + 1)
   | None \<Rightarrow> Move_round call args rest (t + 1))"

partial_function (option) Move_loop ::
  "(nat \<Rightarrow> 'e \<Rightarrow> MoveArgs \<Rightarrow> CtrlReply option) \<Rightarrow> MoveArgs \<Rightarrow> 'e list \<Rightarrow> nat \<Rightarrow> (unit \<times> nat) option" where
  [code]: "Move_loop call args servers t = (case Move_round call args servers t of
     (Some c, t) \<Rightarrow> Some (c, t)
   | (None, t) \<Rightarrow> Move_loop call args servers t)"

definition Move ::
  "(nat \<Rightarrow> 'e \<Rightarrow> MoveArgs \<Rightarrow> CtrlReply option) \<Rightarrow> 'e list \<Rightarrow> int \<Rightarrow> int \<Rightarrow> nat \<Rightarrow> (unit \<times> nat) option" where
  "Move call servers shard gid t = Move_loop call \<lparr>moveShard = shard, moveGID = gid\<rparr> servers t"

section \<open>The client of the key-value service\<close>

datatype Err = OK | ErrNoKey | ErrWrongGroup | ErrWrongLeader | OtherErr string

record GetArgs =
  getKey :: string

record GetReply =
  getErr :: Err
  getValue :: string

record PutAppendArgs =
  putKey :: string
  putValue :: string
  putOp :: string

record PutAppendReply =
  putErr :: Err

definition key2shard :: "string \<Rightarrow> int" where
  "key2shard key =
     (let shard = (if length key > 0 then of_char (key ! 0) else 0) in shard mod NShards)"

text \<open>One pass over the servers of a group; \<open>None\<close> when no server accepted or one refused the group.\<close>

fun Get_round ::
  "(nat \<Rightarrow> 'e \<Rightarrow> GetArgs \<Rightarrow> GetReply option) \<Rightarrow> (string \<Rightarrow> 'e) \<Rightarrow> GetArgs \<Rightarrow> string list \<Rightarrow> nat \<Rightarrow> string option \<times> nat" where
  "Get_round call make_end args [] t = (None, t)"
| "Get_round call make_end args (s # rest) t = (case call t (make_end s) args of
     Some reply \<Rightarrow>
       if getErr reply = OK \<or> getErr reply = ErrNoKey then (Some (getValue reply), t + 1)
       else if getErr reply = ErrWrongGroup then (None, t + 1)
       else Get_round call make_end args rest (t + 1)
   | None \<Rightarrow> Get_round call make_end args rest (t + 1))"

definition Get_group ::
  "(nat \<Rightarrow> 'e \<Rightarrow> GetArgs \<Rightarrow> GetReply option) \<Rightarrow> (string \<Rightarrow> 'e) \<Rightarrow> GetArgs \<Rightarrow> Config \<Rightarrow> nat \<Rightarrow> (string option \<times> nat) option" where
  "Get_group call make_end args cfg t = do {
     let shard = key2shard (getKey args);
     gid \<leftarrow> idx (Shards cfg) shard;
     Some (case Groups cfg gid of Some servers \<Rightarrow> Get_round call make_end args servers t | None \<Rightarrow> (None, t))
   }"

text \<open>The loop; the result has the client's new configuration. \<open>query\<close> is \<open>ck.sm.Query(-1)\<close>.\<close>

partial_function (option) Get_loop ::
  "(nat \<Rightarrow> 'e \<Rightarrow> GetArgs \<Rightarrow> GetReply option) \<Rightarrow> (string \<Rightarrow> 'e) \<Rightarrow> (nat \<Rightarrow> (Config \<times> nat) option) \<Rightarrow> GetArgs \<Rightarrow> Config \<Rightarrow> nat
     \<Rightarrow> (string \<times> Config \<times> nat) option" where
  [code]: "Get_loop call make_end query args cfg t = Option.bind (Get_group call make_end args cfg t) (\<lambda>r. case r of
     (Some v, t) \<Rightarrow> Some (v, cfg, t)
   | (None, t) \<Rightarrow> Option.bind (query t) (\<lambda>(cfg, t). Get_loop call make_end query args cfg t))"

definition Get ::
  "(nat \<Rightarrow> 'e \<Rightarrow> GetArgs \<Rightarrow> GetReply option) \<Rightarrow> (string \<Rightarrow> 'e) \<Rightarrow> (nat \<Rightarrow> (Config \<times> nat) option) \<Rightarrow> string \<Rightarrow> Config \<Rightarrow> nat
     \<Rightarrow> (string \<times> Config \<times> nat) option" where
  "Get call make_end query key cfg t = Get_loop call make_end query \<lparr>getKey = key\<rparr> cfg t"

fun PutAppend_round ::
  "(nat \<Rightarrow> 'e \<Rightarrow> PutAppendArgs \<Rightarrow> PutAppendReply option) \<Rightarrow> (string \<Rightarrow> 'e) \<Rightarrow> PutAppendArgs \<Rightarrow> string list \<Rightarrow> nat \<Rightarrow> unit option \<times> nat" where
  "PutAppend_round call make_end args [] t = (None, t)"
| "PutAppend_round call make_end args (s # rest) t = (case call t (make_end s) args of
     Some reply \<Rightarrow>
       if putErr reply = OK then (Some (), t + 1)
       else if putErr reply = ErrWrongGroup then (None, t + 1)
       else PutAppend_round call make_end args rest (t + 1)
   | None \<Rightarrow> PutAppend_round call make_end args rest (t + 1))"

definition PutAppend_group ::
  "(nat \<Rightarrow> 'e \<Rightarrow> PutAppendArgs \<Rightarrow> PutAppendReply option) \<Rightarrow> (string \<Rightarrow> 'e) \<Rightarrow> PutAppendArgs \<Rightarrow> Config \<Rightarrow> nat
     \<Rightarrow> (unit option \<times> nat) option" where
  "PutAppend_group call make_end args cfg t = do {
     let shard = key2shard (putKey args);
     gid \<leftarrow> idx (Shards cfg) shard;
     Some (case Groups cfg gid of Some servers \<Rightarrow> PutAppend_round call make_end args servers t | None \<Rightarrow> (None, t))
   }"

partial_function (option) PutAppend_loop ::
  "(nat \<Rightarrow> 'e \<Rightarrow> PutAppendArgs \<Rightarrow> PutAppendReply option) \<Rightarrow> (string \<Rightarrow> 'e) \<Rightarrow> (nat \<Rightarrow> (Config \<times> nat) option) \<Rightarrow> PutAppendArgs
     \<Rightarrow> Config \<Rightarrow> nat \<Rightarrow> (unit \<times> Config \<times> nat) option" where
  [code]: "PutAppend_loop call make_end query args cfg t = Option.bind (PutAppend_group call make_end args cfg t) (\<lambda>r. case r of
     (Some v, t) \<Rightarrow> Some (v, cfg, t)
   | (None, t) \<Rightarrow> Option.bind (query t) (\<lambda>(cfg, t). PutAppend_loop call make_end query args cfg t))"

definition PutAppend ::
  "(nat \<Rightarrow> 'e \<Rightarrow> PutAppendArgs \<Rightarrow> PutAppendReply option) \<Rightarrow> (string \<Rightarrow> 'e) \<Rightarrow> (nat \<Rightarrow> (Config \<times> nat) option) \<Rightarrow> string \<Rightarrow> string
     \<Rightarrow> string \<Rightarrow> Config \<Rightarrow> nat \<Rightarrow> (unit \<times> Config \<times> nat) option" where
  "PutAppend call make_end query key val oper cfg t =
     PutAppend_loop call make_end query \<lparr>putKey = key, putValue = val, putOp = oper\<rparr> cfg t"

definition Put ::
  "(nat \<Rightarrow> 'e \<Rightarrow> PutAppendArgs \<Rightarrow> PutAppendReply option) \<Rightarrow> (string \<Rightarrow> 'e) \<Rightarrow> (nat \<Rightarrow> (Config \<times> nat) option) \<Rightarrow> string \<Rightarrow> string
     \<Rightarrow> Config \<Rightarrow> nat \<Rightarrow> (unit \<times> Config \<times> nat) option" where
  "Put call make_end query key val cfg t = PutAppend call make_end query key val ''Put'' cfg t"

definition Append ::
  "(nat \<Rightarrow> 'e \<Rightarrow> PutAppendArgs \<Rightarrow> PutAppendReply option) \<Rightarrow> (string \<Rightarrow> 'e) \<Rightarrow> (nat \<Rightarrow> (Config \<times> nat) option) \<Rightarrow> string \<Rightarrow> string
     \<Rightarrow> Config \<Rightarrow> nat \<Rightarrow> (unit \<times> Config \<times> nat) option" where
  "Append call make_end query key val cfg t = PutAppend call make_end query key val ''Append'' cfg t"

end
