(* ===== verification/ClerksCorrect.thy ===== *)
theory ClerksCorrect
  imports Clerks
begin

text \<open>
  The clients return: if from some time on a server accepts, the loops end, with an answer that a server
  gave. The four loops of the controller's client are interpretations of one locale.
\<close>

section \<open>Retry loops\<close>

text \<open>
  A loop that runs rounds until one yields a result. The laws say that the loop unfolds, that what it
  returns is the result of a round, and that time does not go back.
\<close>

locale retry =
  fixes round :: "nat \<Rightarrow> 'r option \<times> nat"
    and loop :: "nat \<Rightarrow> ('r \<times> nat) option"
  assumes loop_unfold: "loop t = (case round t of (Some r, t') \<Rightarrow> Some (r, t') | (None, t') \<Rightarrow> loop t')"
    and loop_sound: "loop t = Some (r, t') \<Longrightarrow> \<exists>t0 \<ge> t. round t0 = (Some r, t')"
begin

lemma returns:
  assumes later: "\<forall>t. t < snd (round t)" and accept: "\<forall>t \<ge> T. fst (round t) \<noteq> None"
  shows "\<exists>r t'. loop t = Some (r, t') \<and> (\<exists>t0 \<ge> t. round t0 = (Some r, t'))"
proof -
  have "\<exists>r t'. loop t = Some (r, t')"
  proof (induction "T - t" arbitrary: t rule: less_induct)
    case less
    show ?case
    proof (cases "round t")
      case (Pair a t')
      show ?thesis
      proof (cases a)
        case None
        with Pair accept have "t < T" using not_le_imp_less [of T t] by fastforce
        moreover have "t < t'" using later Pair by (metis snd_conv)
        ultimately have "T - t' < T - t" by (rule diff_less_mono2 [rotated])
        then obtain r t'' where "loop t' = Some (r, t'')" using less by blast
        with None Pair show ?thesis by (subst loop_unfold) simp
      next
        case (Some r)
        with Pair show ?thesis by (subst loop_unfold) simp
      qed
    qed
  qed
  then show ?thesis using loop_sound by blast
qed

end

section \<open>One round\<close>

text \<open>A round asks the servers in turn until one gives an answer that \<open>acc\<close> accepts.\<close>

fun ask_round :: "(nat \<Rightarrow> 'e \<Rightarrow> 'a option) \<Rightarrow> ('a \<Rightarrow> 'r option) \<Rightarrow> 'e list \<Rightarrow> nat \<Rightarrow> 'r option \<times> nat" where
  "ask_round call acc [] t = (None, t)"
| "ask_round call acc (srv # rest) t = (case Option.bind (call t srv) acc of
     Some r \<Rightarrow> (Some r, t + 1)
   | None \<Rightarrow> ask_round call acc rest (t + 1))"

lemma ask_round_later: "t + min 1 (length servers) \<le> snd (ask_round call acc servers t)"
  by (induction call acc servers t rule: ask_round.induct) (auto split: option.splits)

lemma ask_round_accepts:
  assumes "srv \<in> set servers" and "\<forall>u \<ge> t. Option.bind (call u srv) acc \<noteq> None"
  shows "fst (ask_round call acc servers t) \<noteq> None"
  using assms by (induction call acc servers t rule: ask_round.induct) (auto split: option.splits)

lemma ask_round_sound:
  "ask_round call acc servers t = (Some r, t') \<Longrightarrow>
     \<exists>u \<ge> t. \<exists>srv \<in> set servers. t' = u + 1 \<and> Option.bind (call u srv) acc = Some r"
proof (induction call acc servers t rule: ask_round.induct)
  case (2 call acc srv rest t)
  show ?case
  proof (cases "Option.bind (call t srv) acc")
    case None
    then obtain u s where "t + 1 \<le> u" "s \<in> set rest" "t' = u + 1" "Option.bind (call u s) acc = Some r"
      using 2 by auto
    then show ?thesis by (intro exI [of _ u]) auto
  next
    case (Some x)
    then show ?thesis using "2.prems" by (intro exI [of _ t]) auto
  qed
qed simp

text \<open>The controller's client accepts every reply that is not \<open>WrongLeader\<close>.\<close>

definition leader_says :: "('a CtrlReply_scheme \<Rightarrow> 'r) \<Rightarrow> 'a CtrlReply_scheme \<Rightarrow> 'r option" where
  "leader_says f reply = (if \<not> WrongLeader reply then Some (f reply) else None)"

lemma leader_says_Some [simp]: "leader_says f reply = Some r \<longleftrightarrow> \<not> WrongLeader reply \<and> r = f reply"
  by (auto simp: leader_says_def)

section \<open>The client of the shard controller\<close>

lemma loop_step:
  fixes t :: nat
  assumes step: "(case round t of (None, t) \<Rightarrow> L t | (Some c, t) \<Rightarrow> Some (c, t)) = Some y"
    and IH: "\<And>t y. L t = Some y \<Longrightarrow> \<exists>t0 \<ge> t. round t0 = (Some (fst y), snd y)" and later: "t \<le> snd (round t)"
  shows "\<exists>t0 \<ge> t. round t0 = (Some (fst y), snd y)"
proof (cases "round t")
  case (Pair a t')
  show ?thesis
  proof (cases a)
    case None
    with Pair step have "L t' = Some y" by simp
    from IH [OF this] obtain t0 where "t' \<le> t0" "round t0 = (Some (fst y), snd y)" by blast
    with Pair later show ?thesis by (intro exI [of _ t0]) auto
  next
    case (Some c)
    with Pair step show ?thesis by auto
  qed
qed

lemma Query_round_ask: "Query_round call args servers t = ask_round (\<lambda>t srv. call t srv args) (leader_says replyConfig) servers t"
  by (induction call args servers t rule: Query_round.induct) (auto simp: leader_says_def split: option.splits)

lemma Join_round_ask: "Join_round call args servers t = ask_round (\<lambda>t srv. call t srv args) (leader_says (\<lambda>_. ())) servers t"
  by (induction call args servers t rule: Join_round.induct) (auto simp: leader_says_def split: option.splits)

lemma Leave_round_ask: "Leave_round call args servers t = ask_round (\<lambda>t srv. call t srv args) (leader_says (\<lambda>_. ())) servers t"
  by (induction call args servers t rule: Leave_round.induct) (auto simp: leader_says_def split: option.splits)

lemma Move_round_ask: "Move_round call args servers t = ask_round (\<lambda>t srv. call t srv args) (leader_says (\<lambda>_. ())) servers t"
  by (induction call args servers t rule: Move_round.induct) (auto simp: leader_says_def split: option.splits)

lemma Query_loop_sound:
  assumes "Query_loop call args servers t = Some y"
  shows "\<exists>t0 \<ge> t. Query_round call args servers t0 = (Some (fst y), snd y)"
  using _ assms
proof (rule Query_loop.raw_induct [where P = "\<lambda>call args servers t y. \<exists>t0 \<ge> t. Query_round call args servers t0 = (Some (fst y), snd y)"])
  fix loop :: "_ \<Rightarrow> _ \<Rightarrow> 'a list \<Rightarrow> _" and call args and servers :: "'a list" and t y
  assume IH: "\<And>call args servers t y. loop call args servers t = Some y \<Longrightarrow> \<exists>t0 \<ge> t. Query_round call args servers t0 = (Some (fst y), snd y)"
    and step: "(case Query_round call args servers t of (None, t) \<Rightarrow> loop call args servers t | (Some c, t) \<Rightarrow> Some (c, t)) = Some y"
  have "t \<le> snd (Query_round call args servers t)"
    using ask_round_later [of t servers] unfolding Query_round_ask by (rule order_trans [rotated]) simp
  with step IH show "\<exists>t0 \<ge> t. Query_round call args servers t0 = (Some (fst y), snd y)" by (rule loop_step)
qed

interpretation query: retry "Query_round call args servers" "Query_loop call args servers" for call args servers
  by unfold_locales (subst Query_loop.simps, simp, use Query_loop_sound in fastforce)

lemma Join_loop_sound:
  assumes "Join_loop call args servers t = Some y"
  shows "\<exists>t0 \<ge> t. Join_round call args servers t0 = (Some (fst y), snd y)"
  using _ assms
proof (rule Join_loop.raw_induct [where P = "\<lambda>call args servers t y. \<exists>t0 \<ge> t. Join_round call args servers t0 = (Some (fst y), snd y)"])
  fix loop :: "_ \<Rightarrow> _ \<Rightarrow> 'a list \<Rightarrow> _" and call args and servers :: "'a list" and t y
  assume IH: "\<And>call args servers t y. loop call args servers t = Some y \<Longrightarrow> \<exists>t0 \<ge> t. Join_round call args servers t0 = (Some (fst y), snd y)"
    and step: "(case Join_round call args servers t of (None, t) \<Rightarrow> loop call args servers t | (Some c, t) \<Rightarrow> Some (c, t)) = Some y"
  have "t \<le> snd (Join_round call args servers t)"
    using ask_round_later [of t servers] unfolding Join_round_ask by (rule order_trans [rotated]) simp
  with step IH show "\<exists>t0 \<ge> t. Join_round call args servers t0 = (Some (fst y), snd y)" by (rule loop_step)
qed

interpretation join: retry "Join_round call args servers" "Join_loop call args servers" for call args servers
  by unfold_locales (subst Join_loop.simps, simp, use Join_loop_sound in fastforce)

lemma Leave_loop_sound:
  assumes "Leave_loop call args servers t = Some y"
  shows "\<exists>t0 \<ge> t. Leave_round call args servers t0 = (Some (fst y), snd y)"
  using _ assms
proof (rule Leave_loop.raw_induct [where P = "\<lambda>call args servers t y. \<exists>t0 \<ge> t. Leave_round call args servers t0 = (Some (fst y), snd y)"])
  fix loop :: "_ \<Rightarrow> _ \<Rightarrow> 'a list \<Rightarrow> _" and call args and servers :: "'a list" and t y
  assume IH: "\<And>call args servers t y. loop call args servers t = Some y \<Longrightarrow> \<exists>t0 \<ge> t. Leave_round call args servers t0 = (Some (fst y), snd y)"
    and step: "(case Leave_round call args servers t of (None, t) \<Rightarrow> loop call args servers t | (Some c, t) \<Rightarrow> Some (c, t)) = Some y"
  have "t \<le> snd (Leave_round call args servers t)"
    using ask_round_later [of t servers] unfolding Leave_round_ask by (rule order_trans [rotated]) simp
  with step IH show "\<exists>t0 \<ge> t. Leave_round call args servers t0 = (Some (fst y), snd y)" by (rule loop_step)
qed

interpretation leave: retry "Leave_round call args servers" "Leave_loop call args servers" for call args servers
  by unfold_locales (subst Leave_loop.simps, simp, use Leave_loop_sound in fastforce)

lemma Move_loop_sound:
  assumes "Move_loop call args servers t = Some y"
  shows "\<exists>t0 \<ge> t. Move_round call args servers t0 = (Some (fst y), snd y)"
  using _ assms
proof (rule Move_loop.raw_induct [where P = "\<lambda>call args servers t y. \<exists>t0 \<ge> t. Move_round call args servers t0 = (Some (fst y), snd y)"])
  fix loop :: "_ \<Rightarrow> _ \<Rightarrow> 'a list \<Rightarrow> _" and call args and servers :: "'a list" and t y
  assume IH: "\<And>call args servers t y. loop call args servers t = Some y \<Longrightarrow> \<exists>t0 \<ge> t. Move_round call args servers t0 = (Some (fst y), snd y)"
    and step: "(case Move_round call args servers t of (None, t) \<Rightarrow> loop call args servers t | (Some c, t) \<Rightarrow> Some (c, t)) = Some y"
  have "t \<le> snd (Move_round call args servers t)"
    using ask_round_later [of t servers] unfolding Move_round_ask by (rule order_trans [rotated]) simp
  with step IH show "\<exists>t0 \<ge> t. Move_round call args servers t0 = (Some (fst y), snd y)" by (rule loop_step)
qed

interpretation move: retry "Move_round call args servers" "Move_loop call args servers" for call args servers
  by unfold_locales (subst Move_loop.simps, simp, use Move_loop_sound in fastforce)

text \<open>The rounds of all four go on in time and end once a server accepts.\<close>

lemma ask_round_live:
  assumes "srv \<in> set servers" and "\<forall>u \<ge> T. \<exists>reply. call u srv = Some reply \<and> \<not> WrongLeader reply"
  shows "\<forall>t. t < snd (ask_round call (leader_says f) servers t)"
    and "\<forall>t \<ge> T. fst (ask_round call (leader_says f) servers t) \<noteq> None"
proof -
  have "servers \<noteq> []" using assms(1) by auto
  then show "\<forall>t. t < snd (ask_round call (leader_says f) servers t)"
    using ask_round_later [of _ servers call "leader_says f"] by (auto simp: min_def Suc_le_eq split: if_splits)
  have "fst (ask_round call (leader_says f) servers t) \<noteq> None" if "T \<le> t" for t
  proof (rule ask_round_accepts [OF assms(1)], intro allI impI)
    fix u assume "t \<le> u"
    with that assms(2) obtain reply where "call u srv = Some reply" "\<not> WrongLeader reply" using order_trans by blast
    then show "Option.bind (call u srv) (leader_says f) \<noteq> None" by (simp add: leader_says_def)
  qed
  then show "\<forall>t \<ge> T. fst (ask_round call (leader_says f) servers t) \<noteq> None" by blast
qed

lemma Query_sound:
  assumes "Query call servers num t = Some (c, t')"
  shows "\<exists>u \<ge> t. t' = u + 1 \<and> (\<exists>srv \<in> set servers. \<exists>reply. call u srv \<lparr>queryNum = num\<rparr> = Some reply
    \<and> \<not> WrongLeader reply \<and> c = replyConfig reply)"
proof -
  obtain t0 where "t \<le> t0" and ask: "ask_round (\<lambda>t srv. call t srv \<lparr>queryNum = num\<rparr>) (leader_says replyConfig) servers t0 = (Some c, t')"
    using Query_loop_sound [OF assms [unfolded Query_def]] unfolding Query_round_ask by auto
  moreover obtain u srv where "t0 \<le> u" "t' = u + 1" "srv \<in> set servers"
    "Option.bind (call u srv \<lparr>queryNum = num\<rparr>) (leader_says replyConfig) = Some c"
    using ask_round_sound [OF ask] by blast
  ultimately show ?thesis by (intro exI [of _ u]) (auto simp: bind_eq_Some_conv)
qed

text \<open>
  \<open>Query\<close> returns. If from some time on one of the servers answers every call and is the leader, then
  \<open>Query\<close> returns, whatever the servers said before, and the configuration it returns is one that a server
  sent in a reply that was not \<open>WrongLeader\<close>.
\<close>

theorem Query_returns:
  assumes "srv \<in> set servers"
    and "\<forall>u \<ge> T. \<exists>reply. call u srv \<lparr>queryNum = num\<rparr> = Some reply \<and> \<not> WrongLeader reply"
  shows "\<exists>c t'. Query call servers num t = Some (c, t') \<and>
    (\<exists>u \<ge> t. \<exists>srv' \<in> set servers. \<exists>reply. call u srv' \<lparr>queryNum = num\<rparr> = Some reply \<and> \<not> WrongLeader reply \<and> c = replyConfig reply)"
proof -
  obtain c t' where q: "Query call servers num t = Some (c, t')"
    using query.returns [of call "\<lparr>queryNum = num\<rparr>" servers T t]
      ask_round_live [where call = "\<lambda>u srv. call u srv \<lparr>queryNum = num\<rparr>" and f = replyConfig, OF assms]
    unfolding Query_round_ask Query_def by blast
  with Query_sound [OF q] show ?thesis by blast
qed

text \<open>
  \<open>Join\<close>, \<open>Leave\<close> and \<open>Move\<close> return under the same condition, and not before a server has accepted
  the call.
\<close>

theorem ctrl_calls_return:
  assumes "srv \<in> set servers"
    and join: "\<forall>u \<ge> T. \<exists>reply. jcall u srv \<lparr>joinServers = groups\<rparr> = Some reply \<and> \<not> WrongLeader reply"
    and leave: "\<forall>u \<ge> T. \<exists>reply. lcall u srv \<lparr>leaveGIDs = gids\<rparr> = Some reply \<and> \<not> WrongLeader reply"
    and move: "\<forall>u \<ge> T. \<exists>reply. mcall u srv \<lparr>moveShard = shard, moveGID = gid\<rparr> = Some reply \<and> \<not> WrongLeader reply"
  shows "(\<exists>t'. Join jcall servers groups t = Some ((), t') \<and> (\<exists>u < t'. \<exists>srv' \<in> set servers. \<exists>reply.
        t \<le> u \<and> jcall u srv' \<lparr>joinServers = groups\<rparr> = Some reply \<and> \<not> WrongLeader reply))
    \<and> (\<exists>t'. Leave lcall servers gids t = Some ((), t') \<and> (\<exists>u < t'. \<exists>srv' \<in> set servers. \<exists>reply.
        t \<le> u \<and> lcall u srv' \<lparr>leaveGIDs = gids\<rparr> = Some reply \<and> \<not> WrongLeader reply))
    \<and> (\<exists>t'. Move mcall servers shard gid t = Some ((), t') \<and> (\<exists>u < t'. \<exists>srv' \<in> set servers. \<exists>reply.
        t \<le> u \<and> mcall u srv' \<lparr>moveShard = shard, moveGID = gid\<rparr> = Some reply \<and> \<not> WrongLeader reply))"
proof -
  have said: "\<exists>u < t'. \<exists>srv' \<in> set servers. \<exists>reply. t \<le> u \<and> call u srv' = Some reply \<and> \<not> WrongLeader reply"
    if t0: "t \<le> t0" and ask: "ask_round call (leader_says (\<lambda>_. ())) servers t0 = (Some (), t')"
    for call :: "nat \<Rightarrow> 'a \<Rightarrow> CtrlReply option" and t0 t'
  proof -
    obtain u srv' where "t0 \<le> u" "srv' \<in> set servers" "t' = u + 1" "Option.bind (call u srv') (leader_says (\<lambda>_. ())) = Some ()"
      using ask_round_sound [OF ask] by blast
    with t0 show ?thesis by (intro exI [of _ u]) (auto simp: bind_eq_Some_conv)
  qed
  obtain t0 u0 where "Join_loop jcall \<lparr>joinServers = groups\<rparr> servers t = Some ((), t0)" "t \<le> u0"
    "ask_round (\<lambda>u srv. jcall u srv \<lparr>joinServers = groups\<rparr>) (leader_says (\<lambda>_. ())) servers u0 = (Some (), t0)"
    using join.returns [of jcall "\<lparr>joinServers = groups\<rparr>" servers T t]
      ask_round_live [where call = "\<lambda>u srv. jcall u srv \<lparr>joinServers = groups\<rparr>" and f = "\<lambda>_. ()", OF assms(1) join]
    unfolding Join_round_ask by auto
  then have Join: "\<exists>t'. Join jcall servers groups t = Some ((), t') \<and> (\<exists>u < t'. \<exists>srv' \<in> set servers. \<exists>reply.
      t \<le> u \<and> jcall u srv' \<lparr>joinServers = groups\<rparr> = Some reply \<and> \<not> WrongLeader reply)"
    using said [of u0 "\<lambda>u srv. jcall u srv \<lparr>joinServers = groups\<rparr>" t0] unfolding Join_def by blast
  obtain t1 u1 where "Leave_loop lcall \<lparr>leaveGIDs = gids\<rparr> servers t = Some ((), t1)" "t \<le> u1"
    "ask_round (\<lambda>u srv. lcall u srv \<lparr>leaveGIDs = gids\<rparr>) (leader_says (\<lambda>_. ())) servers u1 = (Some (), t1)"
    using leave.returns [of lcall "\<lparr>leaveGIDs = gids\<rparr>" servers T t]
      ask_round_live [where call = "\<lambda>u srv. lcall u srv \<lparr>leaveGIDs = gids\<rparr>" and f = "\<lambda>_. ()", OF assms(1) leave]
    unfolding Leave_round_ask by auto
  then have Leave: "\<exists>t'. Leave lcall servers gids t = Some ((), t') \<and> (\<exists>u < t'. \<exists>srv' \<in> set servers. \<exists>reply.
      t \<le> u \<and> lcall u srv' \<lparr>leaveGIDs = gids\<rparr> = Some reply \<and> \<not> WrongLeader reply)"
    using said [of u1 "\<lambda>u srv. lcall u srv \<lparr>leaveGIDs = gids\<rparr>" t1] unfolding Leave_def by blast
  obtain t2 u2 where "Move_loop mcall \<lparr>moveShard = shard, moveGID = gid\<rparr> servers t = Some ((), t2)" "t \<le> u2"
    "ask_round (\<lambda>u srv. mcall u srv \<lparr>moveShard = shard, moveGID = gid\<rparr>) (leader_says (\<lambda>_. ())) servers u2 = (Some (), t2)"
    using move.returns [of mcall "\<lparr>moveShard = shard, moveGID = gid\<rparr>" servers T t]
      ask_round_live [where call = "\<lambda>u srv. mcall u srv \<lparr>moveShard = shard, moveGID = gid\<rparr>" and f = "\<lambda>_. ()", OF assms(1) move]
    unfolding Move_round_ask by auto
  then have Move: "\<exists>t'. Move mcall servers shard gid t = Some ((), t') \<and> (\<exists>u < t'. \<exists>srv' \<in> set servers. \<exists>reply.
      t \<le> u \<and> mcall u srv' \<lparr>moveShard = shard, moveGID = gid\<rparr> = Some reply \<and> \<not> WrongLeader reply)"
    using said [of u2 "\<lambda>u srv. mcall u srv \<lparr>moveShard = shard, moveGID = gid\<rparr>" t2] unfolding Move_def by blast
  from Join Leave Move show ?thesis by blast
qed

section \<open>The client of the key-value service\<close>

lemma key2shard_range: "0 \<le> key2shard key \<and> key2shard key < NShards"
  by (simp add: key2shard_def NShards_def)

definition found :: "GetReply \<Rightarrow> bool" where
  "found reply \<longleftrightarrow> getErr reply = OK \<or> getErr reply = ErrNoKey"

lemma Get_round_later: "t \<le> snd (Get_round call make_end args servers t)"
proof (induction call make_end args servers t rule: Get_round.induct)
  case (2 call make_end args s rest t)
  then show ?case by (fastforce split: option.splits)
qed simp

lemma Get_round_time: "Get_round call make_end args servers t = (r, t') \<Longrightarrow> t \<le> t'"
  using Get_round_later [of t call make_end args servers] by simp

lemma Get_round_accepts:
  assumes "s \<in> set servers" and "\<forall>u \<ge> t. \<exists>reply. call u (make_end s) args = Some reply \<and> found reply"
    and "\<forall>u \<ge> t. \<forall>s' \<in> set servers. \<forall>reply. call u (make_end s') args = Some reply \<longrightarrow> getErr reply \<noteq> ErrWrongGroup"
  shows "fst (Get_round call make_end args servers t) \<noteq> None"
  using assms
proof (induction call make_end args servers t rule: Get_round.induct)
  case (2 call make_end args s' rest t)
  have later: "\<forall>u \<ge> t + 1. \<exists>reply. call u (make_end s) args = Some reply \<and> found reply"
    "\<forall>u \<ge> t + 1. \<forall>s' \<in> set rest. \<forall>reply. call u (make_end s') args = Some reply \<longrightarrow> getErr reply \<noteq> ErrWrongGroup"
    using "2.prems"(2,3) by (auto dest: Suc_leD)
  show ?case
  proof (cases "call t (make_end s') args")
    case None
    then have "s \<noteq> s'" using "2.prems"(2) by auto
    with None "2.IH" "2.prems"(1) later show ?thesis by simp
  next
    case (Some reply)
    then have "getErr reply \<noteq> ErrWrongGroup" using "2.prems"(3) by auto
    moreover have "s = s' \<longrightarrow> found reply" using Some "2.prems"(2) by fastforce
    ultimately show ?thesis using Some "2.IH" "2.prems"(1) later by (auto simp: found_def)
  qed
qed simp

lemma Get_round_sound:
  "Get_round call make_end args servers t = (Some v, t') \<Longrightarrow>
     \<exists>u \<ge> t. \<exists>s \<in> set servers. \<exists>reply. call u (make_end s) args = Some reply \<and> found reply \<and> v = getValue reply"
proof (induction call make_end args servers t rule: Get_round.induct)
  case (2 call make_end args s rest t)
  then show ?case by (fastforce simp: found_def split: option.splits if_splits dest: Suc_leD)
qed simp

text \<open>The reply that a client in configuration \<open>cfg\<close> takes its answer from.\<close>

definition served :: "(nat \<Rightarrow> 'e \<Rightarrow> GetArgs \<Rightarrow> GetReply option) \<Rightarrow> (string \<Rightarrow> 'e) \<Rightarrow> string \<Rightarrow> Config \<Rightarrow> string \<Rightarrow> bool" where
  "served call make_end key cfg v \<longleftrightarrow> (\<exists>servers u s reply. Groups cfg (Shards cfg ! nat (key2shard key)) = Some servers
     \<and> s \<in> set servers \<and> call u (make_end s) \<lparr>getKey = key\<rparr> = Some reply \<and> found reply \<and> v = getValue reply)"

lemma Get_group_eq:
  assumes "length (Shards cfg) = 10"
  shows "Get_group call make_end \<lparr>getKey = key\<rparr> cfg t = Some (case Groups cfg (Shards cfg ! nat (key2shard key)) of
    Some servers \<Rightarrow> Get_round call make_end \<lparr>getKey = key\<rparr> servers t | None \<Rightarrow> (None, t))"
  using assms key2shard_range [of key] by (simp add: Get_group_def idx_def NShards_def)

text \<open>One turn of the loop, in a configuration with all its shards.\<close>

lemma Get_turn:
  assumes "length (Shards cfg) = 10"
  obtains (answer) v t' where "Get call make_end query key cfg t = Some (v, cfg, t')" "served call make_end key cfg v"
  | (again) t1 where "t \<le> t1" "Get call make_end query key cfg t = Option.bind (query t1) (\<lambda>(cfg, t). Get call make_end query key cfg t)"
      "\<And>servers. Groups cfg (Shards cfg ! nat (key2shard key)) = Some servers \<Longrightarrow>
         fst (Get_round call make_end \<lparr>getKey = key\<rparr> servers t) = None"
proof -
  obtain r t1 where g: "Get_group call make_end \<lparr>getKey = key\<rparr> cfg t = Some (r, t1)"
    using Get_group_eq [OF assms] by (metis surj_pair)
  show ?thesis
  proof (cases r)
    case None
    have "t \<le> t1" using g unfolding Get_group_eq [OF assms] by (auto split: option.splits dest: Get_round_time)
    moreover have "Get call make_end query key cfg t = Option.bind (query t1) (\<lambda>(cfg, t). Get call make_end query key cfg t)"
      unfolding Get_def by (subst Get_loop.simps) (simp add: g None)
    moreover have "fst (Get_round call make_end \<lparr>getKey = key\<rparr> servers t) = None"
      if "Groups cfg (Shards cfg ! nat (key2shard key)) = Some servers" for servers
      using g None that unfolding Get_group_eq [OF assms] by simp
    ultimately show ?thesis by (rule again)
  next
    case (Some v)
    have "served call make_end key cfg v"
      using g Some unfolding Get_group_eq [OF assms] served_def by (fastforce split: option.splits dest: Get_round_sound)
    moreover have "Get call make_end query key cfg t = Some (v, cfg, t1)"
      unfolding Get_def by (subst Get_loop.simps) (simp add: g Some)
    ultimately show ?thesis using answer by blast
  qed
qed

text \<open>
  C37. \<open>Get\<close> returns. Suppose that from some time on a controller answers as leader and all leaders agree on
  a configuration, in which the key's shard belongs to a group where one server serves the key and none
  refuses the group. Then \<open>Get\<close> returns, whatever configuration it starts with and whatever was answered
  before, and the value is the one a server of the group that its configuration names for the key
  sent with \<open>OK\<close> or \<open>ErrNoKey\<close>.
\<close>

theorem Get_returns:
  fixes qcall :: "nat \<Rightarrow> 'c \<Rightarrow> QueryArgs \<Rightarrow> QueryReply option" and call :: "nat \<Rightarrow> 'e \<Rightarrow> GetArgs \<Rightarrow> GetReply option"
  assumes ctrl: "c \<in> set ctrlers" "\<forall>u \<ge> T. \<exists>reply. qcall u c \<lparr>queryNum = -1\<rparr> = Some reply \<and> \<not> WrongLeader reply"
    and shards: "\<forall>u srv reply. qcall u srv \<lparr>queryNum = -1\<rparr> = Some reply \<longrightarrow> length (Shards (replyConfig reply)) = 10"
    and agree: "\<forall>u \<ge> T. \<forall>srv reply. qcall u srv \<lparr>queryNum = -1\<rparr> = Some reply \<and> \<not> WrongLeader reply \<longrightarrow> replyConfig reply = cfg"
    and group: "Groups cfg (Shards cfg ! nat (key2shard key)) = Some servers" "s \<in> set servers"
    and serves: "\<forall>u \<ge> T. \<exists>reply. call u (make_end s) \<lparr>getKey = key\<rparr> = Some reply \<and> found reply"
    and right: "\<forall>u \<ge> T. \<forall>s' \<in> set servers. \<forall>reply. call u (make_end s') \<lparr>getKey = key\<rparr> = Some reply \<longrightarrow> getErr reply \<noteq> ErrWrongGroup"
    and first: "length (Shards cfg0) = 10"
  shows "\<exists>v cfg' t'. Get call make_end (Query qcall ctrlers (-1)) key cfg0 t = Some (v, cfg', t') \<and> served call make_end key cfg' v"
  using first
proof (induction "T - t" arbitrary: t cfg0 rule: less_induct)
  case less
  show ?case
    using less.prems
  proof (cases rule: Get_turn [where call = call and make_end = make_end and query = "Query qcall ctrlers (-1)" and key = key and t = t])
    case (again t1)
    obtain c1 t2 where q: "Query qcall ctrlers (-1) t1 = Some (c1, t2)"
      using query.returns [of qcall "\<lparr>queryNum = -1\<rparr>" ctrlers T t1]
        ask_round_live [where call = "\<lambda>u srv. qcall u srv \<lparr>queryNum = -1\<rparr>" and f = replyConfig, OF ctrl]
      unfolding Query_round_ask Query_def by blast
    then obtain u srv reply where u: "t1 \<le> u" "t2 = u + 1" "qcall u srv \<lparr>queryNum = -1\<rparr> = Some reply"
      "\<not> WrongLeader reply" "c1 = replyConfig reply" using Query_sound by blast
    have len: "length (Shards c1) = 10" using shards u(3,5) by blast
    have next_turn: "Get call make_end (Query qcall ctrlers (-1)) key cfg0 t = Get call make_end (Query qcall ctrlers (-1)) key c1 t2"
      unfolding again(2) q by simp
    show ?thesis
    proof (cases "T \<le> u")
      case True
      then have "c1 = cfg" using agree u(3-5) by blast
      have later: "T \<le> v" if "t2 \<le> v" for v using True u(2) that by simp
      have "fst (Get_round call make_end \<lparr>getKey = key\<rparr> servers t2) \<noteq> None"
        by (rule Get_round_accepts [OF group(2)]) (use serves right later in blast)+
      with len \<open>c1 = cfg\<close> group(1) show ?thesis unfolding next_turn
        by (cases rule: Get_turn [where cfg = c1 and call = call and make_end = make_end
              and query = "Query qcall ctrlers (-1)" and key = key and t = t2]) auto
    next
      case False
      then have "T - t2 < T - t" using again(1) u(1,2) by simp
      from less.hyps [OF this len] show ?thesis unfolding next_turn .
    qed
  qed blast
qed

section \<open>Witnesses\<close>

text \<open>Three controllers, of which the last is the leader from the fourth call on, and one group with two servers.\<close>

definition w_cfg :: Config where
  "w_cfg = \<lparr>Num = 1, Shards = replicate 10 7, Groups = [7 \<mapsto> [''a'', ''b'']]\<rparr>"

definition w_ctrl :: "nat \<Rightarrow> nat \<Rightarrow> QueryArgs \<Rightarrow> QueryReply option" where
  "w_ctrl u srv args = (if u < 4 then None else Some \<lparr>WrongLeader = (srv \<noteq> 2), ctrlErr = [], replyConfig = w_cfg\<rparr>)"

definition w_change :: "nat \<Rightarrow> nat \<Rightarrow> 'a \<Rightarrow> CtrlReply option" where
  "w_change u srv args = (if u < 4 then None else Some \<lparr>WrongLeader = (srv \<noteq> 2), ctrlErr = []\<rparr>)"

definition w_get :: "nat \<Rightarrow> string \<Rightarrow> GetArgs \<Rightarrow> GetReply option" where
  "w_get u srv args = Some (if srv = ''b'' then \<lparr>getErr = OK, getValue = ''v''\<rparr> else \<lparr>getErr = ErrWrongLeader, getValue = []\<rparr>)"

theorem Query_returns_witness: "\<exists>c t'. Query w_ctrl [0, 1, 2] 5 0 = Some (c, t')"
  using Query_returns [of 2 "[0, 1, 2]" 4 w_ctrl 5 0] by (auto simp: w_ctrl_def)

theorem ctrl_calls_return_witness:
  "\<exists>t1 t2 t3. Join w_change [0, 1, 2] [7 \<mapsto> [''a'']] 0 = Some ((), t1) \<and> Leave w_change [0, 1, 2] [7] 0 = Some ((), t2)
    \<and> Move w_change [0, 1, 2] 3 7 0 = Some ((), t3)"
  using ctrl_calls_return [where srv = 2 and T = 4 and servers = "[0, 1, 2]" and jcall = w_change and lcall = w_change
      and mcall = w_change and groups = "[7 \<mapsto> [''a'']]" and gids = "[7]" and shard = 3 and gid = 7 and t = 0]
  by (auto simp: w_change_def)

theorem Get_returns_witness:
  "\<exists>v cfg' t'. Get w_get (\<lambda>s. s) (Query w_ctrl [0, 1, 2] (-1)) ''key'' \<lparr>Num = 0, Shards = replicate 10 0, Groups = Map.empty\<rparr> 0
      = Some (v, cfg', t') \<and> served w_get (\<lambda>s. s) ''key'' cfg' v"
proof (rule Get_returns [where c = 2 and T = 4 and cfg = w_cfg and servers = "[''a'', ''b'']" and s = "''b''"])
  show "Groups w_cfg (Shards w_cfg ! nat (key2shard ''key'')) = Some [''a'', ''b'']"
    using key2shard_range [of "''key''"] by (simp add: w_cfg_def NShards_def nat_less_iff)
qed (simp_all add: w_ctrl_def w_cfg_def w_get_def found_def)

end
