(* ===== verification/LabGob.thy ===== *)
theory LabGob
  imports GoText
begin

text \<open>
  The checks that \<open>src/src/labgob/labgob.go\<close> puts in front of \<open>encoding/gob\<close>.

  Types refer to each other and may be recursive, so a type is a number and \<open>env\<close> says what
  \<open>reflect\<close> reports of it. The package variables \<open>checked\<close> and \<open>errorCount\<close> are the state. \<open>unicode.IsUpper\<close> reads
  the Unicode tables and is an argument; so is \<open>gob\<close> itself. Fuel bounds the depth of the recursion of
  \<open>checkType\<close>; more fuel than there are unchecked types is always enough.
\<close>

section \<open>Types\<close>

datatype rkind = StructK "(string \<times> nat) list" | ElemK nat | MapK nat nat | BasicK

type_synonym gob_state = "nat list \<times> int"

definition DecodeRuneInString :: "string \<Rightarrow> nat" where
  "DecodeRuneInString s = (if s = [] then RuneError else fst (DecodeRune s))"

definition lower_case :: "(nat \<Rightarrow> bool) \<Rightarrow> string \<Rightarrow> bool" where
  "lower_case isUpper name \<longleftrightarrow> \<not> isUpper (DecodeRuneInString name)"

fun checkType :: "(nat \<Rightarrow> bool) \<Rightarrow> (nat \<Rightarrow> rkind) \<Rightarrow> nat \<Rightarrow> nat \<Rightarrow> gob_state \<Rightarrow> gob_state option"
  and checkFields :: "(nat \<Rightarrow> bool) \<Rightarrow> (nat \<Rightarrow> rkind) \<Rightarrow> nat \<Rightarrow> (string \<times> nat) list \<Rightarrow> gob_state \<Rightarrow> gob_state option" where
  "checkType isUpper env 0 t st = None"
| "checkType isUpper env (Suc n) t (checked, errorCount) =
     (if t \<in> set checked then Some (checked, errorCount)
      else case env t of
        StructK fields \<Rightarrow> checkFields isUpper env n fields (t # checked, errorCount)
      | ElemK e \<Rightarrow> checkType isUpper env n e (t # checked, errorCount)
      | MapK k e \<Rightarrow> do {
          st \<leftarrow> checkType isUpper env n e (t # checked, errorCount);
          checkType isUpper env n k st
        }
      | BasicK \<Rightarrow> Some (t # checked, errorCount))"
| "checkFields isUpper env n [] st = Some st"
| "checkFields isUpper env n ((name, ft) # fields) (checked, errorCount) = do {
     st \<leftarrow> checkType isUpper env n ft (checked, if lower_case isUpper name then errorCount + 1 else errorCount);
     checkFields isUpper env n fields st
   }"

text \<open>\<open>reflect.TypeOf\<close> of a nil interface is a nil type, and its \<open>Kind\<close> panics.\<close>

definition checkValue :: "(nat \<Rightarrow> bool) \<Rightarrow> (nat \<Rightarrow> rkind) \<Rightarrow> nat \<Rightarrow> nat option \<Rightarrow> gob_state \<Rightarrow> gob_state option" where
  "checkValue isUpper env n typ st = do { t \<leftarrow> typ; checkType isUpper env n t st }"

section \<open>Values\<close>

text \<open>
  What \<open>checkDefault1\<close> sees of a value: the fields of a struct, the target of a pointer, whether a
  basic value is the zero of its type (with the type's name), or something it ignores.
\<close>

datatype gval = VStruct "(string \<times> gval) list" | VPtr "gval option" | VBasic string bool | VOther

text \<open>The count and the warnings printed, the latest first.\<close>

type_synonym default_state = "int \<times> string list"

definition warn_default :: "string \<Rightarrow> string \<Rightarrow> default_state \<Rightarrow> default_state" where
  "warn_default name tname st =
     (let what = (if name = [] then tname else name)
      in (fst st + 1, if fst st < 1 then what # snd st else snd st))"

fun checkDefault1 :: "gval \<Rightarrow> int \<Rightarrow> string \<Rightarrow> default_state \<Rightarrow> default_state"
  and checkDefault_fields :: "(string \<times> gval) list \<Rightarrow> int \<Rightarrow> string \<Rightarrow> default_state \<Rightarrow> default_state" where
  "checkDefault1 (VStruct fields) depth name st = (if depth > 3 then st else checkDefault_fields fields depth name st)"
| "checkDefault1 (VPtr p) depth name st =
     (if depth > 3 then st else case p of None \<Rightarrow> st | Some v \<Rightarrow> checkDefault1 v (depth + 1) name st)"
| "checkDefault1 (VBasic tname zero) depth name st =
     (if depth > 3 then st else if \<not> zero then warn_default name tname st else st)"
| "checkDefault1 VOther depth name st = st"
| "checkDefault_fields [] depth name st = st"
| "checkDefault_fields ((fname, v) # fields) depth name st =
     checkDefault_fields fields depth name
       (checkDefault1 v (depth + 1) (if name \<noteq> [] then name @ ''.'' @ fname else fname) st)"

definition checkDefault :: "gval option \<Rightarrow> default_state \<Rightarrow> default_state" where
  "checkDefault val st = (case val of None \<Rightarrow> st | Some v \<Rightarrow> checkDefault1 v 1 [] st)"

section \<open>Encoders\<close>

definition Encode :: "(nat \<Rightarrow> bool) \<Rightarrow> (nat \<Rightarrow> rkind) \<Rightarrow> nat \<Rightarrow> ('v \<Rightarrow> bytes option) \<Rightarrow> nat option \<Rightarrow> 'v \<Rightarrow> gob_state
  \<Rightarrow> (gob_state \<times> bytes option) option" where
  "Encode isUpper env n gob_Encode typ e st = do { st \<leftarrow> checkValue isUpper env n typ st; Some (st, gob_Encode e) }"

definition EncodeValue :: "(nat \<Rightarrow> bool) \<Rightarrow> (nat \<Rightarrow> rkind) \<Rightarrow> nat \<Rightarrow> ('v \<Rightarrow> bytes option) \<Rightarrow> nat option \<Rightarrow> 'v \<Rightarrow> gob_state
  \<Rightarrow> (gob_state \<times> bytes option) option" where
  "EncodeValue isUpper env n gob_EncodeValue typ val st = do { st \<leftarrow> checkValue isUpper env n typ st; Some (st, gob_EncodeValue val) }"

text \<open>\<open>val\<close> is what the target of the decoder holds before.\<close>

definition Decode :: "(nat \<Rightarrow> bool) \<Rightarrow> (nat \<Rightarrow> rkind) \<Rightarrow> nat \<Rightarrow> (bytes \<Rightarrow> 'v option) \<Rightarrow> nat option \<Rightarrow> gval option \<Rightarrow> bytes
  \<Rightarrow> gob_state \<times> string list \<Rightarrow> ((gob_state \<times> string list) \<times> 'v option) option" where
  "Decode isUpper env n gob_Decode typ val bs s = (case s of (st, warnings) \<Rightarrow> do {
     st \<leftarrow> checkValue isUpper env n typ st;
     let (errorCount, warnings) = checkDefault val (snd st, warnings);
     Some (((fst st, errorCount), warnings), gob_Decode bs)
   })"

definition Register :: "(nat \<Rightarrow> bool) \<Rightarrow> (nat \<Rightarrow> rkind) \<Rightarrow> nat \<Rightarrow> nat option \<Rightarrow> gob_state \<Rightarrow> gob_state option" where
  "Register isUpper env n typ st = checkValue isUpper env n typ st"

definition RegisterName :: "(nat \<Rightarrow> bool) \<Rightarrow> (nat \<Rightarrow> rkind) \<Rightarrow> nat \<Rightarrow> string \<Rightarrow> nat option \<Rightarrow> gob_state \<Rightarrow> gob_state option" where
  "RegisterName isUpper env n name typ st = checkValue isUpper env n typ st"

section \<open>Every type is checked once\<close>

fun refs :: "rkind \<Rightarrow> nat set" where
  "refs (StructK fields) = snd ` set fields"
| "refs (ElemK e) = {e}"
| "refs (MapK k e) = {k, e}"
| "refs BasicK = {}"

fun bad_fields :: "(nat \<Rightarrow> bool) \<Rightarrow> rkind \<Rightarrow> nat" where
  "bad_fields isUpper (StructK fields) = length (filter (\<lambda>(name, ft). lower_case isUpper name) fields)"
| "bad_fields isUpper _ = 0"

text \<open>The types that \<open>t\<close> is built from.\<close>

inductive_set parts_of :: "(nat \<Rightarrow> rkind) \<Rightarrow> nat \<Rightarrow> nat set" for env and t where
  self: "t \<in> parts_of env t"
| refs: "u \<in> parts_of env t \<Longrightarrow> v \<in> refs (env u) \<Longrightarrow> v \<in> parts_of env t"

text \<open>
  What a part of the check has done: it has marked the roots \<open>R\<close> and, for every type it has newly marked, all
  that type refers to, nothing else, and it has counted \<open>k\<close> fields and those of the new types.
\<close>

definition marks :: "(nat \<Rightarrow> bool) \<Rightarrow> (nat \<Rightarrow> rkind) \<Rightarrow> int \<Rightarrow> nat set \<Rightarrow> gob_state \<Rightarrow> gob_state \<Rightarrow> bool" where
  "marks isUpper env k R s s' \<longleftrightarrow> set (fst s) \<subseteq> set (fst s') \<and> R \<subseteq> set (fst s')
     \<and> (\<forall>u \<in> set (fst s') - set (fst s). refs (env u) \<subseteq> set (fst s'))
     \<and> set (fst s') - set (fst s) \<subseteq> (\<Union>r \<in> R. parts_of env r)
     \<and> snd s' = snd s + k + (\<Sum>u \<in> set (fst s') - set (fst s). int (bad_fields isUpper (env u)))"

lemma marks_none: "R \<subseteq> set (fst s) \<Longrightarrow> marks isUpper env 0 R s s"
  by (simp add: marks_def)

lemma marks_trans:
  assumes "marks isUpper env k R s s1" and "marks isUpper env k' R' s1 s2"
  shows "marks isUpper env (k + k') (R \<union> R') s s2"
proof -
  let ?f = "\<lambda>u. int (bad_fields isUpper (env u))"
  let ?c = "set (fst s)" and ?c1 = "set (fst s1)" and ?c2 = "set (fst s2)"
  have sub: "?c \<subseteq> ?c1" "?c1 \<subseteq> ?c2" using assms by (auto simp: marks_def)
  then have split: "?c2 - ?c = (?c1 - ?c) \<union> (?c2 - ?c1)" "(?c1 - ?c) \<inter> (?c2 - ?c1) = {}" by auto
  then have "sum ?f (?c2 - ?c) = sum ?f (?c1 - ?c) + sum ?f (?c2 - ?c1)"
    by (simp add: sum.union_disjoint)
  moreover have "\<forall>u \<in> ?c2 - ?c. refs (env u) \<subseteq> ?c2"
  proof
    fix u assume "u \<in> ?c2 - ?c"
    then consider "u \<in> ?c1 - ?c" | "u \<in> ?c2 - ?c1" using split(1) by blast
    then show "refs (env u) \<subseteq> ?c2" using assms sub(2) unfolding marks_def by cases blast+
  qed
  ultimately show ?thesis using assms sub unfolding marks_def split(1) by auto
qed

lemma parts_of_trans: "v \<in> parts_of env u \<Longrightarrow> u \<in> parts_of env t \<Longrightarrow> v \<in> parts_of env t"
  by (induction rule: parts_of.induct) (auto intro: parts_of.refs)

text \<open>Marking a new type \<open>t\<close> and then what it refers to.\<close>

lemma marks_new:
  assumes "t \<notin> set c" and m: "marks isUpper env k R (t # c, e) s'" and "refs (env t) = R" and "k = int (bad_fields isUpper (env t))"
  shows "marks isUpper env 0 {t} (c, e) s'"
proof -
  let ?f = "\<lambda>u. int (bad_fields isUpper (env u))"
  have t: "t \<in> set (fst s')" using m by (auto simp: marks_def)
  have new: "set (fst s') - set c = insert t (set (fst s') - set (t # c))" using t assms(1) by auto
  have sum: "sum ?f (set (fst s') - set c) = k + sum ?f (set (fst s') - set (t # c))"
    unfolding new by (subst sum.insert) (auto simp: assms(4))
  have sub: "parts_of env r \<subseteq> parts_of env t" if "r \<in> R" for r
    using that assms(3) parts_of_trans parts_of.refs [OF parts_of.self] by blast
  have M: "set (t # c) \<subseteq> set (fst s')" "R \<subseteq> set (fst s')" "\<forall>u \<in> set (fst s') - set (t # c). refs (env u) \<subseteq> set (fst s')"
    "set (fst s') - set (t # c) \<subseteq> (\<Union>r \<in> R. parts_of env r)" "snd s' = e + k + sum ?f (set (fst s') - set (t # c))"
    using m unfolding marks_def by auto
  have "set (fst s') - set c \<subseteq> parts_of env t" using M(4) sub unfolding new by (auto intro: parts_of.self)
  moreover have "\<forall>u \<in> set (fst s') - set c. refs (env u) \<subseteq> set (fst s')" using M(2,3) assms(3) unfolding new by blast
  ultimately show ?thesis using M(1,5) t unfolding marks_def sum fst_conv snd_conv by simp
qed

definition type_ok :: "(nat \<Rightarrow> bool) \<Rightarrow> (nat \<Rightarrow> rkind) \<Rightarrow> nat \<Rightarrow> nat \<Rightarrow> bool" where
  "type_ok isUpper env N n \<longleftrightarrow> (\<forall>t c e. t < N \<longrightarrow> card ({..<N} - set c) < n \<longrightarrow>
     (\<exists>s'. checkType isUpper env n t (c, e) = Some s' \<and> marks isUpper env 0 {t} (c, e) s'))"

lemma type_okD:
  assumes "type_ok isUpper env N n" and "t < N" and "card ({..<N} - set (fst s)) < n"
  obtains s' where "checkType isUpper env n t s = Some s'" "marks isUpper env 0 {t} s s'" "card ({..<N} - set (fst s')) < n"
proof -
  obtain s' where s': "checkType isUpper env n t s = Some s'" "marks isUpper env 0 {t} s s'"
    using assms unfolding type_ok_def by (metis prod.collapse)
  moreover have "card ({..<N} - set (fst s')) \<le> card ({..<N} - set (fst s))"
    using s'(2) by (intro card_mono) (auto simp: marks_def)
  ultimately show ?thesis using that assms(3) by simp
qed

lemma checkFields_ok:
  assumes ok: "type_ok isUpper env N n" and "snd ` set fields \<subseteq> {..<N}" and "card ({..<N} - set (fst s)) < n"
  shows "\<exists>s'. checkFields isUpper env n fields s = Some s'
    \<and> marks isUpper env (int (bad_fields isUpper (StructK fields))) (snd ` set fields) s s'"
  using assms(2,3)
proof (induction fields arbitrary: s)
  case Nil
  then show ?case by (cases s) (simp add: marks_none)
next
  case (Cons fd fields)
  obtain name ft where fd: "fd = (name, ft)" by (cases fd)
  define k :: int where "k = (if lower_case isUpper name then 1 else 0)"
  let ?s = "(fst s, snd s + k)"
  obtain s1 where s1: "checkType isUpper env n ft ?s = Some s1" "marks isUpper env 0 {ft} ?s s1" "card ({..<N} - set (fst s1)) < n"
    using type_okD [OF ok, of ft ?s] Cons.prems fd by auto
  obtain s2 where s2: "checkFields isUpper env n fields s1 = Some s2"
    "marks isUpper env (int (bad_fields isUpper (StructK fields))) (snd ` set fields) s1 s2"
    using Cons.IH [OF _ s1(3)] Cons.prems fd by auto
  have "marks isUpper env k {ft} s s1" using s1(2) by (auto simp: marks_def)
  from marks_trans [OF this s2(2)] have "marks isUpper env (int (bad_fields isUpper (StructK (fd # fields)))) (snd ` set (fd # fields)) s s2"
    by (cases "lower_case isUpper name") (simp_all add: fd k_def)
  moreover have "checkFields isUpper env n (fd # fields) s = Some s2"
    using s1(1) s2(1) by (cases s) (simp add: fd k_def if_distrib [of "\<lambda>k. _ + k"] cong: if_cong)
  ultimately show ?case by blast
qed

lemma checkType_ok:
  assumes closed: "\<forall>u < N. refs (env u) \<subseteq> {..<N}"
  shows "type_ok isUpper env N n"
proof (induction n)
  case (Suc n)
  have "\<exists>s'. checkType isUpper env (Suc n) t (c, e) = Some s' \<and> marks isUpper env 0 {t} (c, e) s'"
    if t: "t < N" and fuel: "card ({..<N} - set c) < Suc n" for t c e
  proof (cases "t \<in> set c")
    case True
    then show ?thesis by (simp add: marks_none)
  next
    case False
    have eq: "{..<N} - set c = insert t ({..<N} - set (t # c))" using t False by auto
    have "card ({..<N} - set c) = Suc (card ({..<N} - set (t # c)))" by (subst eq, subst card_insert_disjoint) auto
    then have fuel': "card ({..<N} - set (fst (t # c, e))) < n" using fuel by simp
    have refs: "refs (env t) \<subseteq> {..<N}" using closed t by blast
    obtain s' where "checkType isUpper env (Suc n) t (c, e) = Some s'"
      "marks isUpper env (int (bad_fields isUpper (env t))) (refs (env t)) (t # c, e) s'"
    proof (cases "env t")
      case (StructK fields)
      then show ?thesis using checkFields_ok [OF Suc _ fuel', of fields] refs False that by auto
    next
      case (ElemK x)
      then show ?thesis using type_okD [OF Suc _ fuel', of x] refs False that by auto
    next
      case (MapK k x)
      obtain s1 where s1: "checkType isUpper env n x (t # c, e) = Some s1" "marks isUpper env 0 {x} (t # c, e) s1"
        "card ({..<N} - set (fst s1)) < n" using type_okD [OF Suc _ fuel', of x] refs MapK by auto
      obtain s2 where "checkType isUpper env n k s1 = Some s2" "marks isUpper env 0 {k} s1 s2"
        using type_okD [OF Suc _ s1(3), of k] refs MapK by (metis insert_subset lessThan_iff refs.simps(3))
      with s1 MapK False marks_trans [OF s1(2)] that show ?thesis by (fastforce simp: insert_commute)
    next
      case BasicK
      then show ?thesis using False that by (simp add: marks_none)
    qed
    then show ?thesis using marks_new [OF False _ refl refl] by blast
  qed
  then show ?case by (simp add: type_ok_def)
qed (simp add: type_ok_def)

text \<open>
  C40. The check ends, visits everything and complains once. In any finite set of types, recursive or not,
  \<open>checkType\<close> returns when its fuel exceeds the number of unchecked types; if what was checked before is
  complete, then afterwards exactly the types that \<open>t\<close> is built from are checked in addition, and
  \<open>errorCount\<close> has grown by the number of lower-case fields of the newly checked structs.
\<close>

theorem checkType_complete:
  assumes closed: "\<forall>u < N. refs (env u) \<subseteq> {..<N}" and t: "t < N" and fuel: "card ({..<N} - set c) < n"
    and complete: "\<forall>u \<in> set c. refs (env u) \<subseteq> set c"
  shows "\<exists>c' e'. checkType isUpper env n t (c, e) = Some (c', e') \<and> set c' = set c \<union> parts_of env t
    \<and> e' = e + (\<Sum>u \<in> parts_of env t - set c. int (bad_fields isUpper (env u)))"
proof -
  obtain c' e' where run: "checkType isUpper env n t (c, e) = Some (c', e')" and m: "marks isUpper env 0 {t} (c, e) (c', e')"
    using checkType_ok [OF closed] t fuel unfolding type_ok_def by (metis prod.collapse)
  have down: "refs (env u) \<subseteq> set c'" if "u \<in> set c'" for u
    using m complete that unfolding marks_def by (cases "u \<in> set c") auto
  have "t \<in> set c'" using m by (simp add: marks_def)
  have all: "u \<in> set c'" if "u \<in> parts_of env t" for u
    using that
  proof induction
    case self
    then show ?case by fact
  next
    case (refs u v)
    then show ?case using down by blast
  qed
  then have set: "set c' = set c \<union> parts_of env t" using m unfolding marks_def by auto
  then have "set c' - set c = parts_of env t - set c" by auto
  then show ?thesis using run m set by (simp add: marks_def)
qed

text \<open>A list node: a struct with a lower-case field and a pointer to itself.\<close>

theorem checkType_complete_witness:
  "\<exists>c' e'. checkType (\<lambda>r. 65 \<le> r \<and> r \<le> 90) (\<lambda>u. if u = 0 then StructK [(''next'', 1), (''Val'', 2)] else if u = 1 then ElemK 0 else BasicK)
      4 0 ([], 0) = Some (c', e') \<and> e' = 1"
proof -
  let ?up = "\<lambda>r :: nat. 65 \<le> r \<and> r \<le> 90"
  let ?env = "\<lambda>u :: nat. if u = 0 then StructK [(''next'', 1), (''Val'', 2)] else if u = 1 then ElemK 0 else BasicK"
  have "\<exists>c' e'. checkType ?up ?env 4 0 ([], 0) = Some (c', e') \<and> set c' = set [] \<union> parts_of ?env 0
      \<and> e' = 0 + (\<Sum>u \<in> parts_of ?env 0 - set []. int (bad_fields ?up (?env u)))"
    by (rule checkType_complete [where N = 3]) auto
  moreover have "\<exists>c'. checkType ?up ?env 4 0 ([], 0) = Some (c', 1)" by (rule exI [of _ "[2, 1, 0]"]) code_simp
  ultimately show ?thesis by auto
qed

end
