(* ===== verification/RaftConfig.thy ===== *)
theory RaftConfig
  imports Raft LabRpc
begin

text \<open>
  The test harness of the Raft package, \<open>src/src/raft/config.go\<close>: a set of Raft servers on the
  simulated network, what each of them applied, and the checks the tests make.

  \<^item> \<open>t.Fatal\<close> and \<open>log.Fatalf\<close> end the test; like a panic they are \<open>None\<close>.
  \<^item> \<open>nil\<close> pointers and slices are \<open>None\<close>; a log is the map of its indices.
  \<^item> \<open>cfg.saved[i]\<close> is the persister that was handed to \<open>Make\<close>, so while the server runs its
    content is that of the server's persister: \<open>saved_at\<close>.
  \<^item> Random names, the clock and the address of a new server object are arguments.
  \<^item> While a check sleeps the servers go on: what they do is a function on the configuration, one for
    each sleep.
  \<^item> A server that \<open>crash1\<close> kills leaves the configuration, so the flag that its own \<open>Kill\<close> sets is not
    visible there any more.
  \<^item> The lengths of sleeps and what is printed are left out.
\<close>

section \<open>State\<close>

record 'c config =
  failed :: bool
  finished :: int
  net :: Network
  cfg_n :: nat
  rafts :: "'c Raft option list"
  applyErr :: "string list"
  connected :: "bool list"
  saved :: "Persister option list"
  endnames :: "string list option list"
  logs :: "(int \<Rightarrow> 'c command option) list"
  cfgApplied :: "int list"
  cfg_start :: int
  t0 :: int
  rpcs0 :: int
  cmds0 :: int
  bytes0 :: int
  maxIndex :: int
  maxIndex0 :: int

definition servers_of :: "'c config \<Rightarrow> int list" where
  "servers_of cfg = [0..int (cfg_n cfg) - 1]"

definition saved_at :: "'c config \<Rightarrow> int \<Rightarrow> Persister option option" where
  "saved_at cfg i = do {
     ps \<leftarrow> idx (saved cfg) i;
     rf \<leftarrow> idx (rafts cfg) i;
     Some (case (ps, rf) of (Some ps, Some rf) \<Rightarrow> Some (persister rf) | _ \<Rightarrow> ps)
   }"

text \<open>\<open>cfg.endnames[i][j]\<close>.\<close>

definition end_of :: "'c config \<Rightarrow> int \<Rightarrow> int \<Rightarrow> string option" where
  "end_of cfg i j = do { es \<leftarrow> idx (endnames cfg) i; names \<leftarrow> es; idx names j }"

text \<open>\<open>base64.URLEncoding\<close> of the random bytes, and the first \<open>n\<close> characters of it.\<close>

definition b64_char :: "nat \<Rightarrow> char" where
  "b64_char k = (if k < 26 then char_of (65 + k) else if k < 52 then char_of (71 + k)
     else if k < 62 then char_of (k - 4) else if k = 62 then CHR ''-'' else CHR ''_'')"

fun b64 :: "bytes \<Rightarrow> string" where
  "b64 [] = []"
| "b64 [a] = (let x = unat a * 65536 in
     [b64_char (x div 262144), b64_char (x div 4096 mod 64), CHR ''='', CHR ''=''])"
| "b64 [a, b] = (let x = unat a * 65536 + unat b * 256 in
     [b64_char (x div 262144), b64_char (x div 4096 mod 64), b64_char (x div 64 mod 64), CHR ''=''])"
| "b64 (a # b # c # rest) = (let x = unat a * 65536 + unat b * 256 + unat c in
     [b64_char (x div 262144), b64_char (x div 4096 mod 64), b64_char (x div 64 mod 64), b64_char (x mod 64)]
     @ b64 rest)"

definition randstring :: "bytes \<Rightarrow> int \<Rightarrow> string option" where
  "randstring b n = slice_to (b64 b) n"

section \<open>Connections\<close>

fun enable_loop :: "(int \<Rightarrow> 'c config \<Rightarrow> bool option) \<Rightarrow> (int \<Rightarrow> 'c config \<Rightarrow> string option) \<Rightarrow> bool
    \<Rightarrow> int list \<Rightarrow> 'c config \<Rightarrow> 'c config option" where
  "enable_loop cond name b [] cfg = Some cfg"
| "enable_loop cond name b (j # js) cfg = do {
     c \<leftarrow> cond j cfg;
     cfg \<leftarrow> (if c then do { endname \<leftarrow> name j cfg; Some (cfg\<lparr>net := Enable endname b (net cfg)\<rparr>) } else Some cfg);
     enable_loop cond name b js cfg
   }"

definition connect :: "int \<Rightarrow> 'c config \<Rightarrow> 'c config option" where
  "connect i cfg = do {
     cs \<leftarrow> idx_upd (connected cfg) i True;
     let cfg = cfg\<lparr>connected := cs\<rparr>;
     cfg \<leftarrow> enable_loop (\<lambda>j cfg. idx (connected cfg) j) (\<lambda>j cfg. end_of cfg i j) True (servers_of cfg) cfg;
     enable_loop (\<lambda>j cfg. idx (connected cfg) j) (\<lambda>j cfg. end_of cfg j i) True (servers_of cfg) cfg
   }"

definition has_ends :: "int \<Rightarrow> 'c config \<Rightarrow> bool option" where
  "has_ends i cfg = map_option (\<lambda>es. es \<noteq> None) (idx (endnames cfg) i)"

definition disconnect :: "int \<Rightarrow> 'c config \<Rightarrow> 'c config option" where
  "disconnect i cfg = do {
     cs \<leftarrow> idx_upd (connected cfg) i False;
     let cfg = cfg\<lparr>connected := cs\<rparr>;
     cfg \<leftarrow> enable_loop (\<lambda>j cfg. has_ends i cfg) (\<lambda>j cfg. end_of cfg i j) False (servers_of cfg) cfg;
     enable_loop (\<lambda>j cfg. has_ends j cfg) (\<lambda>j cfg. end_of cfg j i) False (servers_of cfg) cfg
   }"

definition rpcCount :: "int \<Rightarrow> (nat \<Rightarrow> 's Server option) \<Rightarrow> 'c config \<Rightarrow> int option" where
  "rpcCount server heap cfg = GetCount (IntName server) heap (net cfg)"

definition rpcTotal :: "'c config \<Rightarrow> int" where
  "rpcTotal cfg = GetTotalCount (net cfg)"

definition setunreliable :: "bool \<Rightarrow> 'c config \<Rightarrow> 'c config" where
  "setunreliable unrel cfg = cfg\<lparr>net := Reliable (\<not> unrel) (net cfg)\<rparr>"

definition bytesTotal :: "'c config \<Rightarrow> int" where
  "bytesTotal cfg = GetTotalBytes (net cfg)"

definition setlongreordering :: "bool \<Rightarrow> 'c config \<Rightarrow> 'c config" where
  "setlongreordering longrel cfg = cfg\<lparr>net := LongReordering longrel (net cfg)\<rparr>"

section \<open>What the servers apply\<close>

text \<open>\<open>err_msg\<close>; \<open>None\<close> is the empty string.\<close>

datatype 'c apply_error = Differs int int "'c command" int "'c command" | OutOfOrder int int | BadSnapshot int

fun checkLogs_loop :: "int \<Rightarrow> int \<Rightarrow> 'c command \<Rightarrow> (int \<Rightarrow> 'c command option) list \<Rightarrow> int
    \<Rightarrow> 'c apply_error option \<Rightarrow> 'c apply_error option" where
  "checkLogs_loop i k v [] j err = err"
| "checkLogs_loop i k v (lg # lgs) j err = checkLogs_loop i k v lgs (j + 1)
     (case lg k of Some old \<Rightarrow> if old \<noteq> v then Some (Differs k i v j old) else err | None \<Rightarrow> err)"

definition checkLogs :: "int \<Rightarrow> 'c ApplyMsg \<Rightarrow> 'c config \<Rightarrow> ('c config \<times> 'c apply_error option \<times> bool) option" where
  "checkLogs i m cfg = do {
     let v = amCommand m;
     let err = checkLogs_loop i (CommandIndex m) v (logs cfg) 0 None;
     lg \<leftarrow> idx (logs cfg) i;
     let prevok = lg (CommandIndex m - 1) \<noteq> None;
     lgs \<leftarrow> idx_upd (logs cfg) i (lg(CommandIndex m \<mapsto> v));
     let cfg = cfg\<lparr>logs := lgs\<rparr>;
     let cfg = (if CommandIndex m > maxIndex cfg then cfg\<lparr>maxIndex := CommandIndex m\<rparr> else cfg);
     Some (cfg, err, prevok)
   }"

text \<open>\<open>applier\<close> for one message of its channel.\<close>

definition applier :: "int \<Rightarrow> 'c ApplyMsg \<Rightarrow> 'c config \<Rightarrow> 'c config option" where
  "applier i m cfg =
     (if CommandValid m = False then Some cfg
      else do {
        (cfg, err, prevok) \<leftarrow> checkLogs i m cfg;
        let err = (if CommandIndex m > 1 \<and> prevok = False then Some (OutOfOrder i (CommandIndex m)) else err);
        (case err of None \<Rightarrow> Some cfg | Some e \<Rightarrow> None)
      })"

text \<open>
  The encoding of a snapshot (\<open>labgob\<close>): the index of the last command and the list of commands.
  \<open>dec_snap\<close> is \<open>None\<close> when one of the two \<open>Decode\<close> calls fails.
\<close>

record 'c snap_codec =
  enc_snap :: "int \<Rightarrow> 'c command list \<Rightarrow> bytes"
  dec_snap :: "bytes \<Rightarrow> (int \<times> 'c command list) option"

definition snap_codec_ok :: "'c snap_codec \<Rightarrow> bool" where
  "snap_codec_ok S \<longleftrightarrow> (\<forall>i xs. dec_snap S (enc_snap S i xs) = Some (i, xs) \<and> enc_snap S i xs \<noteq> [])"

definition ingestSnap :: "'c snap_codec \<Rightarrow> int \<Rightarrow> bytes \<Rightarrow> int \<Rightarrow> 'c config \<Rightarrow> ('c config \<times> 'c apply_error option) option" where
  "ingestSnap S i snap index cfg =
     (if snap = [] then None
      else do {
        (lastIncludedIndex, xlog) \<leftarrow> dec_snap S snap;
        if index \<noteq> -1 \<and> index \<noteq> lastIncludedIndex then Some (cfg, Some (BadSnapshot i))
        else do {
          lgs \<leftarrow> idx_upd (logs cfg) i (idx xlog);
          la \<leftarrow> idx_upd (cfgApplied cfg) i lastIncludedIndex;
          Some (cfg\<lparr>logs := lgs, cfgApplied := la\<rparr>, None)
        }
      })"

definition SnapShotInterval :: int where
  "SnapShotInterval = 10"

text \<open>The log entry of a missing key is \<open>nil\<close>.\<close>

definition entry_or_nil :: "(int \<Rightarrow> 'c command option) \<Rightarrow> int \<Rightarrow> 'c command" where
  "entry_or_nil lg j = (case lg j of None \<Rightarrow> NilCmd | Some c \<Rightarrow> c)"

text \<open>\<open>applierSnap\<close> for one message; \<open>rf\<close> is the server the goroutine was started for.\<close>

definition applierSnap ::
  "'c codec \<Rightarrow> 'c snap_codec \<Rightarrow> int \<Rightarrow> 'c ApplyMsg \<Rightarrow> 'c Raft \<times> 'c config \<Rightarrow> ('c Raft \<times> 'c config) option" where
  "applierSnap C S i m = (\<lambda>(rf, cfg). do {
     (rf, cfg, err) \<leftarrow>
       (if SnapshotValid m
        then do {
          (rf, ok) \<leftarrow> CondInstallSnapshot C (SnapshotTerm m) (SnapshotIndex m) (amSnapshot m) rf;
          if ok then do {
            (cfg, err) \<leftarrow> ingestSnap S i (amSnapshot m) (SnapshotIndex m) cfg;
            Some (rf, cfg, err)
          }
          else Some (rf, cfg, None)
        }
        else if CommandValid m
        then do {
          la \<leftarrow> idx (cfgApplied cfg) i;
          let err = (if CommandIndex m \<noteq> la + 1 then Some (OutOfOrder i (CommandIndex m)) else None);
          (cfg, err) \<leftarrow> (if err = None then do {
              (cfg, err, prevok) \<leftarrow> checkLogs i m cfg;
              Some (cfg, if CommandIndex m > 1 \<and> prevok = False then Some (OutOfOrder i (CommandIndex m)) else err)
            } else Some (cfg, err));
          las \<leftarrow> idx_upd (cfgApplied cfg) i (CommandIndex m);
          let cfg = cfg\<lparr>cfgApplied := las\<rparr>;
          lg \<leftarrow> idx (logs cfg) i;
          rf \<leftarrow> (if (CommandIndex m + 1) mod SnapShotInterval = 0
            then Snapshot C (CommandIndex m)
              (enc_snap S (CommandIndex m) (map (entry_or_nil lg) [0..CommandIndex m])) rf
            else Some rf);
          Some (rf, cfg, err)
        }
        else Some (rf, cfg, None));
     (case err of None \<Rightarrow> Some (rf, cfg) | Some e \<Rightarrow> None)
   })"

section \<open>Crashes and restarts\<close>

definition crash1 :: "int \<Rightarrow> 'c config \<Rightarrow> 'c config option" where
  "crash1 i cfg = do {
     cfg \<leftarrow> disconnect i cfg;
     let cfg = cfg\<lparr>net := DeleteServer (IntName i) (net cfg)\<rparr>;
     ps \<leftarrow> saved_at cfg i;
     sv \<leftarrow> idx_upd (saved cfg) i (map_option Persister_Copy ps);
     let cfg = cfg\<lparr>saved := sv\<rparr>;
     rf \<leftarrow> idx (rafts cfg) i;
     cfg \<leftarrow> (case rf of
         None \<Rightarrow> Some cfg
       | Some rf \<Rightarrow> do { rs \<leftarrow> idx_upd (rafts cfg) i None; Some (cfg\<lparr>rafts := rs\<rparr>) });
     ps \<leftarrow> saved_at cfg i;
     sv \<leftarrow> idx_upd (saved cfg) i
       (map_option (\<lambda>ps. SaveStateAndSnapshot (ReadRaftState ps) (ReadSnapshot ps)
          \<lparr>raftstate = [], snapshot = []\<rparr>) ps);
     Some (cfg\<lparr>saved := sv\<rparr>)
   }"

text \<open>The loop of \<open>start1\<close> that makes the ends; the names are those of \<open>endnames[i]\<close>.\<close>

fun make_ends :: "int \<Rightarrow> string list \<Rightarrow> Network \<Rightarrow> Network option" where
  "make_ends j [] rn = Some rn"
| "make_ends j (e # es) rn = do { rn \<leftarrow> MakeEnd e rn; make_ends (j + 1) es (Connect e (IntName j) rn) }"

text \<open>
  \<open>start1\<close>: \<open>draw\<close> gives the random names, \<open>srv\<close> the address of the new server object, which
  offers the methods of the Raft server as a service.
\<close>

definition start1 :: "'c codec \<Rightarrow> 'c snap_codec \<Rightarrow> clock \<Rightarrow> (nat \<Rightarrow> string) \<Rightarrow> nat \<Rightarrow> int \<Rightarrow> 'c config \<Rightarrow> 'c config option" where
  "start1 C S clk draw srv i cfg = do {
     cfg \<leftarrow> crash1 i cfg;
     let names = map draw [0..<cfg_n cfg];
     es \<leftarrow> idx_upd (endnames cfg) i (Some names);
     rn \<leftarrow> make_ends 0 names (net cfg);
     la \<leftarrow> idx_upd (cfgApplied cfg) i 0;
     let cfg = cfg\<lparr>endnames := es, net := rn, cfgApplied := la\<rparr>;
     ps \<leftarrow> saved_at cfg i;
     (cfg, ps) \<leftarrow> (case ps of
         None \<Rightarrow> do { sv \<leftarrow> idx_upd (saved cfg) i (Some MakePersister); Some (cfg\<lparr>saved := sv\<rparr>, MakePersister) }
       | Some ps \<Rightarrow> do {
           let ps = Persister_Copy ps;
           sv \<leftarrow> idx_upd (saved cfg) i (Some ps);
           let cfg = cfg\<lparr>saved := sv\<rparr>;
           let snap = ReadSnapshot ps;
           cfg \<leftarrow> (if length snap > 0
             then (case ingestSnap S i snap (-1) cfg of Some (cfg, None) \<Rightarrow> Some cfg | _ \<Rightarrow> None)
             else Some cfg);
           Some (cfg, ps)
         });
     rf \<leftarrow> Make C clk (length names) i ps;
     rs \<leftarrow> idx_upd (rafts cfg) i (Some rf);
     Some (cfg\<lparr>rafts := rs, net := AddServer (IntName i) srv (net cfg)\<rparr>)
   }"

text \<open>\<open>make_config\<close>: \<open>inp i\<close> are the further arguments of the call of \<open>start1\<close> for server \<open>i\<close>.\<close>

definition blank_config :: "int \<Rightarrow> nat \<Rightarrow> 'c config" where
  "blank_config tm n =
     \<lparr>failed = False, finished = 0, net = MakeNetwork, cfg_n = n, rafts = replicate n None,
      applyErr = replicate n [], connected = replicate n False, saved = replicate n None,
      endnames = replicate n None, logs = replicate n (\<lambda>k. None), cfgApplied = replicate n 0,
      cfg_start = tm, t0 = 0, rpcs0 = 0, cmds0 = 0, bytes0 = 0, maxIndex = 0, maxIndex0 = 0\<rparr>"

fun start_loop :: "'c codec \<Rightarrow> 'c snap_codec \<Rightarrow> (int \<Rightarrow> clock \<times> (nat \<Rightarrow> string) \<times> nat) \<Rightarrow> int list \<Rightarrow> 'c config
    \<Rightarrow> 'c config option" where
  "start_loop C S inp [] cfg = Some cfg"
| "start_loop C S inp (i # js) cfg = do {
     lgs \<leftarrow> idx_upd (logs cfg) i (\<lambda>k. None);
     let (clk, draw, srv) = inp i;
     cfg \<leftarrow> start1 C S clk draw srv i (cfg\<lparr>logs := lgs\<rparr>);
     start_loop C S inp js cfg
   }"

definition make_config ::
  "'c codec \<Rightarrow> 'c snap_codec \<Rightarrow> (int \<Rightarrow> clock \<times> (nat \<Rightarrow> string) \<times> nat) \<Rightarrow> int \<Rightarrow> nat \<Rightarrow> bool \<Rightarrow> 'c config option" where
  "make_config C S inp tm n unreliable = do {
     let cfg = setunreliable unreliable (blank_config tm n);
     let cfg = cfg\<lparr>net := LongDelays True (net cfg)\<rparr>;
     cfg \<leftarrow> start_loop C S inp (servers_of cfg) cfg;
     run connect (servers_of cfg) cfg
   }"

definition checkTimeout :: "int \<Rightarrow> 'c config \<Rightarrow> 'c config option" where
  "checkTimeout tm cfg =
     (if \<not> failed cfg \<and> tm - cfg_start cfg > 120 * 1000000000 then None else Some cfg)"

definition checkFinished :: "'c config \<Rightarrow> bool" where
  "checkFinished cfg \<longleftrightarrow> finished cfg \<noteq> 0"

definition cleanup :: "int \<Rightarrow> 'c config \<Rightarrow> 'c config option" where
  "cleanup tm cfg = do {
     let cfg = cfg\<lparr>finished := 1, rafts := map (map_option Kill) (rafts cfg)\<rparr>;
     rn \<leftarrow> Cleanup (net cfg);
     checkTimeout tm (cfg\<lparr>net := rn\<rparr>)
   }"

section \<open>Checks\<close>

text \<open>\<open>cfg.rafts[i].GetState()\<close>; a nil pointer panics.\<close>

definition raft_state :: "'c config \<Rightarrow> int \<Rightarrow> (int \<times> bool) option" where
  "raft_state cfg i = do { p \<leftarrow> idx (rafts cfg) i; rf \<leftarrow> p; Some (GetState rf) }"

fun add_leader :: "int \<Rightarrow> int \<Rightarrow> (int \<times> int list) list \<Rightarrow> (int \<times> int list) list" where
  "add_leader trm i [] = [(trm, [i])]"
| "add_leader trm i ((t, ls) # xs) = (if t = trm then (t, ls @ [i]) # xs else (t, ls) # add_leader trm i xs)"

fun leaders_loop :: "'c config \<Rightarrow> int list \<Rightarrow> (int \<times> int list) list \<Rightarrow> (int \<times> int list) list option" where
  "leaders_loop cfg [] leaders = Some leaders"
| "leaders_loop cfg (i # js) leaders = do {
     c \<leftarrow> idx (connected cfg) i;
     leaders \<leftarrow> (if c then do {
         (trm, leader) \<leftarrow> raft_state cfg i;
         Some (if leader then add_leader trm i leaders else leaders)
       } else Some leaders);
     leaders_loop cfg js leaders
   }"

text \<open>
  The loop over the map: whether it fails and the greatest term it finds do not depend on the order in
  which the map is visited, so the model visits it in the order of insertion.
\<close>

fun last_term_loop :: "(int \<times> int list) list \<Rightarrow> int \<Rightarrow> int option" where
  "last_term_loop [] lastTerm = Some lastTerm"
| "last_term_loop ((trm, ls) # xs) lastTerm =
     (if length ls > 1 then None else last_term_loop xs (if trm > lastTerm then trm else lastTerm))"

definition checkOneLeader_poll :: "'c config \<Rightarrow> int option option" where
  "checkOneLeader_poll cfg = do {
     leaders \<leftarrow> leaders_loop cfg (servers_of cfg) [];
     lastTerm \<leftarrow> last_term_loop leaders (-1);
     if leaders \<noteq> []
     then (case map_of leaders lastTerm of
         None \<Rightarrow> None
       | Some ls \<Rightarrow> map_option Some (idx ls 0))
     else Some None
   }"

fun checkOneLeader_loop :: "('c config \<Rightarrow> 'c config) list \<Rightarrow> 'c config \<Rightarrow> (int \<times> 'c config) option" where
  "checkOneLeader_loop [] cfg = None"
| "checkOneLeader_loop (env # envs) cfg = do {
     let cfg = env cfg;
     r \<leftarrow> checkOneLeader_poll cfg;
     (case r of Some l \<Rightarrow> Some (l, cfg) | None \<Rightarrow> checkOneLeader_loop envs cfg)
   }"

text \<open>Ten rounds, with a sleep before each; \<open>envs\<close> says what the servers do in these sleeps.\<close>

definition checkOneLeader :: "('c config \<Rightarrow> 'c config) list \<Rightarrow> 'c config \<Rightarrow> (int \<times> 'c config) option" where
  "checkOneLeader envs cfg = checkOneLeader_loop (take 10 envs) cfg"

fun checkTerms_loop :: "'c config \<Rightarrow> int list \<Rightarrow> int \<Rightarrow> int option" where
  "checkTerms_loop cfg [] trm = Some trm"
| "checkTerms_loop cfg (i # js) trm = do {
     c \<leftarrow> idx (connected cfg) i;
     if c then do {
       (xterm, leader) \<leftarrow> raft_state cfg i;
       if trm = -1 then checkTerms_loop cfg js xterm
       else if trm \<noteq> xterm then None
       else checkTerms_loop cfg js trm
     }
     else checkTerms_loop cfg js trm
   }"

definition checkTerms :: "'c config \<Rightarrow> int option" where
  "checkTerms cfg = checkTerms_loop cfg (servers_of cfg) (-1)"

fun checkNoLeader_loop :: "'c config \<Rightarrow> int list \<Rightarrow> unit option" where
  "checkNoLeader_loop cfg [] = Some ()"
| "checkNoLeader_loop cfg (i # js) = do {
     c \<leftarrow> idx (connected cfg) i;
     if c then do {
       (trm, is_leader) \<leftarrow> raft_state cfg i;
       if is_leader then None else checkNoLeader_loop cfg js
     }
     else checkNoLeader_loop cfg js
   }"

definition checkNoLeader :: "'c config \<Rightarrow> unit option" where
  "checkNoLeader cfg = checkNoLeader_loop cfg (servers_of cfg)"

fun nCommitted_loop :: "'c config \<Rightarrow> int \<Rightarrow> int list \<Rightarrow> int \<Rightarrow> 'c command \<Rightarrow> (int \<times> 'c command) option" where
  "nCommitted_loop cfg index [] cnt cmd = Some (cnt, cmd)"
| "nCommitted_loop cfg index (i # js) cnt cmd = do {
     e \<leftarrow> idx (applyErr cfg) i;
     if e \<noteq> [] then None
     else do {
       lg \<leftarrow> idx (logs cfg) i;
       (case lg index of
          None \<Rightarrow> nCommitted_loop cfg index js cnt cmd
        | Some cmd1 \<Rightarrow>
            if cnt > 0 \<and> cmd \<noteq> cmd1 then None
            else nCommitted_loop cfg index js (cnt + 1) cmd1)
     }
   }"

definition nCommitted :: "'c config \<Rightarrow> int \<Rightarrow> (int \<times> 'c command) option" where
  "nCommitted cfg index = nCommitted_loop cfg index [0..int (length (rafts cfg)) - 1] 0 NilCmd"

text \<open>Whether some server is past \<open>startTerm\<close>; the loop stops at the first one.\<close>

fun moved_on :: "int \<Rightarrow> 'c Raft option list \<Rightarrow> bool option" where
  "moved_on startTerm [] = Some False"
| "moved_on startTerm (r # rs) = do {
     rf \<leftarrow> r;
     if fst (GetState rf) > startTerm then Some True else moved_on startTerm rs
   }"

text \<open>\<open>wait\<close>: at most thirty rounds, one for each sleep; the result is the command or \<open>-1\<close>.\<close>

fun wait_loop :: "('c config \<Rightarrow> 'c config) list \<Rightarrow> int \<Rightarrow> int \<Rightarrow> int \<Rightarrow> 'c config \<Rightarrow> ('c config \<times> bool) option" where
  "wait_loop [] index n startTerm cfg = Some (cfg, False)"
| "wait_loop (env # envs) index n startTerm cfg = do {
     (nd, c) \<leftarrow> nCommitted cfg index;
     if nd \<ge> n then Some (cfg, False)
     else do {
       let cfg = env cfg;
       on \<leftarrow> (if startTerm > -1 then moved_on startTerm (rafts cfg) else Some False);
       if on then Some (cfg, True) else wait_loop envs index n startTerm cfg
     }
   }"

definition wait :: "('c config \<Rightarrow> 'c config) list \<Rightarrow> int \<Rightarrow> int \<Rightarrow> int \<Rightarrow> 'c config \<Rightarrow> ('c command \<times> 'c config) option" where
  "wait envs index n startTerm cfg = do {
     (cfg, on) \<leftarrow> wait_loop (take 30 envs) index n startTerm cfg;
     if on then Some (IntCmd (-1), cfg)
     else do {
       (nd, cmd) \<leftarrow> nCommitted cfg index;
       if nd < n then None else Some (cmd, cfg)
     }
   }"

text \<open>
  \<open>one\<close>. The first loop offers the command to the servers in turn; \<open>rounds\<close> counts the rounds left.
\<close>

fun one_try :: "'c codec \<Rightarrow> clock \<Rightarrow> 'c \<Rightarrow> nat \<Rightarrow> int \<Rightarrow> 'c config \<Rightarrow> (int \<times> int \<times> 'c config) option" where
  "one_try C clk cmd 0 starts cfg = Some (-1, starts, cfg)"
| "one_try C clk cmd (Suc rounds) starts cfg = do {
     let starts = (starts + 1) mod int (cfg_n cfg);
     c \<leftarrow> idx (connected cfg) starts;
     p \<leftarrow> (if c then idx (rafts cfg) starts else Some None);
     (case p of
        None \<Rightarrow> one_try C clk cmd rounds starts cfg
      | Some rf \<Rightarrow> do {
          (rf, (index1, trm, ok), acts) \<leftarrow> Start C clk cmd rf;
          rs \<leftarrow> idx_upd (rafts cfg) starts (Some rf);
          let cfg = cfg\<lparr>rafts := rs\<rparr>;
          if ok then Some (index1, starts, cfg) else one_try C clk cmd rounds starts cfg
        })
   }"

text \<open>The second loop polls until the two seconds are over.\<close>

fun one_poll :: "('c config \<Rightarrow> 'c config) list \<Rightarrow> 'c \<Rightarrow> int \<Rightarrow> int \<Rightarrow> 'c config \<Rightarrow> (bool \<times> 'c config) option" where
  "one_poll [] cmd index expectedServers cfg = Some (False, cfg)"
| "one_poll (env # envs) cmd index expectedServers cfg = do {
     (nd, cmd1) \<leftarrow> nCommitted cfg index;
     if nd > 0 \<and> nd \<ge> expectedServers \<and> cmd1 = Cmd cmd then Some (True, cfg)
     else one_poll envs cmd index expectedServers (env cfg)
   }"

text \<open>
  A turn of the outer loop: the functions of the polls that fit into two seconds, and what happens in
  the sleep of 50 ms that replaces them when no server took the command. The list ends when the ten
  seconds are over.
\<close>

fun one :: "'c codec \<Rightarrow> clock \<Rightarrow> (('c config \<Rightarrow> 'c config) list \<times> ('c config \<Rightarrow> 'c config)) list \<Rightarrow> 'c \<Rightarrow> int \<Rightarrow> bool
    \<Rightarrow> int \<Rightarrow> 'c config \<Rightarrow> (int \<times> 'c config) option" where
  "one C clk [] cmd expectedServers retry starts cfg = (if checkFinished cfg then Some (-1, cfg) else None)"
| "one C clk ((polls, nap) # turns) cmd expectedServers retry starts cfg =
     (if checkFinished cfg then Some (-1, cfg)
      else do {
        (index, starts, cfg) \<leftarrow> one_try C clk cmd (cfg_n cfg) starts cfg;
        if index \<noteq> -1
        then do {
          (agreed, cfg) \<leftarrow> one_poll polls cmd index expectedServers cfg;
          if agreed then Some (index, cfg)
          else if retry = False then None
          else one C clk turns cmd expectedServers retry starts cfg
        }
        else one C clk turns cmd expectedServers retry starts (nap cfg)
      })"

definition begin_test :: "int \<Rightarrow> 'c config \<Rightarrow> 'c config" where
  "begin_test tm cfg = cfg\<lparr>t0 := tm, rpcs0 := rpcTotal cfg, bytes0 := bytesTotal cfg, cmds0 := 0,
     maxIndex0 := maxIndex cfg\<rparr>"

text \<open>\<open>end\<close> returns what it prints: the time, peers, RPCs, bytes and agreements of the test.\<close>

definition end_test :: "int \<Rightarrow> 'c config \<Rightarrow> (int \<times> int \<times> int \<times> int \<times> int) option option" where
  "end_test tm cfg = do {
     cfg \<leftarrow> checkTimeout tm cfg;
     Some (if failed cfg then None
       else Some (tm - t0 cfg, int (cfg_n cfg), rpcTotal cfg - rpcs0 cfg, bytesTotal cfg - bytes0 cfg, maxIndex cfg - maxIndex0 cfg))
   }"

fun LogSize_loop :: "'c config \<Rightarrow> int list \<Rightarrow> nat \<Rightarrow> nat option" where
  "LogSize_loop cfg [] logsize = Some logsize"
| "LogSize_loop cfg (i # js) logsize = do {
     p \<leftarrow> saved_at cfg i;
     ps \<leftarrow> p;
     LogSize_loop cfg js (if RaftStateSize ps > logsize then RaftStateSize ps else logsize)
   }"

definition LogSize :: "'c config \<Rightarrow> nat option" where
  "LogSize cfg = LogSize_loop cfg (servers_of cfg) 0"

end
