(* ===== verification/RaftConfigCorrect.thy ===== *)
theory RaftConfigCorrect
  imports RaftConfig RaftMatching
begin

text \<open>
  What the test harness guarantees: logs that pass its checks agree and have no gaps, requests travel
  exactly between connected servers and never from a crashed instance, a server restarted from a
  snapshot resumes where it stopped, and the leader check never fails on a cluster of the model.
\<close>

section \<open>Applied logs\<close>

definition agree :: "'c config \<Rightarrow> bool" where
  "agree cfg \<longleftrightarrow> (\<forall>lg \<in> set (logs cfg). \<forall>lg' \<in> set (logs cfg). \<forall>k a b.
     lg k = Some a \<longrightarrow> lg' k = Some b \<longrightarrow> a = b)"

definition gapless :: "'c config \<Rightarrow> bool" where
  "gapless cfg \<longleftrightarrow> (\<forall>lg \<in> set (logs cfg). \<forall>k > 1. lg k \<noteq> None \<longrightarrow> lg (k - 1) \<noteq> None)"

definition logs_ok :: "'c config \<Rightarrow> bool" where
  "logs_ok cfg \<longleftrightarrow> agree cfg \<and> gapless cfg \<and> (\<forall>lg \<in> set (logs cfg). \<forall>k. lg k \<noteq> None \<longrightarrow> k \<le> maxIndex cfg)"

lemma idx_in_set: "idx xs i = Some v \<Longrightarrow> v \<in> set xs"
  by (auto simp: idx_Some_iff nat_less_iff)

lemma checkLogs_loop_None:
  "checkLogs_loop i k v lgs j err = None \<longleftrightarrow> err = None \<and> (\<forall>lg \<in> set lgs. lg k = None \<or> lg k = Some v)"
proof (induction lgs arbitrary: j err)
  case (Cons lg lgs)
  then show ?case by (cases "lg k") auto
qed simp

lemma applier_accepts:
  assumes ap: "applier i m cfg = Some cfg'" and valid: "CommandValid m"
  obtains lg where "idx (logs cfg) i = Some lg" "\<forall>lg \<in> set (logs cfg). lg (CommandIndex m) \<in> {None, Some (amCommand m)}"
    "CommandIndex m > 1 \<longrightarrow> lg (CommandIndex m - 1) \<noteq> None"
    "logs cfg' = (logs cfg)[nat i := lg(CommandIndex m \<mapsto> amCommand m)]"
    "maxIndex cfg' = max (maxIndex cfg) (CommandIndex m)"
  using ap valid
  by (auto simp: applier_def checkLogs_def Let_def bind_eq_Some_conv idx_upd_Some_iff checkLogs_loop_None
      split: if_splits option.splits)

lemma applier_keeps:
  assumes ok: "logs_ok cfg" and ap: "applier i m cfg = Some cfg'"
  shows "logs_ok cfg'"
proof (cases "CommandValid m")
  case False
  with ap ok show ?thesis by (simp add: applier_def)
next
  case True
  let ?k = "CommandIndex m" and ?v = "amCommand m"
  from ap True obtain lg where lg: "idx (logs cfg) i = Some lg"
    and same: "\<forall>lg \<in> set (logs cfg). lg ?k \<in> {None, Some ?v}" and prev: "?k > 1 \<longrightarrow> lg (?k - 1) \<noteq> None"
    and logs: "logs cfg' = (logs cfg)[nat i := lg(?k \<mapsto> ?v)]" and top: "maxIndex cfg' = max (maxIndex cfg) ?k"
    by (elim applier_accepts)
  have mem: "lg \<in> set (logs cfg)" using lg by (rule idx_in_set)
  have sub: "\<exists>l0 \<in> set (logs cfg). l = l0 \<or> l0 = lg \<and> l = lg(?k \<mapsto> ?v)" if "l \<in> set (logs cfg')" for l
    using subsetD [OF set_update_subset_insert that [unfolded logs]] mem by blast
  have val: "c = ?v" if "l \<in> set (logs cfg')" "l ?k = Some c" for l c
    using sub [OF that(1)] same that(2) by fastforce
  have old: "\<exists>l0 \<in> set (logs cfg). l0 k = Some c" if "l \<in> set (logs cfg')" "l k = Some c" "k \<noteq> ?k" for l k c
    using sub [OF that(1)] that by auto
  have "agree cfg'"
    unfolding agree_def
  proof (intro ballI allI impI)
    fix l l' k a b assume "l \<in> set (logs cfg')" "l' \<in> set (logs cfg')" "l k = Some a" "l' k = Some b"
    note at = this
    show "a = b"
    proof (cases "k = ?k")
      case True
      with val [of l a] val [of l' b] at show ?thesis by simp
    next
      case False
      with old at obtain l0 l1 where "l0 \<in> set (logs cfg)" "l0 k = Some a" "l1 \<in> set (logs cfg)" "l1 k = Some b"
        by metis
      with ok show ?thesis unfolding logs_ok_def agree_def by blast
    qed
  qed
  moreover have "gapless cfg'"
    unfolding gapless_def
  proof (intro ballI allI impI)
    fix l and k :: int assume l: "l \<in> set (logs cfg')" and k: "1 < k" "l k \<noteq> None"
    from sub [OF l] obtain l0 where l0: "l0 \<in> set (logs cfg)" "l = l0 \<or> l0 = lg \<and> l = lg(?k \<mapsto> ?v)" by blast
    have gap: "l0 (k - 1) \<noteq> None" if "l0 k \<noteq> None" using ok l0(1) k(1) that by (simp add: logs_ok_def gapless_def)
    show "l (k - 1) \<noteq> None" using l0(2) gap k prev by (auto split: if_splits)
  qed
  moreover have "k \<le> maxIndex cfg'" if l: "l \<in> set (logs cfg')" "l k \<noteq> None" for l k
  proof (cases "k = ?k")
    case False
    with l old [of l k] obtain l0 c where "l0 \<in> set (logs cfg)" "l0 k = Some c" by auto
    with ok have "k \<le> maxIndex cfg" by (simp add: logs_ok_def)
    then show ?thesis by (simp add: top)
  qed (simp add: top)
  ultimately show ?thesis by (simp add: logs_ok_def)
qed

interpretation appliers: machine "\<lambda>(i, m). applier i m" logs_ok
  by unfold_locales (auto intro: applier_keeps)

text \<open>Counting the servers that have applied an index.\<close>

lemma nCommitted_loop_count:
  assumes ok: "agree cfg" and js: "\<forall>j \<in> set js. 0 \<le> j \<and> nat j < length (logs cfg) \<and> nat j < length (applyErr cfg)"
    and err: "\<forall>e \<in> set (applyErr cfg). e = []"
    and cmd: "cnt > 0 \<Longrightarrow> \<forall>lg \<in> set (logs cfg). lg k \<in> {None, Some cmd}" and cnt: "0 \<le> cnt"
  shows "\<exists>cmd'. nCommitted_loop cfg k js cnt cmd
      = Some (cnt + int (length (filter (\<lambda>j. (logs cfg ! nat j) k \<noteq> None) js)), cmd')
    \<and> (\<forall>j \<in> set js. \<forall>c. (logs cfg ! nat j) k = Some c \<longrightarrow> c = cmd') \<and> (cnt > 0 \<longrightarrow> cmd' = cmd)"
  using js cmd cnt
proof (induction js arbitrary: cnt cmd)
  case (Cons j js)
  let ?lg = "logs cfg ! nat j"
  have j: "idx (applyErr cfg) j = Some []" "idx (logs cfg) j = Some ?lg" "?lg \<in> set (logs cfg)"
    using Cons.prems(1) err by (auto simp: idx_def)
  show ?case
  proof (cases "?lg k")
    case None
    with Cons.IH [OF _ Cons.prems(2,3)] Cons.prems(1) j show ?thesis by auto
  next
    case (Some c)
    have all: "\<forall>lg \<in> set (logs cfg). lg k \<in> {None, Some c}"
      using ok j(3) Some unfolding agree_def by (metis insert_iff not_None_eq)
    have same: "cnt > 0 \<longrightarrow> cmd = c" using Cons.prems(2) Some j(3) by fastforce
    obtain cmd' where "nCommitted_loop cfg k js (cnt + 1) c
        = Some (cnt + 1 + int (length (filter (\<lambda>j. (logs cfg ! nat j) k \<noteq> None) js)), cmd')"
      "\<forall>j \<in> set js. \<forall>c. (logs cfg ! nat j) k = Some c \<longrightarrow> c = cmd'" "cmd' = c"
      using Cons.IH [of "cnt + 1" c] Cons.prems(1,3) all by auto
    with same j Some show ?thesis by auto
  qed
qed auto

definition holders_of :: "'c config \<Rightarrow> int \<Rightarrow> nat set" where
  "holders_of cfg k = {i. i < length (logs cfg) \<and> (logs cfg ! i) k \<noteq> None}"

definition tables_ok :: "'c config \<Rightarrow> bool" where
  "tables_ok cfg \<longleftrightarrow> length (rafts cfg) = length (logs cfg) \<and> length (applyErr cfg) = length (logs cfg)
     \<and> (\<forall>e \<in> set (applyErr cfg). e = [])"

lemma nCommitted_counts:
  assumes "agree cfg" and "tables_ok cfg"
  shows "\<exists>cmd. nCommitted cfg k = Some (int (card (holders_of cfg k)), cmd)
    \<and> (\<forall>i \<in> holders_of cfg k. (logs cfg ! i) k = Some cmd)"
proof -
  let ?n = "length (logs cfg)"
  let ?P = "\<lambda>j. (logs cfg ! nat j) k \<noteq> None"
  have "length (filter ?P [0..int ?n - 1]) = card (set (filter ?P [0..int ?n - 1]))"
    by (rule distinct_card [symmetric]) simp
  also have "set (filter ?P [0..int ?n - 1]) = int ` holders_of cfg k"
    by (auto simp: holders_of_def image_iff) (metis nat_0_le nat_less_iff zle_diff1_eq)
  finally have len: "length (filter ?P [0..int ?n - 1]) = card (holders_of cfg k)"
    by (simp add: card_image)
  have tab: "length (rafts cfg) = ?n" "length (applyErr cfg) = ?n" "\<forall>e \<in> set (applyErr cfg). e = []"
    using assms(2) by (auto simp: tables_ok_def)
  have range: "\<forall>j \<in> set [0..int ?n - 1]. 0 \<le> j \<and> nat j < ?n \<and> nat j < length (applyErr cfg)"
    by (auto simp: tab)
  obtain cmd where "nCommitted_loop cfg k [0..int ?n - 1] 0 NilCmd = Some (int (card (holders_of cfg k)), cmd)"
    and all: "\<forall>j \<in> set [0..int ?n - 1]. \<forall>c. (logs cfg ! nat j) k = Some c \<longrightarrow> c = cmd"
    using nCommitted_loop_count [OF assms(1) range tab(3), of 0 k NilCmd] len by auto
  moreover have "(logs cfg ! i) k = Some cmd" if "i \<in> holders_of cfg k" for i
    using that all [rule_format, of "int i"] by (auto simp: holders_of_def)
  ultimately show ?thesis using tab by (auto simp: nCommitted_def)
qed

lemma applier_tables:
  "applier i m cfg = Some cfg' \<Longrightarrow> tables_ok cfg \<Longrightarrow> tables_ok cfg' \<and> length (logs cfg') = length (logs cfg)"
  by (auto simp: applier_def checkLogs_def Let_def tables_ok_def bind_eq_Some_conv idx_upd_Some_iff
      split: if_splits option.splits)

interpretation tables: machine "\<lambda>(i, m). applier i m" "\<lambda>cfg. tables_ok cfg \<and> length (logs cfg) = n" for n
  by unfold_locales (auto dest: applier_tables)

text \<open>
  C18. What passes the test harness is agreement. After any sequence of messages on the apply channels,
  in any interleaving of the servers, that does not end the test: no two servers applied different
  commands at an index, no server has a gap, no index exceeds \<open>maxIndex\<close>; and \<open>nCommitted\<close> then never
  fails and returns how many servers applied the index and the command they agree on.
\<close>

theorem applied_logs_agree:
  assumes "run (\<lambda>(i, m). applier i m) ms (blank_config tm n) = Some cfg"
  shows "logs_ok cfg \<and> (\<exists>cmd. nCommitted cfg k = Some (int (card (holders_of cfg k)), cmd)
    \<and> (\<forall>i \<in> holders_of cfg k. (logs cfg ! i) k = Some cmd))"
proof -
  have ok: "logs_ok cfg"
    using _ assms by (rule appliers.good_run) (auto simp: logs_ok_def agree_def gapless_def blank_config_def)
  have "tables_ok cfg \<and> length (logs cfg) = n"
    using _ assms by (rule tables.good_run) (auto simp: tables_ok_def blank_config_def)
  with ok nCommitted_counts [of cfg k] show ?thesis by (simp add: logs_ok_def)
qed

definition msg_of :: "int \<Rightarrow> int \<Rightarrow> int ApplyMsg" where
  "msg_of k c = \<lparr>CommandValid = True, amCommand = Cmd c, CommandIndex = k, SnapshotValid = False,
     amSnapshot = [], SnapshotTerm = 0, SnapshotIndex = 0\<rparr>"

theorem applied_logs_agree_witness:
  "\<exists>cfg. run (\<lambda>(i, m). applier i m) [(0, msg_of 1 50), (2, msg_of 1 50), (0, msg_of 2 60)] (blank_config 0 3) = Some cfg
     \<and> logs_ok cfg \<and> (\<exists>cmd. nCommitted cfg 1 = Some (int (card (holders_of cfg 1)), cmd))"
proof -
  have "run (\<lambda>(i, m). applier i m) [(0, msg_of 1 50), (2, msg_of 1 50), (0, msg_of 2 60)] (blank_config 0 3) \<noteq> None"
    by code_simp
  then obtain cfg where
    "run (\<lambda>(i, m). applier i m) [(0, msg_of 1 50), (2, msg_of 1 50), (0, msg_of 2 60)] (blank_config 0 3) = Some cfg"
    by auto
  with applied_logs_agree [OF this, of 1] show ?thesis by auto
qed

section \<open>Who can talk to whom\<close>

definition on :: "'c config \<Rightarrow> int \<Rightarrow> bool" where
  "on cfg i \<longleftrightarrow> idx (connected cfg) i = Some True"

text \<open>
  The ends in use are different names, the end from \<open>i\<close> to \<open>j\<close> leads to server \<open>j\<close> and is enabled
  exactly if both servers are connected, and no other end is enabled.
\<close>

definition wired :: "'c config \<Rightarrow> bool" where
  "wired cfg \<longleftrightarrow> length (connected cfg) = cfg_n cfg \<and> length (endnames cfg) = cfg_n cfg
     \<and> (\<forall>es \<in> set (endnames cfg). \<forall>names. es = Some names \<longrightarrow> length names = cfg_n cfg)
     \<and> (\<forall>i. on cfg i \<longrightarrow> has_ends i cfg = Some True)
     \<and> (\<forall>i j i' j' e. end_of cfg i j = Some e \<longrightarrow> end_of cfg i' j' = Some e \<longrightarrow> i = i' \<and> j = j')
     \<and> (\<forall>i j e. end_of cfg i j = Some e \<longrightarrow> e \<in> set (ends (net cfg)) \<and> connections (net cfg) e = Some (IntName j)
          \<and> (enabled (net cfg) e \<longleftrightarrow> on cfg i \<and> on cfg j))
     \<and> (\<forall>e. enabled (net cfg) e \<longrightarrow> (\<exists>i j. end_of cfg i j = Some e))"

lemma net_upd_simps [simp]:
  "end_of (cfg\<lparr>net := rn\<rparr>) i j = end_of cfg i j" "has_ends i (cfg\<lparr>net := rn\<rparr>) = has_ends i cfg"
  "on (cfg\<lparr>net := rn\<rparr>) i = on cfg i" "servers_of (cfg\<lparr>net := rn\<rparr>) = servers_of cfg"
  "end_of (cfg\<lparr>connected := cs\<rparr>) i j = end_of cfg i j" "has_ends i (cfg\<lparr>connected := cs\<rparr>) = has_ends i cfg"
  "servers_of (cfg\<lparr>connected := cs\<rparr>) = servers_of cfg"
  by (simp_all add: end_of_def has_ends_def on_def servers_of_def)

lemma enable_loop_net:
  assumes stable: "\<And>j rn cfg. cond j (cfg\<lparr>net := rn\<rparr>) = cond j cfg"
      "\<And>j rn cfg. name j (cfg\<lparr>net := rn\<rparr>) = name j cfg"
    and loop: "enable_loop cond name b js cfg = Some cfg'"
  shows "cfg' = cfg\<lparr>net := (net cfg)\<lparr>enabled := (\<lambda>e.
    if \<exists>j \<in> set js. cond j cfg = Some True \<and> name j cfg = Some e then b else enabled (net cfg) e)\<rparr>\<rparr>"
  using loop
proof (induction js arbitrary: cfg)
  case (Cons j js)
  let ?f = "\<lambda>js cfg e. if \<exists>j \<in> set js. cond j cfg = Some True \<and> name j cfg = Some e then b else enabled (net cfg) e"
  from Cons.prems consider (skip) "cond j cfg = Some False" "enable_loop cond name b js cfg = Some cfg'"
    | (set) e where "cond j cfg = Some True" "name j cfg = Some e"
      "enable_loop cond name b js (cfg\<lparr>net := Enable e b (net cfg)\<rparr>) = Some cfg'"
    by (auto simp: bind_eq_Some_conv split: if_splits)
  then show ?case
  proof cases
    case skip
    then have "?f (j # js) cfg = ?f js cfg" by auto
    with Cons.IH [OF skip(2)] show ?thesis by simp
  next
    case (set e)
    then have "?f (j # js) cfg = ?f js (cfg\<lparr>net := Enable e b (net cfg)\<rparr>)"
      by (auto simp: fun_eq_iff stable Enable_def)
    with Cons.IH [OF set(3)] show ?thesis by (simp add: stable Enable_def)
  qed
qed simp

lemma idx_upd_at: "idx_upd xs i v = Some ys \<Longrightarrow> idx ys j = (if j = i then Some v else idx xs j)"
  by (auto simp: idx_upd_Some_iff idx_def nth_list_update)

lemma on_upd: "idx_upd (connected cfg) i b = Some cs \<Longrightarrow> on (cfg\<lparr>connected := cs\<rparr>) j = (if j = i then b else on cfg j)"
  by (auto simp: on_def idx_upd_at)

lemma in_servers: "length (connected cfg) = cfg_n cfg \<Longrightarrow> on cfg j \<Longrightarrow> j \<in> set (servers_of cfg)"
  by (auto simp: on_def servers_of_def idx_Some_iff)

lemma enable_loop_named:
  assumes stable: "\<And>j rn cfg. cond j (cfg\<lparr>net := rn\<rparr>) = cond j cfg"
      "\<And>j rn cfg. name j (cfg\<lparr>net := rn\<rparr>) = name j cfg"
    and loop: "enable_loop cond name b js cfg = Some cfg'" and j: "j \<in> set js" "cond j cfg = Some True"
  shows "name j cfg \<noteq> None"
  using loop j
proof (induction js arbitrary: cfg)
  case (Cons k js)
  from Cons.prems(1) obtain rn where rest: "enable_loop cond name b js (cfg\<lparr>net := rn\<rparr>) = Some cfg'"
    and k: "cond k cfg = Some True \<Longrightarrow> name k cfg \<noteq> None"
    by (cases "cond k cfg = Some True") (auto simp: bind_eq_Some_conv intro: that [of "net cfg"])
  show ?case
  proof (cases "j = k")
    case False
    with Cons.IH [OF rest] Cons.prems(2,3) show ?thesis by (simp add: stable)
  qed (use k Cons.prems in simp)
qed simp

lemma connect_effect:
  assumes "connect i cfg = Some cfg'" and "length (connected cfg) = cfg_n cfg"
  shows "\<exists>cs f. idx_upd (connected cfg) i True = Some cs \<and> cfg' = cfg\<lparr>connected := cs, net := (net cfg)\<lparr>enabled := f\<rparr>\<rparr>
    \<and> end_of cfg i i \<noteq> None \<and> (\<forall>e. f e \<longleftrightarrow> (\<exists>j. (j = i \<or> on cfg j) \<and> (end_of cfg i j = Some e \<or> end_of cfg j i = Some e)) \<or> enabled (net cfg) e)"
proof -
  let ?c = "\<lambda>j cfg. idx (connected cfg) j"
  from assms(1) obtain cs cfg1 where cs: "idx_upd (connected cfg) i True = Some cs"
    and l1: "enable_loop ?c (\<lambda>j cfg. end_of cfg i j) True (servers_of cfg) (cfg\<lparr>connected := cs\<rparr>) = Some cfg1"
    and l2: "enable_loop ?c (\<lambda>j cfg. end_of cfg j i) True (servers_of cfg1) cfg1 = Some cfg'"
    by (auto simp: connect_def Let_def bind_eq_Some_conv)
  let ?f = "\<lambda>e. if \<exists>j \<in> set (servers_of cfg). idx cs j = Some True \<and> end_of cfg i j = Some e then True
    else enabled (net cfg) e"
  let ?g = "\<lambda>e. if \<exists>j \<in> set (servers_of cfg). idx cs j = Some True \<and> end_of cfg j i = Some e then True else ?f e"
  have f: "cfg1 = cfg\<lparr>connected := cs, net := (net cfg)\<lparr>enabled := ?f\<rparr>\<rparr>"
    using enable_loop_net [OF _ _ l1] by simp
  have g: "cfg' = cfg\<lparr>connected := cs, net := (net cfg)\<lparr>enabled := ?g\<rparr>\<rparr>"
    using enable_loop_net [OF _ _ l2] by (simp add: f)
  have "j \<in> set (servers_of cfg)" if "idx cs j = Some True" for j
    using that cs assms(2) by (auto simp: servers_of_def idx_upd_Some_iff idx_Some_iff)
  moreover have at: "idx cs j = Some True \<longleftrightarrow> j = i \<or> on cfg j" for j
    using idx_upd_at [OF cs] by (auto simp: on_def)
  moreover have "end_of cfg i i \<noteq> None"
    using enable_loop_named [OF _ _ l1, of i] calculation by simp
  ultimately show ?thesis using cs g by (intro exI [of _ cs] exI [of _ ?g]) auto
qed

lemma wiredD:
  assumes "wired cfg"
  shows "length (connected cfg) = cfg_n cfg" "length (endnames cfg) = cfg_n cfg"
    "on cfg i \<Longrightarrow> has_ends i cfg = Some True"
    "end_of cfg i j = Some e \<Longrightarrow> end_of cfg i' j' = Some e \<Longrightarrow> i = i' \<and> j = j'"
    "end_of cfg i j = Some e \<Longrightarrow> e \<in> set (ends (net cfg))"
    "end_of cfg i j = Some e \<Longrightarrow> connections (net cfg) e = Some (IntName j)"
    "end_of cfg i j = Some e \<Longrightarrow> enabled (net cfg) e \<longleftrightarrow> on cfg i \<and> on cfg j"
    "enabled (net cfg) e \<Longrightarrow> \<exists>i j. end_of cfg i j = Some e"
  using assms unfolding wired_def by blast+

lemma end_of_range:
  assumes "wired cfg" and "end_of cfg i j = Some e"
  shows "has_ends i cfg = Some True" "i \<in> set (servers_of cfg)" "j \<in> set (servers_of cfg)"
proof -
  from assms(2) obtain names where names: "idx (endnames cfg) i = Some (Some names)" "idx names j = Some e"
    by (auto simp: end_of_def bind_eq_Some_conv)
  then have "Some names \<in> set (endnames cfg)" by (auto intro: idx_in_set)
  with assms(1) have "length names = cfg_n cfg" "length (endnames cfg) = cfg_n cfg" by (auto simp: wired_def)
  with names show "has_ends i cfg = Some True" "i \<in> set (servers_of cfg)" "j \<in> set (servers_of cfg)"
    by (auto simp: has_ends_def servers_of_def idx_Some_iff)
qed

lemma end_of_unique: "wired cfg \<Longrightarrow> end_of cfg i j = Some e \<Longrightarrow> end_of cfg i' j' = Some e \<longleftrightarrow> i' = i \<and> j' = j"
  using wiredD(4) by blast

text \<open>\<open>wired\<close> after a change of connections: the table of ends stays as it is.\<close>

lemma wired_switch:
  assumes w: "wired cfg" and cs: "idx_upd (connected cfg) i b = Some cs" and b: "b \<Longrightarrow> has_ends i cfg = Some True"
    and f: "\<And>k j e. end_of cfg k j = Some e \<Longrightarrow> f e \<longleftrightarrow> (if k = i then b else on cfg k) \<and> (if j = i then b else on cfg j)"
    and only: "\<And>e. f e \<Longrightarrow> \<exists>k j. end_of cfg k j = Some e"
  shows "wired (cfg\<lparr>connected := cs, net := (net cfg)\<lparr>enabled := f\<rparr>\<rparr>)" (is "wired ?cfg")
proof -
  have on': "on ?cfg j \<longleftrightarrow> (if j = i then b else on cfg j)" for j
    using on_upd [OF cs, of j] by simp
  have "length cs = cfg_n cfg" using cs wiredD(1) [OF w] by (auto simp: idx_upd_Some_iff)
  with w show ?thesis
    unfolding wired_def on' by (simp add: f only b)
qed

lemma connect_wired:
  assumes w: "wired cfg" and c: "connect i cfg = Some cfg'"
  shows "wired cfg'"
proof -
  from connect_effect [OF c wiredD(1) [OF w]] obtain cs f where cs: "idx_upd (connected cfg) i True = Some cs"
    and cfg': "cfg' = cfg\<lparr>connected := cs, net := (net cfg)\<lparr>enabled := f\<rparr>\<rparr>" and ii: "end_of cfg i i \<noteq> None"
    and f: "\<And>e. f e \<longleftrightarrow> (\<exists>j. (j = i \<or> on cfg j) \<and> (end_of cfg i j = Some e \<or> end_of cfg j i = Some e)) \<or> enabled (net cfg) e"
    by blast
  show ?thesis
    unfolding cfg'
  proof (rule wired_switch [OF w cs])
    show "has_ends i cfg = Some True" using ii end_of_range(1) [OF w] by blast
    show "f e \<longleftrightarrow> (if k = i then True else on cfg k) \<and> (if j = i then True else on cfg j)"
      if e: "end_of cfg k j = Some e" for k j e
      unfolding f end_of_unique [OF w e] wiredD(7) [OF w e] by auto
    show "\<exists>k j. end_of cfg k j = Some e" if "f e" for e
      using that unfolding f using wiredD(8) [OF w] by blast
  qed
qed

lemma disconnect_effect:
  assumes w: "wired cfg" and d: "disconnect i cfg = Some cfg'"
  shows "\<exists>cs f. idx_upd (connected cfg) i False = Some cs \<and> cfg' = cfg\<lparr>connected := cs, net := (net cfg)\<lparr>enabled := f\<rparr>\<rparr>
    \<and> (\<forall>e. f e \<longleftrightarrow> enabled (net cfg) e \<and> (\<forall>j. end_of cfg i j \<noteq> Some e \<and> end_of cfg j i \<noteq> Some e))"
proof -
  from d obtain cs cfg1 where cs: "idx_upd (connected cfg) i False = Some cs"
    and l1: "enable_loop (\<lambda>j cfg. has_ends i cfg) (\<lambda>j cfg. end_of cfg i j) False (servers_of cfg) (cfg\<lparr>connected := cs\<rparr>)
      = Some cfg1"
    and l2: "enable_loop (\<lambda>j cfg. has_ends j cfg) (\<lambda>j cfg. end_of cfg j i) False (servers_of cfg1) cfg1 = Some cfg'"
    by (auto simp: disconnect_def Let_def bind_eq_Some_conv)
  let ?f = "\<lambda>e. if \<exists>j \<in> set (servers_of cfg). has_ends i cfg = Some True \<and> end_of cfg i j = Some e then False
    else enabled (net cfg) e"
  let ?g = "\<lambda>e. if \<exists>j \<in> set (servers_of cfg). has_ends j cfg = Some True \<and> end_of cfg j i = Some e then False else ?f e"
  have f: "cfg1 = cfg\<lparr>connected := cs, net := (net cfg)\<lparr>enabled := ?f\<rparr>\<rparr>"
    using enable_loop_net [OF _ _ l1] by simp
  have g: "cfg' = cfg\<lparr>connected := cs, net := (net cfg)\<lparr>enabled := ?g\<rparr>\<rparr>"
    using enable_loop_net [OF _ _ l2] by (simp add: f)
  have "?g e \<longleftrightarrow> enabled (net cfg) e \<and> (\<forall>j. end_of cfg i j \<noteq> Some e \<and> end_of cfg j i \<noteq> Some e)" for e
  proof (cases "\<exists>j. end_of cfg i j = Some e \<or> end_of cfg j i = Some e")
    case True
    then show ?thesis using end_of_range [OF w] by (metis (no_types, lifting))
  next
    case False
    then show ?thesis by simp
  qed
  with cs g show ?thesis by (intro exI [of _ cs] exI [of _ ?g]) auto
qed

lemma disconnect_wired:
  assumes w: "wired cfg" and d: "disconnect i cfg = Some cfg'"
  shows "wired cfg'" "\<not> on cfg' i"
proof -
  from disconnect_effect [OF w d] obtain cs f where cs: "idx_upd (connected cfg) i False = Some cs"
    and cfg': "cfg' = cfg\<lparr>connected := cs, net := (net cfg)\<lparr>enabled := f\<rparr>\<rparr>"
    and f: "\<And>e. f e \<longleftrightarrow> enabled (net cfg) e \<and> (\<forall>j. end_of cfg i j \<noteq> Some e \<and> end_of cfg j i \<noteq> Some e)"
    by blast
  show "wired cfg'"
    unfolding cfg'
  proof (rule wired_switch [OF w cs])
    show "f e \<longleftrightarrow> (if k = i then False else on cfg k) \<and> (if j = i then False else on cfg j)"
      if e: "end_of cfg k j = Some e" for k j e
      unfolding f end_of_unique [OF w e] wiredD(7) [OF w e] by auto
    show "\<exists>k j. end_of cfg k j = Some e" if "f e" for e
      using that unfolding f using wiredD(8) [OF w] by blast
  qed simp
  show "\<not> on cfg' i" using on_upd [OF cs, of i] by (simp add: cfg')
qed

lemma wired_cong:
  assumes "wired cfg" and "connected cfg' = connected cfg" "endnames cfg' = endnames cfg" "cfg_n cfg' = cfg_n cfg"
    and "ends (net cfg') = ends (net cfg)" "enabled (net cfg') = enabled (net cfg)"
      "connections (net cfg') = connections (net cfg)"
  shows "wired cfg'"
  using assms unfolding wired_def end_of_def has_ends_def on_def by simp

lemma crash1_disconnects:
  assumes "crash1 i cfg = Some cfg'"
  obtains cfg1 where "disconnect i cfg = Some cfg1" "connected cfg' = connected cfg1" "endnames cfg' = endnames cfg1"
    "cfg_n cfg' = cfg_n cfg1" "net cfg' = DeleteServer (IntName i) (net cfg1)" "cfgApplied cfg' = cfgApplied cfg1"
    "logs cfg' = logs cfg1" "idx (rafts cfg') i = Some None"
proof -
  from assms obtain cfg1 where d: "disconnect i cfg = Some cfg1" by (auto simp: crash1_def bind_eq_Some_conv)
  with assms have "connected cfg' = connected cfg1 \<and> endnames cfg' = endnames cfg1 \<and> cfg_n cfg' = cfg_n cfg1
      \<and> net cfg' = DeleteServer (IntName i) (net cfg1) \<and> cfgApplied cfg' = cfgApplied cfg1 \<and> logs cfg' = logs cfg1
      \<and> idx (rafts cfg') i = Some None"
    by (cases "rafts cfg1 ! nat i")
      (auto simp: crash1_def Let_def bind_eq_Some_conv idx_upd_Some_iff idx_Some_iff)
  with d show thesis by (intro that [of cfg1]) simp_all
qed

lemma crash1_wired:
  assumes w: "wired cfg" and c: "crash1 i cfg = Some cfg'"
  shows "wired cfg'" "\<not> on cfg' i"
proof -
  from c obtain cfg1 where d: "disconnect i cfg = Some cfg1" and same: "connected cfg' = connected cfg1"
    "endnames cfg' = endnames cfg1" "cfg_n cfg' = cfg_n cfg1" "net cfg' = DeleteServer (IntName i) (net cfg1)"
    by (rule crash1_disconnects)
  show "wired cfg'"
    by (rule wired_cong [OF disconnect_wired(1) [OF w d]]) (simp_all add: same DeleteServer_def)
  show "\<not> on cfg' i"
    using disconnect_wired(2) [OF w d] by (simp add: on_def same)
qed

lemma make_ends_effect:
  assumes "make_ends j es rn = Some rn'"
  shows "distinct es \<and> set es \<inter> set (ends rn) = {} \<and> ends rn' = ends rn @ es \<and> servers rn' = servers rn
    \<and> (\<forall>e. enabled rn' e \<longleftrightarrow> e \<notin> set es \<and> enabled rn e)
    \<and> (\<forall>k < length es. connections rn' (es ! k) = Some (IntName (j + int k)))
    \<and> (\<forall>e. e \<notin> set es \<longrightarrow> connections rn' e = connections rn e)"
  using assms
proof (induction es arbitrary: j rn)
  case (Cons e es)
  from Cons.prems obtain rn1 where rn1: "MakeEnd e rn = Some rn1"
    and rest: "make_ends (j + 1) es (Connect e (IntName j) rn1) = Some rn'"
    by (auto simp: bind_eq_Some_conv)
  from rn1 have "e \<notin> set (ends rn)" and rn1: "rn1 = rn\<lparr>ends := ends rn @ [e], enabled := (enabled rn)(e := False),
      connections := (connections rn)(e := None)\<rparr>"
    by (auto simp: MakeEnd_def split: if_splits)
  with Cons.IH [OF rest] show ?case
    by (auto simp: Connect_def nth_Cons algebra_simps split: nat.splits)
qed simp

text \<open>A restarted server has a row of fresh ends, none of them enabled.\<close>

lemma fresh_row_wired:
  assumes w: "wired cfg" and off: "\<not> on cfg i" and names: "length names = cfg_n cfg"
    and row: "idx_upd (endnames cfg) i (Some names) = Some es" and rn: "make_ends 0 names (net cfg) = Some rn"
  shows "wired (cfg\<lparr>endnames := es, net := rn\<rparr>)" (is "wired ?cfg")
proof -
  note eff = make_ends_effect [OF rn]
  have at: "end_of ?cfg k j = (if k = i then idx names j else end_of cfg k j)" for k j
    using idx_upd_at [OF row, of k] by (simp add: end_of_def)
  have has: "has_ends k ?cfg = (if k = i then Some True else has_ends k cfg)" for k
    using idx_upd_at [OF row, of k] by (simp add: has_ends_def)
  have on: "on ?cfg k = on cfg k" for k by (simp add: on_def)
  have new: "e \<in> set names \<and> e \<notin> set (ends (net cfg))" if "idx names j = Some e" for e j
    using idx_in_set [OF that] eff by blast
  have old: "e \<notin> set names" if "end_of cfg k j = Some e" for k j e
    using wiredD(5) [OF w that] eff by blast
  have "length es = cfg_n cfg" "\<forall>x \<in> set es. \<forall>ns. x = Some ns \<longrightarrow> length ns = cfg_n cfg"
    using w row names unfolding wired_def
    by (auto simp: idx_upd_Some_iff dest!: set_update_subset_insert [THEN subsetD])
  moreover have "k = k' \<and> j = j'" if "end_of ?cfg k j = Some e" "end_of ?cfg k' j' = Some e" for k j k' j' e
    using that new [of _ e] old [of _ _ e] wiredD(4) [OF w] eff unfolding at
    by (cases "k = i"; cases "k' = i") (auto simp: idx_Some_iff nth_eq_iff_index_eq)
  moreover have "e \<in> set (ends rn) \<and> connections rn e = Some (IntName j) \<and> (enabled rn e \<longleftrightarrow> on ?cfg k \<and> on ?cfg j)"
    if e: "end_of ?cfg k j = Some e" for k j e
  proof (cases "k = i")
    case True
    with e [unfolded at] have "idx names j = Some e" by simp
    with eff new off True show ?thesis unfolding on by (auto simp: idx_Some_iff)
  next
    case False
    with e [unfolded at] have "end_of cfg k j = Some e" by simp
    with old wiredD(5-7) [OF w this] eff show ?thesis unfolding on by auto
  qed
  moreover have "\<exists>k j. end_of ?cfg k j = Some e" if "enabled rn e" for e
  proof -
    from that eff have "enabled (net cfg) e" "e \<notin> set names" by auto
    with wiredD(8) [OF w] wiredD(7) [OF w] off at show ?thesis by (metis (full_types))
  qed
  ultimately show ?thesis
    using wiredD(1,3) [OF w] off unfolding wired_def has on by simp
qed

lemma start1_wired:
  assumes w: "wired cfg" and st: "start1 C S clk draw srv i cfg = Some cfg'"
  shows "wired cfg'" "\<not> on cfg' i"
proof -
  from st obtain cfg1 es rn where c: "crash1 i cfg = Some cfg1"
    and row: "idx_upd (endnames cfg1) i (Some (map draw [0..<cfg_n cfg1])) = Some es"
    and rn: "make_ends 0 (map draw [0..<cfg_n cfg1]) (net cfg1) = Some rn"
    and cfg': "connected cfg' = connected cfg1" "endnames cfg' = es" "cfg_n cfg' = cfg_n cfg1"
      "net cfg' = AddServer (IntName i) srv rn"
    by (auto simp: start1_def ingestSnap_def Let_def bind_eq_Some_conv split: option.splits if_splits)
  note crashed = crash1_wired [OF w c]
  show "wired cfg'"
    by (rule wired_cong [OF fresh_row_wired [OF crashed _ row rn]]) (simp_all add: cfg' AddServer_def)
  show "\<not> on cfg' i" using crashed(2) by (simp add: on_def cfg')
qed

datatype 'c cfg_op = OConnect int | ODisconnect int | OCrash int | OStart "'c codec" "'c snap_codec" clock "nat \<Rightarrow> string" nat int

fun cfg_exec :: "'c cfg_op \<Rightarrow> 'c config \<Rightarrow> 'c config option" where
  "cfg_exec (OConnect i) cfg = connect i cfg"
| "cfg_exec (ODisconnect i) cfg = disconnect i cfg"
| "cfg_exec (OCrash i) cfg = crash1 i cfg"
| "cfg_exec (OStart C S clk draw srv i) cfg = start1 C S clk draw srv i cfg"

interpretation harness: machine cfg_exec wired
proof
  fix cfg cfg' :: "'a config" and x
  assume "wired cfg" and "cfg_exec x cfg = Some cfg'"
  then show "wired cfg'"
    by (cases x) (auto intro: connect_wired disconnect_wired crash1_wired start1_wired)
qed

lemma blank_wired: "wired (blank_config tm n)"
  by (auto simp: wired_def blank_config_def MakeNetwork_def on_def end_of_def idx_def bind_eq_Some_conv)

text \<open>
  C20. Connectivity of the test network. After any sequence of \<open>connect\<close>, \<open>disconnect\<close>, \<open>crash1\<close> and
  \<open>start1\<close> calls: a request on the end from server \<open>i\<close> to server \<open>j\<close> finds the end enabled exactly if
  both are connected, and is routed to server \<open>j\<close>; every end that is not in the table of current names, in
  particular each end of an instance that \<open>start1\<close> has replaced, is disabled. (The ends of a crashed
  instance stay in the table until \<open>start1\<close> replaces it, and \<open>connect\<close> would enable them again.)
\<close>

theorem network_connectivity:
  assumes "run cfg_exec ops (blank_config tm n) = Some cfg"
  shows "(end_of cfg i j = Some e \<longrightarrow> readEndnameInfo e (net cfg) =
      (on cfg i \<and> on cfg j, Some (IntName j), servers (net cfg) (IntName j), reliable (net cfg), longReordering (net cfg)))
    \<and> ((\<forall>i j. end_of cfg i j \<noteq> Some e) \<longrightarrow> fst (readEndnameInfo e (net cfg)) = False)"
proof -
  have w: "wired cfg" using blank_wired assms by (rule harness.good_run)
  then show ?thesis
    using wiredD(6,7) [OF w, of i j e] wiredD(8) [OF w, of e] by (auto simp: readEndnameInfo_def)
qed

section \<open>Restarting from a snapshot\<close>

definition sample_snap :: "int snap_codec" where
  "sample_snap =
     \<lparr>enc_snap = (\<lambda>i xs. gob sample_codec
        [GInt i, GLog \<lparr>Entries = map (\<lambda>c. \<lparr>Command = c, Term = 0, Index = 0\<rparr>) xs, Index0 = 0\<rparr>]),
      dec_snap = (\<lambda>b. case ungob sample_codec b of
        [GInt i, GLog l] \<Rightarrow> Some (i, map Command (Entries l)) | _ \<Rightarrow> None)\<rparr>"

lemma sample_snap_ok: "snap_codec_ok sample_snap"
  using codec_okD [OF sample_codec_ok] by (simp add: snap_codec_ok_def sample_snap_def o_def)

definition sample_ops :: "int cfg_op list" where
  "sample_ops =
     [OStart sample_codec sample_snap sample_clock (\<lambda>k. CHR ''a'' # replicate k CHR ''x'') 0 0,
      OStart sample_codec sample_snap sample_clock (\<lambda>k. CHR ''b'' # replicate k CHR ''x'') 1 1,
      OConnect 0, OConnect 1, OCrash 1,
      OStart sample_codec sample_snap sample_clock (\<lambda>k. CHR ''c'' # replicate k CHR ''x'') 2 1, OConnect 1]"

lemma sample_ops_run:
  "map_option (\<lambda>cfg. (end_of cfg 0 1, on cfg 0, on cfg 1, end_of cfg 1 0)) (run cfg_exec sample_ops (blank_config 0 2))
     = Some (Some ''ax'', True, True, Some ''c'')"
  by code_simp

theorem network_connectivity_witness:
  "\<exists>cfg. run cfg_exec sample_ops (blank_config 0 2) = Some cfg \<and> end_of cfg 0 1 = Some ''ax''
     \<and> readEndnameInfo ''ax'' (net cfg) =
       (True, Some (IntName 1), servers (net cfg) (IntName 1), reliable (net cfg), longReordering (net cfg))"
proof -
  from sample_ops_run obtain cfg where cfg: "run cfg_exec sample_ops (blank_config 0 2) = Some cfg"
    and e: "end_of cfg 0 1 = Some ''ax''" "on cfg 0" "on cfg 1"
    by auto
  from network_connectivity [OF cfg, of 0 1 "''ax''"] e have "readEndnameInfo ''ax'' (net cfg) =
      (True, Some (IntName 1), servers (net cfg) (IntName 1), reliable (net cfg), longReordering (net cfg))"
    by simp
  with cfg e(1) show ?thesis by blast
qed

lemma enable_loop_only: "enable_loop cond name b js cfg = Some cfg' \<Longrightarrow> \<exists>rn. cfg' = cfg\<lparr>net := rn\<rparr>"
proof (induction js arbitrary: cfg)
  case Nil
  then show ?case by (auto intro: exI [of _ "net cfg"])
next
  case (Cons j js)
  then obtain rn where "enable_loop cond name b js (cfg\<lparr>net := rn\<rparr>) = Some cfg'"
    by (auto simp: bind_eq_Some_conv intro: that [of "net cfg"] split: if_splits)
  from Cons.IH [OF this] show ?case by auto
qed

lemma disconnect_only: "disconnect i cfg = Some cfg' \<Longrightarrow> \<exists>cs rn. cfg' = cfg\<lparr>connected := cs, net := rn\<rparr>"
  by (auto simp: disconnect_def Let_def bind_eq_Some_conv dest!: enable_loop_only) blast

text \<open>A crash keeps what the server had persisted.\<close>

lemma crash1_saved:
  assumes c: "crash1 i cfg = Some cfg'" and "idx (saved cfg) i = Some (Some ps)" "idx (rafts cfg) i = Some (Some rf)"
  shows "idx (saved cfg') i = Some (Some (persister rf))" "length (logs cfg') = length (logs cfg)"
    "length (cfgApplied cfg') = length (cfgApplied cfg)" "idx (rafts cfg') i = Some None"
proof -
  from c obtain cfg1 where "disconnect i cfg = Some cfg1" by (auto simp: crash1_def bind_eq_Some_conv)
  then obtain cs rn where d: "disconnect i cfg = Some (cfg\<lparr>connected := cs, net := rn\<rparr>)"
    using disconnect_only by blast
  have "\<lparr>raftstate = raftstate p, snapshot = snapshot p\<rparr> = p" for p :: Persister by simp
  with c d assms(2,3) show "idx (saved cfg') i = Some (Some (persister rf))" "length (logs cfg') = length (logs cfg)"
    "length (cfgApplied cfg') = length (cfgApplied cfg)" "idx (rafts cfg') i = Some None"
    by (auto simp: crash1_def saved_at_def Let_def bind_eq_Some_conv idx_upd_Some_iff idx_Some_iff
        SaveStateAndSnapshot_def ReadRaftState_def ReadSnapshot_def)
qed

lemma ingested_iff: "(case r of Some (cfg, None) \<Rightarrow> Some cfg | _ \<Rightarrow> None) = Some cfg' \<longleftrightarrow> r = Some (cfg', None)"
  by (auto split: option.splits prod.splits)

lemma ingestSnap_done:
  assumes "snap_codec_ok S" and "ingestSnap S i (enc_snap S k xs) (-1) cfg = Some (cfg', None)"
  shows "idx (logs cfg') i = Some (idx xs) \<and> idx (cfgApplied cfg') i = Some k \<and> rafts cfg' = rafts cfg"
  using assms by (auto simp: snap_codec_ok_def ingestSnap_def bind_eq_Some_conv idx_upd_at split: if_splits)

lemma start1_resumes:
  assumes ok: "codec_ok C" "snap_codec_ok S" and at: "idx (saved cfg) i = Some (Some ps)" "idx (rafts cfg) i = Some (Some rf)"
    and rf: "raftstate (persister rf) = persistData C rf" "ReadSnapshot (persister rf) = enc_snap S k xs"
    and st: "start1 C S clk draw srv i cfg = Some cfg'"
  shows "\<exists>rf'. idx (rafts cfg') i = Some (Some rf') \<and> rlog rf' = rlog rf \<and> currentTerm rf' = currentTerm rf
    \<and> votedFor rf' = votedFor rf \<and> lastApplied rf' = Index0 (rlog rf) \<and> persister rf' = persister rf
    \<and> idx (cfgApplied cfg') i = Some k \<and> idx (logs cfg') i = Some (idx xs)"
proof -
  from st obtain cfg1 where c: "crash1 i cfg = Some cfg1" by (auto simp: start1_def bind_eq_Some_conv)
  note crashed = crash1_saved [OF c at]
  have snap: "enc_snap S k xs \<noteq> []" "dec_snap S (enc_snap S k xs) = Some (k, xs)"
    using ok(2) by (auto simp: snap_codec_ok_def)
  have read: "ungob C (raftstate (persister rf)) = [GInt (currentTerm rf), GInt (votedFor rf), GLog (rlog rf)]"
    "raftstate (persister rf) \<noteq> []"
    using codec_okD [OF ok(1)] rf(1) by (auto simp: persistData_def)
  from st c crashed rf snap read show ?thesis
    by (auto simp: start1_def Let_def saved_at_def bind_eq_Some_conv ingested_iff Make_def readPersist_def
        ReadRaftState_def idx_upd_at dest!: ingestSnap_done [OF ok(2)])
qed

text \<open>The same restart before the first snapshot: the harness counts from 0 again and keeps its copy of the log.\<close>

lemma start1_resumes_plain:
  assumes ok: "codec_ok C" and at: "idx (saved cfg) i = Some (Some ps)" "idx (rafts cfg) i = Some (Some rf)"
    and rf: "raftstate (persister rf) = persistData C rf" "ReadSnapshot (persister rf) = []"
    and st: "start1 C S clk draw srv i cfg = Some cfg'"
  shows "\<exists>rf'. idx (rafts cfg') i = Some (Some rf') \<and> rlog rf' = rlog rf \<and> currentTerm rf' = currentTerm rf
    \<and> votedFor rf' = votedFor rf \<and> lastApplied rf' = Index0 (rlog rf) \<and> persister rf' = persister rf
    \<and> idx (cfgApplied cfg') i = Some 0"
proof -
  from st obtain cfg1 where c: "crash1 i cfg = Some cfg1" by (auto simp: start1_def bind_eq_Some_conv)
  note crashed = crash1_saved [OF c at]
  have read: "ungob C (raftstate (persister rf)) = [GInt (currentTerm rf), GInt (votedFor rf), GLog (rlog rf)]"
    "raftstate (persister rf) \<noteq> []"
    using codec_okD [OF ok] rf(1) by (auto simp: persistData_def)
  from st c crashed rf read show ?thesis
    by (auto simp: start1_def Let_def saved_at_def bind_eq_Some_conv Make_def readPersist_def
        ReadRaftState_def idx_upd_at)
qed

text \<open>
  What a restart relies on: the persister holds the server's term, vote and log, and the snapshot of the first
  index of the log, or no snapshot if the log still starts at 0.
\<close>

definition resumable :: "'c codec \<Rightarrow> 'c snap_codec \<Rightarrow> 'c Raft \<Rightarrow> bool" where
  "resumable C S rf \<longleftrightarrow> raftstate (persister rf) = persistData C rf
     \<and> (Index0 (rlog rf) = 0 \<and> ReadSnapshot (persister rf) = []
        \<or> (\<exists>xs. ReadSnapshot (persister rf) = enc_snap S (Index0 (rlog rf)) xs))"

lemma start1_resumable:
  assumes ok: "codec_ok C" "snap_codec_ok S" and at: "idx (saved cfg) i = Some (Some ps)" "idx (rafts cfg) i = Some (Some rf)"
    and rf: "resumable C S rf" and st: "start1 C S clk draw srv i cfg = Some cfg'"
  shows "\<exists>rf'. idx (rafts cfg') i = Some (Some rf') \<and> rlog rf' = rlog rf \<and> currentTerm rf' = currentTerm rf
    \<and> votedFor rf' = votedFor rf \<and> lastApplied rf' = Index0 (rlog rf) \<and> persister rf' = persister rf
    \<and> idx (cfgApplied cfg') i = Some (Index0 (rlog rf)) \<and> resumable C S rf'"
proof -
  have saved: "raftstate (persister rf) = persistData C rf" using rf by (simp add: resumable_def)
  have same: "resumable C S rf'" if "rlog rf' = rlog rf" "currentTerm rf' = currentTerm rf"
    "votedFor rf' = votedFor rf" "persister rf' = persister rf" for rf'
    using rf that by (simp add: resumable_def persistData_def)
  from rf consider "Index0 (rlog rf) = 0" "ReadSnapshot (persister rf) = []"
    | xs where "ReadSnapshot (persister rf) = enc_snap S (Index0 (rlog rf)) xs"
    by (auto simp: resumable_def)
  then show ?thesis
  proof cases
    case 1
    from start1_resumes_plain [OF ok(1) at saved 1(2) st] 1(1) same show ?thesis by metis
  next
    case 2
    from start1_resumes [OF ok at saved 2 st] same show ?thesis by metis
  qed
qed

lemma checkLogs_only: "checkLogs i m cfg = Some (cfg', err, ok) \<Longrightarrow> rafts cfg' = rafts cfg \<and> saved cfg' = saved cfg"
  by (auto simp: checkLogs_def Let_def bind_eq_Some_conv)

lemma applierSnap_snapshots:
  assumes cmd: "CommandValid m" "\<not> SnapshotValid m" "(CommandIndex m + 1) mod SnapShotInterval = 0"
    and ap: "applierSnap C S i m (rf, cfg) = Some (rf1, cfg1)"
  obtains lg where "idx (logs cfg1) i = Some lg" "rafts cfg1 = rafts cfg" "saved cfg1 = saved cfg"
    "Snapshot C (CommandIndex m) (enc_snap S (CommandIndex m) (map (entry_or_nil lg) [0..CommandIndex m])) rf = Some rf1"
proof -
  from cmd ap obtain la cfg0 ok las lg where la: "idx (cfgApplied cfg) i = Some la" "CommandIndex m = la + 1"
    and logs: "checkLogs i m cfg = Some (cfg0, None, ok)" and lg: "idx (logs cfg0) i = Some lg"
    and cfg1: "cfg1 = cfg0\<lparr>cfgApplied := las\<rparr>"
    and snap: "Snapshot C (CommandIndex m) (enc_snap S (CommandIndex m) (map (entry_or_nil lg) [0..CommandIndex m])) rf = Some rf1"
    by (auto simp: applierSnap_def Let_def bind_eq_Some_conv split: if_splits option.splits)
  from checkLogs_only [OF logs] lg cfg1 snap show thesis by (intro that [of lg]) auto
qed

text \<open>
  C19. Snapshots and restarts in the harness. A server whose persister is in step with its log applies a
  command at which the harness takes a snapshot, and is then crashed and restarted. The
  new instance has the log, term and vote of the old one and a persister that is in step again, and the server's
  \<open>lastApplied\<close> and the harness's are the same index, so the next command delivered is the one
  expected. If the command is committed and strictly inside the log, that index is the command's, the log starts
  there, and the harness knows again every command up to it. Otherwise, in particular when the command
  is the last entry of the log, no snapshot was taken and both resume at the start of the old log.
\<close>

theorem snapshot_restart:
  assumes ok: "codec_ok C" "snap_codec_ok S"
    and cmd: "CommandValid m" "\<not> SnapshotValid m" "(CommandIndex m + 1) mod SnapShotInterval = 0"
    and rf: "wf_log (rlog rf)" "resumable C S rf"
    and ap: "applierSnap C S i m (rf, cfg) = Some (rf1, cfg1)" and sv: "idx (saved cfg) i = Some (Some ps)"
    and inst: "idx_upd (rafts cfg1) i (Some rf1) = Some rs"
    and st: "start1 C S clk draw srv i (cfg1\<lparr>rafts := rs\<rparr>) = Some cfg2"
  shows "let taken = Index0 (rlog rf) \<le> CommandIndex m \<and> CommandIndex m < last_index (rlog rf)
        \<and> CommandIndex m \<le> commitIndex rf;
      k = (if taken then CommandIndex m else Index0 (rlog rf)) in
    (\<not> taken \<longrightarrow> rf1 = rf) \<and>
    (\<exists>rf2. idx (rafts cfg2) i = Some (Some rf2) \<and> rlog rf2 = rlog rf1 \<and> currentTerm rf2 = currentTerm rf1
      \<and> votedFor rf2 = votedFor rf1 \<and> resumable C S rf2 \<and> Index0 (rlog rf2) = k \<and> lastApplied rf2 = k
      \<and> idx (cfgApplied cfg2) i = Some k)
    \<and> (taken \<longrightarrow> (\<exists>lg1 lg2. idx (logs cfg1) i = Some lg1 \<and> idx (logs cfg2) i = Some lg2
      \<and> (\<forall>j. lg2 j = (if 0 \<le> j \<and> j \<le> k then Some (entry_or_nil lg1 j) else None))))"
proof -
  let ?k = "CommandIndex m"
  from cmd ap obtain lg where lg: "idx (logs cfg1) i = Some lg" and same: "saved cfg1 = saved cfg"
    and snap: "Snapshot C ?k (enc_snap S ?k (map (entry_or_nil lg) [0..?k])) rf = Some rf1"
    by (elim applierSnap_snapshots)
  have at: "idx (saved (cfg1\<lparr>rafts := rs\<rparr>)) i = Some (Some ps)" "idx (rafts (cfg1\<lparr>rafts := rs\<rparr>)) i = Some (Some rf1)"
    using sv idx_upd_at [OF inst] by (simp_all add: same)
  note outcome = Snapshot_outcome [OF rf(1), of C ?k "enc_snap S ?k (map (entry_or_nil lg) [0..?k])"]
  show ?thesis
  proof (cases "Index0 (rlog rf) \<le> ?k \<and> ?k < last_index (rlog rf) \<and> ?k \<le> commitIndex rf")
    case True
    then have k: "0 \<le> ?k" using rf(1) by (simp add: wf_log_def)
    from outcome True snap have made: "Index0 (rlog rf1) = ?k" "raftstate (persister rf1) = persistData C rf1"
      "ReadSnapshot (persister rf1) = enc_snap S ?k (map (entry_or_nil lg) [0..?k])"
      by auto
    then have "resumable C S rf1" by (auto simp: resumable_def)
    from start1_resumable [OF ok at this st] start1_resumes [OF ok at made(2,3) st] made(1)
    have "\<exists>rf2. idx (rafts cfg2) i = Some (Some rf2) \<and> rlog rf2 = rlog rf1 \<and> currentTerm rf2 = currentTerm rf1
        \<and> votedFor rf2 = votedFor rf1 \<and> resumable C S rf2 \<and> Index0 (rlog rf2) = ?k \<and> lastApplied rf2 = ?k
        \<and> idx (cfgApplied cfg2) i = Some ?k"
      and "idx (logs cfg2) i = Some (idx (map (entry_or_nil lg) [0..?k]))" by auto
    moreover have "idx (map (entry_or_nil lg) [0..?k]) j = (if 0 \<le> j \<and> j \<le> ?k then Some (entry_or_nil lg j) else None)" for j
      using k by (auto simp: idx_def)
    ultimately show ?thesis using True lg by simp
  next
    case False
    with outcome snap have same_rf: "rf1 = rf" by (simp only: if_False) auto
    from start1_resumable [OF ok at rf(2) [folded same_rf] st] False show ?thesis
      by (auto simp: same_rf Let_def)
  qed
qed

definition snap_log :: "int Log" where
  "snap_log = \<lparr>Entries = map (\<lambda>k. \<lparr>Command = Cmd 1, Term = 1, Index = k\<rparr>) [0..10], Index0 = 0\<rparr>"

definition snap_raft :: "int Raft" where
  "snap_raft = (the (Make sample_codec sample_clock 2 0 MakePersister))
     \<lparr>rlog := snap_log, commitIndex := 10,
      persister := \<lparr>raftstate = gob sample_codec [GInt 0, GInt (-1), GLog snap_log], snapshot = []\<rparr>\<rparr>"

definition snap_config :: "int config" where
  "snap_config = (blank_config 0 2)
     \<lparr>logs := [\<lambda>k. if 1 \<le> k \<and> k \<le> 8 then Some (Cmd 1) else None, \<lambda>k. None], cfgApplied := [8, 0],
      saved := [Some MakePersister, None], rafts := [Some snap_raft, None]\<rparr>"

definition snap_applied :: "(int Raft \<times> int config) option" where
  "snap_applied = applierSnap sample_codec sample_snap 0 (msg_of 9 1) (snap_raft, snap_config)"

definition snap_restarted :: "int config option" where
  "snap_restarted = do {
     (rf, cfg) \<leftarrow> snap_applied;
     rs \<leftarrow> idx_upd (rafts cfg) 0 (Some rf);
     start1 sample_codec sample_snap sample_clock (\<lambda>k. replicate k CHR ''x'') 5 0 (cfg\<lparr>rafts := rs\<rparr>)
   }"

lemma snap_restarted_some: "snap_restarted \<noteq> None"
  by code_simp

lemma snap_raft_ok:
  "wf_log (rlog snap_raft)" "Index0 (rlog snap_raft) = 0" "last_index (rlog snap_raft) = 10" "commitIndex snap_raft = 10"
  by (simp_all add: snap_raft_def snap_log_def wf_log_def wf_entries_def Len_def)

lemma snap_raft_resumable: "resumable sample_codec S snap_raft"
  by (simp add: resumable_def snap_raft_def snap_log_def persistData_def ReadSnapshot_def Make_def Let_def
      readPersist_def ReadRaftState_def MakePersister_def resetElectionTimer_def)

theorem snapshot_restart_witness:
  "\<exists>cfg2 rf2. snap_restarted = Some cfg2 \<and> idx (rafts cfg2) 0 = Some (Some rf2) \<and> lastApplied rf2 = 9
     \<and> idx (cfgApplied cfg2) 0 = Some 9"
proof -
  from snap_restarted_some obtain cfg2 where cfg2: "snap_restarted = Some cfg2" by auto
  then obtain rf1 cfg1 rs where ap: "snap_applied = Some (rf1, cfg1)"
    and rs: "idx_upd (rafts cfg1) 0 (Some rf1) = Some rs"
    and st: "start1 sample_codec sample_snap sample_clock (\<lambda>k. replicate k CHR ''x'') 5 0 (cfg1\<lparr>rafts := rs\<rparr>) = Some cfg2"
    unfolding snap_restarted_def bind_eq_Some_conv by (auto simp: bind_eq_Some_conv)
  have sv: "idx (saved snap_config) 0 = Some (Some MakePersister)" by (simp add: snap_config_def idx_def)
  have m: "CommandValid (msg_of 9 1)" "\<not> SnapshotValid (msg_of 9 1)" "CommandIndex (msg_of 9 1) = 9"
    by (simp_all add: msg_of_def)
  have "\<exists>rf2. idx (rafts cfg2) 0 = Some (Some rf2) \<and> lastApplied rf2 = 9 \<and> idx (cfgApplied cfg2) 0 = Some 9"
    using snapshot_restart [OF sample_codec_ok sample_snap_ok m(1,2) _ snap_raft_ok(1) snap_raft_resumable
        ap [unfolded snap_applied_def] sv rs st]
    by (auto simp: m snap_raft_ok SnapShotInterval_def Let_def)
  with cfg2 show ?thesis by auto
qed

section \<open>The leader check\<close>

definition leads :: "'c config \<Rightarrow> int \<Rightarrow> int \<Rightarrow> bool" where
  "leads cfg i t \<longleftrightarrow> on cfg i \<and> raft_state cfg i = Some (t, True)"

lemma map_of_add_leader:
  "map_of (add_leader t i xs) u = (if u = t then Some ((case map_of xs t of None \<Rightarrow> [] | Some ls \<Rightarrow> ls) @ [i]) else map_of xs u)"
  by (induction xs) auto

lemma keys_add_leader: "fst ` set (add_leader t i xs) = insert t (fst ` set xs)"
  by (induction t i xs rule: add_leader.induct) force+

lemma distinct_add_leader: "distinct (map fst xs) \<Longrightarrow> distinct (map fst (add_leader t i xs))"
  by (induction t i xs rule: add_leader.induct) (auto simp: keys_add_leader)

lemma lists_add_leader: "\<forall>ls \<in> snd ` set xs. ls \<noteq> [] \<Longrightarrow> \<forall>ls \<in> snd ` set (add_leader t i xs). ls \<noteq> []"
  by (induction t i xs rule: add_leader.induct) (auto split: if_splits)

text \<open>The map the first loop builds: the leaders of each term, in order.\<close>

definition leaders_in :: "'c config \<Rightarrow> int list \<Rightarrow> int \<Rightarrow> int list" where
  "leaders_in cfg js t = filter (\<lambda>i. leads cfg i t) js"

lemma leaders_loop_map:
  assumes "leaders_loop cfg js xs = Some ys" and "distinct (map fst xs)" and "\<forall>ls \<in> snd ` set xs. ls \<noteq> []"
  shows "distinct (map fst ys) \<and> (\<forall>ls \<in> snd ` set ys. ls \<noteq> [])
    \<and> (\<forall>t. (case map_of ys t of None \<Rightarrow> [] | Some ls \<Rightarrow> ls)
      = (case map_of xs t of None \<Rightarrow> [] | Some ls \<Rightarrow> ls) @ leaders_in cfg js t)"
  using assms
proof (induction js arbitrary: xs)
  case Nil
  then show ?case by (simp add: leaders_in_def)
next
  case (Cons i js)
  from Cons.prems(1) consider (skip) "\<forall>t. \<not> leads cfg i t" "leaders_loop cfg js xs = Some ys"
    | (add) t where "leads cfg i t" "leaders_loop cfg js (add_leader t i xs) = Some ys"
    by (auto simp: bind_eq_Some_conv leads_def on_def split: if_splits)
  then show ?case
  proof cases
    case skip
    with Cons.IH [OF skip(2) Cons.prems(2,3)] show ?thesis by (simp add: leaders_in_def)
  next
    case (add t)
    have uniq: "leads cfg i u \<longleftrightarrow> u = t" for u using add(1) by (auto simp: leads_def)
    from Cons.IH [OF add(2) distinct_add_leader [OF Cons.prems(2)] lists_add_leader [OF Cons.prems(3)]] show ?thesis
      by (auto simp: leaders_in_def uniq map_of_add_leader split: option.splits if_splits)
  qed
qed

lemma last_term_loop_ok:
  "\<forall>ls \<in> snd ` set xs. length ls \<le> 1 \<Longrightarrow> \<exists>t. last_term_loop xs b = Some t \<and> b \<le> t \<and> (\<forall>u \<in> fst ` set xs. u \<le> t)
     \<and> (t = b \<or> t \<in> fst ` set xs)"
proof (induction xs arbitrary: b)
  case (Cons x xs)
  obtain u ls where x: "x = (u, ls)" by (cases x)
  from Cons.prems have len: "length ls \<le> 1" and rest: "\<forall>ls \<in> snd ` set xs. length ls \<le> 1" by (auto simp: x)
  from Cons.IH [OF rest, of "if u > b then u else b"] obtain t where
    "last_term_loop xs (if u > b then u else b) = Some t" "(if u > b then u else b) \<le> t"
    "\<forall>u \<in> fst ` set xs. u \<le> t" "t = (if u > b then u else b) \<or> t \<in> fst ` set xs"
    by blast
  with len show ?case by (intro exI [of _ t]) (auto simp: x split: if_splits)
qed simp

text \<open>The poll, when no term has two connected leaders and terms are not negative.\<close>

lemma poll_correct:
  assumes len: "length (connected cfg) = cfg_n cfg" and rafts: "\<And>i. i \<in> set (servers_of cfg) \<Longrightarrow> raft_state cfg i \<noteq> None"
    and one: "\<And>i j t. leads cfg i t \<Longrightarrow> leads cfg j t \<Longrightarrow> i = j" and pos: "\<And>i t. leads cfg i t \<Longrightarrow> 0 \<le> t"
  shows "\<exists>r. checkOneLeader_poll cfg = Some r \<and>
    (case r of None \<Rightarrow> \<forall>i t. \<not> leads cfg i t
     | Some l \<Rightarrow> \<exists>t. leads cfg l t \<and> (\<forall>i u. leads cfg i u \<longrightarrow> i \<noteq> l \<longrightarrow> u < t))"
proof -
  let ?js = "servers_of cfg"
  have "\<exists>ys. leaders_loop cfg js xs = Some ys" if "set js \<subseteq> set ?js" for js xs
    using that
  proof (induction js arbitrary: xs)
    case (Cons i js)
    then obtain c tl where "idx (connected cfg) i = Some c" "raft_state cfg i = Some tl"
      using rafts [of i] len by (auto simp: servers_of_def idx_def)
    with Cons show ?case by (cases tl) auto
  qed simp
  then obtain ys where ys: "leaders_loop cfg ?js [] = Some ys" by blast
  from leaders_loop_map [OF ys] have dist: "distinct (map fst ys)" and ne: "\<forall>ls \<in> snd ` set ys. ls \<noteq> []"
    and at: "\<And>t. (case map_of ys t of None \<Rightarrow> [] | Some ls \<Rightarrow> ls) = leaders_in cfg ?js t" by auto
  have lead: "map_of ys t = (if leaders_in cfg ?js t = [] then None else Some (leaders_in cfg ?js t))" for t
  proof (cases "map_of ys t")
    case (Some ls)
    then have "(t, ls) \<in> set ys" by (rule map_of_SomeD)
    with ne have "ls \<noteq> []" by force
    with at [of t] Some show ?thesis by simp
  qed (use at [of t] in simp)
  have member: "i \<in> set (leaders_in cfg ?js t) \<longleftrightarrow> leads cfg i t" for i t
    using in_servers [OF len] by (auto simp: leaders_in_def leads_def)
  have single: "leaders_in cfg ?js t = [l]" if "leads cfg l t" for l t
  proof -
    have "set (leaders_in cfg ?js t) = {l}" using member one that by blast
    moreover have "distinct (leaders_in cfg ?js t)" by (simp add: leaders_in_def servers_of_def)
    ultimately show ?thesis
      by (cases "leaders_in cfg ?js t" rule: remdups_adj.cases) auto
  qed
  have short: "\<forall>ls \<in> snd ` set ys. length ls \<le> 1"
  proof clarify
    fix u ls assume "(u, ls) \<in> set ys"
    then have "map_of ys u = Some ls" using dist by simp
    with lead [of u] have "ls = leaders_in cfg ?js u" "hd ls \<in> set ls" by (auto split: if_splits)
    with member single [of "hd ls" u] have "ls = [hd ls]" by simp
    then have "length ls = length [hd ls]" by (rule arg_cong)
    then show "length (snd (u, ls)) \<le> 1" by simp
  qed
  obtain t where t: "last_term_loop ys (-1) = Some t" "\<forall>u \<in> fst ` set ys. u \<le> t" "t = -1 \<or> t \<in> fst ` set ys"
    using last_term_loop_ok [OF short, of "-1"] by blast
  have key: "u \<in> fst ` set ys \<longleftrightarrow> (\<exists>i. leads cfg i u)" for u
  proof -
    have "u \<in> fst ` set ys \<longleftrightarrow> map_of ys u \<noteq> None" by (simp add: map_of_eq_None_iff)
    also have "\<dots> \<longleftrightarrow> (\<exists>i. i \<in> set (leaders_in cfg ?js u))" by (simp add: lead ex_in_conv)
    finally show ?thesis by (simp add: member)
  qed
  show ?thesis
  proof (cases "ys = []")
    case True
    with key have "\<forall>i t. \<not> leads cfg i t" by simp
    with ys t True show ?thesis by (simp add: checkOneLeader_poll_def)
  next
    case False
    then obtain u where u: "u \<in> fst ` set ys" by (cases ys) auto
    with key obtain i where "leads cfg i u" by blast
    from pos [OF this] t(2) u have "0 \<le> t" by fastforce
    with t(3) key obtain l where l: "leads cfg l t" by auto
    from single [OF l] lead [of t] have "map_of ys t = Some [l]" by simp
    then have "checkOneLeader_poll cfg = Some (Some l)"
      using ys t False by (simp add: checkOneLeader_poll_def idx_def)
    moreover have "v < t" if "leads cfg i v" "i \<noteq> l" for i v
      using that t(2) key one [OF _ l, of i] by (metis order_le_less)
    ultimately show ?thesis using l by auto
  qed
qed

text \<open>
  C17. The leader check of the tests is sound. In every state that a replicated cluster of running servers
  reaches without the snapshot RPC (\<open>rep_reach\<close>), with any subset of the servers connected, a poll of \<open>checkOneLeader\<close> does not fail: it finds
  no leader among the connected servers, or returns the one whose term is greater than that of every
  other connected server that believes to be leader.
\<close>

theorem checkOneLeader_sound:
  assumes ok: "codec_ok C" and reach: "rep_reach C n (s, ms)" and n: "cfg_n cfg = n" "length (connected cfg) = n"
    and rafts: "rafts cfg = map (\<lambda>i. Some (nodes s i)) [0..int n - 1]"
  shows "\<exists>r. checkOneLeader_poll cfg = Some r \<and>
    (case r of None \<Rightarrow> \<forall>i t. \<not> leads cfg i t
     | Some l \<Rightarrow> \<exists>t. leads cfg l t \<and> (\<forall>i u. leads cfg i u \<longrightarrow> i \<noteq> l \<longrightarrow> u < t))"
proof (rule poll_correct)
  obtain H where inv: "rep_inv C n s (set ms) H" using rep_reach_inv [OF ok reach] by auto
  have at: "raft_state cfg i = Some (GetState (nodes s i))" if "i \<in> peer_ids n" for i
    using that by (auto simp: raft_state_def rafts idx_def peer_ids_def nth_upto)
  have lead: "i \<in> peer_ids n \<and> state (nodes s i) = Leader \<and> currentTerm (nodes s i) = t" if "leads cfg i t" for i t
  proof -
    have "i \<in> peer_ids n" using that n by (auto simp: leads_def on_def idx_Some_iff peer_ids_def)
    with at [OF this] that show ?thesis by (simp add: leads_def GetState_def)
  qed
  show "length (connected cfg) = cfg_n cfg" using n by simp
  show "raft_state cfg i \<noteq> None" if "i \<in> set (servers_of cfg)" for i
    using that at [of i] n by (auto simp: servers_of_def peer_ids_def)
  have maj: "majority n {v. (v, t, i) \<in> granted s}" if "leads cfg i t" for i t
    using lead [OF that] rep_invD(1) [OF inv] by (auto simp: sys_inv_def leaders_ok_def)
  show "i = j" if "leads cfg i t" "leads cfg j t" for i j t
    using unique_winner [OF rep_invD(1) [OF inv] maj [OF that(1)] maj [OF that(2)]] .
  show "0 \<le> t" if "leads cfg i t" for i t
    using lead [OF that] rep_invD(3) [OF inv, of i] by (auto simp: replica_ok_def)
qed

theorem checkOneLeader_sound_witness:
  "\<exists>s ms cfg r. sample_replication = Some (s, ms) \<and> connected cfg = [True, True, True]
     \<and> rafts cfg = map (\<lambda>i. Some (nodes s i)) [0..2] \<and> checkOneLeader_poll cfg = Some r"
proof -
  obtain s ms where s: "sample_replication = Some (s, ms)" "rep_reach sample_codec 3 (s, ms)"
    by (rule sample_replication_reach)
  let ?cfg = "(blank_config 0 3)\<lparr>connected := [True, True, True], rafts := map (\<lambda>i. Some (nodes s i)) [0..2]\<rparr>"
  have "\<exists>r. checkOneLeader_poll ?cfg = Some r \<and> (case r of None \<Rightarrow> \<forall>i t. \<not> leads ?cfg i t
     | Some l \<Rightarrow> \<exists>t. leads ?cfg l t \<and> (\<forall>i u. leads ?cfg i u \<longrightarrow> i \<noteq> l \<longrightarrow> u < t))"
    by (rule checkOneLeader_sound [OF sample_codec_ok s(2)]) (simp_all add: blank_config_def)
  with s(1) show ?thesis by (intro exI [of _ s] exI [of _ ms] exI [of _ ?cfg]) auto
qed

section \<open>Agreement in the tests\<close>

text \<open>
  What the results of \<open>wait\<close> and \<open>one\<close> mean: the command was applied at the index by as many servers as
  asked for, unless a term has passed or the test is over.
\<close>

lemma wait_loop_done:
  "wait_loop envs k n st cfg = Some (cfg', True) \<Longrightarrow> \<exists>rf. Some rf \<in> set (rafts cfg') \<and> fst (GetState rf) > st"
proof (induction envs arbitrary: cfg)
  case (Cons env envs)
  have moved: "moved_on st rs = Some True \<Longrightarrow> \<exists>rf. Some rf \<in> set rs \<and> fst (GetState rf) > st" for rs :: "'a Raft option list"
    by (induction rs) (auto simp: bind_eq_Some_conv split: if_splits)
  from Cons show ?case
    by (auto simp: bind_eq_Some_conv Let_def dest: moved split: if_splits)
qed simp

lemma wait_result:
  assumes "wait envs k n st cfg = Some (cmd, cfg')"
  shows "(\<exists>rf. Some rf \<in> set (rafts cfg') \<and> fst (GetState rf) > st \<and> cmd = IntCmd (-1))
    \<or> (\<exists>nd \<ge> n. nCommitted cfg' k = Some (nd, cmd))"
  using assms by (auto simp: wait_def bind_eq_Some_conv dest!: wait_loop_done split: if_splits)

lemma one_poll_agreed:
  "one_poll envs cmd k es cfg = Some (True, cfg') \<Longrightarrow> \<exists>nd \<ge> es. nd > 0 \<and> nCommitted cfg' k = Some (nd, Cmd cmd)"
  by (induction envs arbitrary: cfg) (auto simp: bind_eq_Some_conv split: if_splits)

lemma one_result:
  "one C clk turns cmd es retry starts cfg = Some (k, cfg') \<Longrightarrow>
     checkFinished cfg' \<and> k = -1 \<or> (\<exists>nd \<ge> es. nd > 0 \<and> nCommitted cfg' k = Some (nd, Cmd cmd))"
proof (induction C clk turns cmd es retry starts cfg rule: one.induct)
  case (2 C clk polls nap turns cmd es retry starts cfg)
  show ?case
  proof (cases "checkFinished cfg")
    case False
    with 2(3) obtain k1 st1 cfg1 where offer: "one_try C clk cmd (cfg_n cfg) starts cfg = Some (k1, st1, cfg1)"
      by (auto simp: bind_eq_Some_conv)
    show ?thesis
    proof (cases "k1 = -1")
      case True
      with 2(3) False offer have "one C clk turns cmd es retry st1 (nap cfg1) = Some (k, cfg')" by simp
      from 2(2) [OF False offer refl refl _ this] True show ?thesis by simp
    next
      case k1: False
      with 2(3) False offer obtain agreed cfg2 where p: "one_poll polls cmd k1 es cfg1 = Some (agreed, cfg2)"
        by (auto simp: bind_eq_Some_conv)
      show ?thesis
      proof (cases agreed)
        case True
        with 2(3) False offer p k1 show ?thesis by (auto dest: one_poll_agreed)
      next
        case no: False
        with 2(3) False offer p k1 have "retry" "one C clk turns cmd es retry st1 cfg2 = Some (k, cfg')"
          by (auto split: if_splits)
        with 2(1) [OF False offer refl refl k1 p refl no] show ?thesis by simp
      qed
    qed
  qed (use 2(3) in auto)
qed (auto split: if_splits)

end
