(* ===== verification/KvConfig.thy ===== *)
theory KvConfig
  imports RaftConfig "HOL-Library.Multiset"
begin

text \<open>
  The key-value server shell \<open>src/src/kvraft/server.go\<close> and its test harness
  \<open>src/src/kvraft/config.go\<close>; the harness of the shard controller, \<open>src/src/shardctrler/config.go\<close>, has
  the same operations. The service methods of the server are empty in the source.

  The conventions are those of \<open>RaftConfig\<close>: \<open>None\<close> is a panic or a fatal test error, random values and
  the clock are arguments, and the persister of a running server is that of its Raft instance. A clerk
  is known by the address of its object. Files that \<open>deleteClient\<close> removes are not modelled.
\<close>

section \<open>Server\<close>

record 'c KVServer =
  kv_me :: int
  kv_rf :: "'c Raft"
  kv_dead :: int
  kv_maxraftstate :: int

definition KVServer_Kill :: "'c KVServer \<Rightarrow> 'c KVServer" where
  "KVServer_Kill kv = kv\<lparr>kv_dead := 1, kv_rf := Kill (kv_rf kv)\<rparr>"

definition KVServer_killed :: "'c KVServer \<Rightarrow> bool" where
  "KVServer_killed kv \<longleftrightarrow> kv_dead kv = 1"

definition StartKVServer :: "'c codec \<Rightarrow> clock \<Rightarrow> nat \<Rightarrow> int \<Rightarrow> Persister \<Rightarrow> int \<Rightarrow> 'c KVServer option" where
  "StartKVServer C clk peers_n self ps maxraftstate = do {
     rf \<leftarrow> Make C clk peers_n self ps;
     Some \<lparr>kv_me = self, kv_rf = rf, kv_dead = 0, kv_maxraftstate = maxraftstate\<rparr>
   }"

section \<open>State of the harness\<close>

record 'c tester =
  kt_failed :: bool
  kt_net :: Network
  kt_n :: nat
  kvservers :: "'c KVServer option list"
  kt_saved :: "Persister option list"
  kt_endnames :: "string list option list"
  clerks :: "nat \<Rightarrow> string list option"
  nextClientId :: int
  maxraftstate :: int
  kt_start :: int
  kt_t0 :: int
  kt_rpcs0 :: int
  kt_ops :: "32 word"

definition kt_All :: "'c tester \<Rightarrow> int list" where
  "kt_All cfg = [0..int (kt_n cfg) - 1]"

definition kt_saved_at :: "'c tester \<Rightarrow> int \<Rightarrow> Persister option option" where
  "kt_saved_at cfg i = do {
     ps \<leftarrow> idx (kt_saved cfg) i;
     kv \<leftarrow> idx (kvservers cfg) i;
     Some (case (ps, kv) of (Some ps, Some kv) \<Rightarrow> Some (persister (kv_rf kv)) | _ \<Rightarrow> ps)
   }"

definition kt_end :: "'c tester \<Rightarrow> int \<Rightarrow> int \<Rightarrow> string option" where
  "kt_end cfg i j = do { es \<leftarrow> idx (kt_endnames cfg) i; names \<leftarrow> es; idx names j }"

definition kt_checkTimeout :: "int \<Rightarrow> 'c tester \<Rightarrow> 'c tester option" where
  "kt_checkTimeout tm cfg =
     (if \<not> kt_failed cfg \<and> tm - kt_start cfg > 120 * 1000000000 then None else Some cfg)"

definition kt_cleanup :: "int \<Rightarrow> 'c tester \<Rightarrow> 'c tester option" where
  "kt_cleanup tm cfg = do {
     let cfg = cfg\<lparr>kvservers := map (map_option KVServer_Kill) (kvservers cfg)\<rparr>;
     rn \<leftarrow> Cleanup (kt_net cfg);
     kt_checkTimeout tm (cfg\<lparr>kt_net := rn\<rparr>)
   }"

fun size_loop :: "(Persister \<Rightarrow> nat) \<Rightarrow> 'c tester \<Rightarrow> int list \<Rightarrow> nat \<Rightarrow> nat option" where
  "size_loop sz cfg [] logsize = Some logsize"
| "size_loop sz cfg (i # js) logsize = do {
     p \<leftarrow> kt_saved_at cfg i;
     ps \<leftarrow> p;
     size_loop sz cfg js (if sz ps > logsize then sz ps else logsize)
   }"

definition kt_LogSize :: "'c tester \<Rightarrow> nat option" where
  "kt_LogSize cfg = size_loop RaftStateSize cfg (kt_All cfg) 0"

definition kt_SnapshotSize :: "'c tester \<Rightarrow> nat option" where
  "kt_SnapshotSize cfg = size_loop SnapshotSize cfg (kt_All cfg) 0"

section \<open>Connections\<close>

definition kt_Enable :: "string \<Rightarrow> bool \<Rightarrow> 'c tester \<Rightarrow> 'c tester" where
  "kt_Enable e b cfg = cfg\<lparr>kt_net := Enable e b (kt_net cfg)\<rparr>"

text \<open>The ends between \<open>i\<close> and the listed servers, in the order in which the loops visit them.\<close>

definition connectUnlocked :: "int \<Rightarrow> int list \<Rightarrow> 'c tester \<Rightarrow> 'c tester option" where
  "connectUnlocked i to cfg = do {
     cfg \<leftarrow> run (\<lambda>t cfg. do { e \<leftarrow> kt_end cfg i t; Some (kt_Enable e True cfg) }) to cfg;
     run (\<lambda>t cfg. do { e \<leftarrow> kt_end cfg t i; Some (kt_Enable e True cfg) }) to cfg
   }"

text \<open>The second loop asks whether \<open>endnames[j]\<close>, not \<open>endnames[from[j]]\<close>, is nil.\<close>

fun disconnect_in :: "int \<Rightarrow> int \<Rightarrow> int list \<Rightarrow> 'c tester \<Rightarrow> 'c tester option" where
  "disconnect_in i j [] cfg = Some cfg"
| "disconnect_in i j (t # from) cfg = do {
     es \<leftarrow> idx (kt_endnames cfg) j;
     cfg \<leftarrow> (if es \<noteq> None then do { e \<leftarrow> kt_end cfg t i; Some (kt_Enable e False cfg) } else Some cfg);
     disconnect_in i (j + 1) from cfg
   }"

definition disconnectUnlocked :: "int \<Rightarrow> int list \<Rightarrow> 'c tester \<Rightarrow> 'c tester option" where
  "disconnectUnlocked i from cfg = do {
     cfg \<leftarrow> run (\<lambda>t cfg. do {
         es \<leftarrow> idx (kt_endnames cfg) i;
         if es \<noteq> None then do { e \<leftarrow> kt_end cfg i t; Some (kt_Enable e False cfg) } else Some cfg
       }) from cfg;
     disconnect_in i 0 from cfg
   }"

text \<open>The exported versions take the lock.\<close>

definition kt_connect :: "int \<Rightarrow> int list \<Rightarrow> 'c tester \<Rightarrow> 'c tester option" where
  "kt_connect i to cfg = connectUnlocked i to cfg"

definition kt_disconnect :: "int \<Rightarrow> int list \<Rightarrow> 'c tester \<Rightarrow> 'c tester option" where
  "kt_disconnect i from cfg = disconnectUnlocked i from cfg"

definition ConnectAll :: "'c tester \<Rightarrow> 'c tester option" where
  "ConnectAll cfg = run (\<lambda>i cfg. connectUnlocked i (kt_All cfg) cfg) (kt_All cfg) cfg"

definition kt_partition :: "int list \<Rightarrow> int list \<Rightarrow> 'c tester \<Rightarrow> 'c tester option" where
  "kt_partition p1 p2 cfg = do {
     cfg \<leftarrow> run (\<lambda>i cfg. do { cfg \<leftarrow> disconnectUnlocked i p2 cfg; connectUnlocked i p1 cfg }) p1 cfg;
     run (\<lambda>i cfg. do { cfg \<leftarrow> disconnectUnlocked i p1 cfg; connectUnlocked i p2 cfg }) p2 cfg
   }"

section \<open>Clients\<close>

text \<open>\<open>random_handles\<close>: \<open>r i\<close> is the value of \<open>rand.Intn(i + 1)\<close>.\<close>

fun shuffle_loop :: "(nat \<Rightarrow> nat) \<Rightarrow> nat list \<Rightarrow> 'a list \<Rightarrow> 'a list" where
  "shuffle_loop r [] sa = sa"
| "shuffle_loop r (i # js) sa = shuffle_loop r js (sa[i := sa ! r i, r i := sa ! i])"

definition random_handles :: "(nat \<Rightarrow> nat) \<Rightarrow> 'a list \<Rightarrow> 'a list" where
  "random_handles r kvh = shuffle_loop r [0..<length kvh] kvh"

definition ConnectClientUnlocked :: "nat \<Rightarrow> int list \<Rightarrow> 'c tester \<Rightarrow> 'c tester option" where
  "ConnectClientUnlocked ck to cfg = (let names = (case clerks cfg ck of None \<Rightarrow> [] | Some es \<Rightarrow> es) in
     run (\<lambda>t cfg. do { s \<leftarrow> idx names t; Some (kt_Enable s True cfg) }) to cfg)"

definition DisconnectClientUnlocked :: "nat \<Rightarrow> int list \<Rightarrow> 'c tester \<Rightarrow> 'c tester option" where
  "DisconnectClientUnlocked ck from cfg = (let names = (case clerks cfg ck of None \<Rightarrow> [] | Some es \<Rightarrow> es) in
     run (\<lambda>t cfg. do { s \<leftarrow> idx names t; Some (kt_Enable s False cfg) }) from cfg)"

definition ConnectClient :: "nat \<Rightarrow> int list \<Rightarrow> 'c tester \<Rightarrow> 'c tester option" where
  "ConnectClient ck to cfg = ConnectClientUnlocked ck to cfg"

definition DisconnectClient :: "nat \<Rightarrow> int list \<Rightarrow> 'c tester \<Rightarrow> 'c tester option" where
  "DisconnectClient ck from cfg = DisconnectClientUnlocked ck from cfg"

text \<open>The new clerk, at address \<open>ck\<close>, gets the ends in random order.\<close>

definition kt_makeClient :: "(nat \<Rightarrow> string) \<Rightarrow> (nat \<Rightarrow> nat) \<Rightarrow> nat \<Rightarrow> int list \<Rightarrow> 'c tester \<Rightarrow> (string list \<times> 'c tester) option" where
  "kt_makeClient draw r ck to cfg = do {
     let names = map draw [0..<kt_n cfg];
     rn \<leftarrow> make_ends 0 names (kt_net cfg);
     let cfg = cfg\<lparr>kt_net := rn, clerks := (clerks cfg)(ck \<mapsto> names), nextClientId := nextClientId cfg + 1\<rparr>;
     cfg \<leftarrow> ConnectClientUnlocked ck to cfg;
     Some (random_handles r names, cfg)
   }"

definition kt_deleteClient :: "nat \<Rightarrow> 'c tester \<Rightarrow> 'c tester" where
  "kt_deleteClient ck cfg = cfg\<lparr>clerks := (clerks cfg)(ck := None)\<rparr>"

section \<open>Servers\<close>

definition ShutdownServer :: "int \<Rightarrow> 'c tester \<Rightarrow> 'c tester option" where
  "ShutdownServer i cfg = do {
     cfg \<leftarrow> disconnectUnlocked i (kt_All cfg) cfg;
     let cfg = cfg\<lparr>kt_net := DeleteServer (IntName i) (kt_net cfg)\<rparr>;
     ps \<leftarrow> kt_saved_at cfg i;
     sv \<leftarrow> idx_upd (kt_saved cfg) i (map_option Persister_Copy ps);
     kvs \<leftarrow> idx_upd (kvservers cfg) i None;
     Some (cfg\<lparr>kt_saved := sv, kvservers := kvs\<rparr>)
   }"

definition StartServer :: "'c codec \<Rightarrow> clock \<Rightarrow> (nat \<Rightarrow> string) \<Rightarrow> nat \<Rightarrow> int \<Rightarrow> 'c tester \<Rightarrow> 'c tester option" where
  "StartServer C clk draw srv i cfg = do {
     let names = map draw [0..<kt_n cfg];
     es \<leftarrow> idx_upd (kt_endnames cfg) i (Some names);
     rn \<leftarrow> make_ends 0 names (kt_net cfg);
     let cfg = cfg\<lparr>kt_endnames := es, kt_net := rn\<rparr>;
     p \<leftarrow> kt_saved_at cfg i;
     let ps = (case p of Some ps \<Rightarrow> Persister_Copy ps | None \<Rightarrow> MakePersister);
     sv \<leftarrow> idx_upd (kt_saved cfg) i (Some ps);
     kv \<leftarrow> StartKVServer C clk (length names) i ps (maxraftstate cfg);
     kvs \<leftarrow> idx_upd (kvservers cfg) i (Some kv);
     Some (cfg\<lparr>kt_saved := sv, kvservers := kvs, kt_net := AddServer (IntName i) srv (kt_net cfg)\<rparr>)
   }"

fun Leader_loop :: "'c tester \<Rightarrow> int list \<Rightarrow> (bool \<times> int) option" where
  "Leader_loop cfg [] = Some (False, 0)"
| "Leader_loop cfg (i # js) = do {
     p \<leftarrow> idx (kvservers cfg) i;
     kv \<leftarrow> p;
     if snd (GetState (kv_rf kv)) then Some (True, i) else Leader_loop cfg js
   }"

definition kt_Leader :: "'c tester \<Rightarrow> (bool \<times> int) option" where
  "kt_Leader cfg = Leader_loop cfg (kt_All cfg)"

fun make_partition_loop :: "int \<Rightarrow> int list \<Rightarrow> nat \<Rightarrow> int list \<Rightarrow> int list \<Rightarrow> (int list \<times> int list) option" where
  "make_partition_loop l [] j p1 p2 = Some (p1, p2)"
| "make_partition_loop l (i # is) j p1 p2 =
     (if i \<noteq> l
      then if j < length p1 then make_partition_loop l is (j + 1) (p1[j := i]) p2
        else do { p2 \<leftarrow> idx_upd p2 (int j - int (length p1)) i; make_partition_loop l is (j + 1) p1 p2 }
      else make_partition_loop l is j p1 p2)"

definition make_partition :: "'c tester \<Rightarrow> (int list \<times> int list) option" where
  "make_partition cfg = do {
     (found, l) \<leftarrow> kt_Leader cfg;
     (p1, p2) \<leftarrow> make_partition_loop l (kt_All cfg) 0 (replicate (kt_n cfg div 2 + 1) 0) (replicate (kt_n cfg div 2) 0);
     p2 \<leftarrow> idx_upd p2 (int (length p2) - 1) l;
     Some (p1, p2)
   }"

text \<open>\<open>inp i\<close> are the clock, the names and the server address of the call of \<open>StartServer\<close> for \<open>i\<close>.\<close>

definition kt_make_config ::
  "'c codec \<Rightarrow> (int \<Rightarrow> clock \<times> (nat \<Rightarrow> string) \<times> nat) \<Rightarrow> int \<Rightarrow> nat \<Rightarrow> bool \<Rightarrow> int \<Rightarrow> 'c tester option" where
  "kt_make_config C inp tm n unreliable maxstate = do {
     let cfg = \<lparr>kt_failed = False, kt_net = MakeNetwork, kt_n = n, kvservers = replicate n None,
       kt_saved = replicate n None, kt_endnames = replicate n None, clerks = (\<lambda>c. None),
       nextClientId = int n + 1000, maxraftstate = maxstate, kt_start = tm, kt_t0 = 0, kt_rpcs0 = 0, kt_ops = 0\<rparr>;
     cfg \<leftarrow> run (\<lambda>i cfg. case inp i of (clk, draw, srv) \<Rightarrow> StartServer C clk draw srv i cfg) (kt_All cfg) cfg;
     cfg \<leftarrow> ConnectAll cfg;
     Some (cfg\<lparr>kt_net := Reliable (\<not> unreliable) (kt_net cfg)\<rparr>)
   }"

definition kt_rpcTotal :: "'c tester \<Rightarrow> int" where
  "kt_rpcTotal cfg = GetTotalCount (kt_net cfg)"

definition kt_begin :: "int \<Rightarrow> 'c tester \<Rightarrow> 'c tester" where
  "kt_begin tm cfg = cfg\<lparr>kt_t0 := tm, kt_rpcs0 := kt_rpcTotal cfg, kt_ops := 0\<rparr>"

definition kt_op :: "'c tester \<Rightarrow> 'c tester" where
  "kt_op cfg = cfg\<lparr>kt_ops := kt_ops cfg + 1\<rparr>"

text \<open>\<open>end\<close> returns what it prints: the time, peers, RPCs and clerk calls.\<close>

definition kt_end_test :: "int \<Rightarrow> 'c tester \<Rightarrow> (int \<times> int \<times> int \<times> int) option option" where
  "kt_end_test tm cfg = do {
     cfg \<leftarrow> kt_checkTimeout tm cfg;
     Some (if kt_failed cfg then None else Some (tm - kt_t0 cfg, int (kt_n cfg), kt_rpcTotal cfg - kt_rpcs0 cfg, sint (kt_ops cfg)))
   }"

end
