(* ===== verification/KvConfigCorrect.thy ===== *)
theory KvConfigCorrect
  imports KvConfig RaftConfigCorrect
begin

text \<open>
  Partitions of the key-value test network: what \<open>make_partition\<close> chooses and what \<open>partition\<close> does to
  the connections.
\<close>

section \<open>Random order\<close>

lemma shuffle_loop_perm:
  "\<forall>i \<in> set is. i < length sa \<and> r i \<le> i \<Longrightarrow> mset (shuffle_loop r is sa) = mset sa"
proof (induction "is" arbitrary: sa)
  case (Cons i "is")
  then have "mset (sa[i := sa ! r i, r i := sa ! i]) = mset sa"
    by (intro mset_swap) auto
  with Cons show ?case by simp
qed simp

lemma random_handles_perm: "(\<And>i. r i \<le> i) \<Longrightarrow> mset (random_handles r xs) = mset xs"
  unfolding random_handles_def by (rule shuffle_loop_perm) simp

section \<open>Choosing a partition\<close>

lemma Leader_loop_range:
  "Leader_loop cfg js = Some (f, l) \<Longrightarrow> f \<and> l \<in> set js \<or> \<not> f \<and> l = 0"
  by (induction js) (auto simp: bind_eq_Some_conv split: if_splits)

text \<open>The loop writes the other servers one after the other into the two slices.\<close>

lemma make_partition_loop_fill:
  assumes "j + length (filter (\<lambda>i. i \<noteq> l) is) \<le> length p1 + length p2"
  shows "make_partition_loop l is j p1 p2 = Some
    (let q = take j (p1 @ p2) @ filter (\<lambda>i. i \<noteq> l) is @ drop (j + length (filter (\<lambda>i. i \<noteq> l) is)) (p1 @ p2)
     in (take (length p1) q, drop (length p1) q))"
  using assms
proof (induction "is" arbitrary: j p1 p2)
  case (Cons i "is")
  show ?case
  proof (cases "i = l")
    case False
    let ?os = "filter (\<lambda>i. i \<noteq> l) is"
    from Cons.prems False have j: "j < length p1 + length p2" "Suc j + length ?os \<le> length p1 + length p2" by auto
    have step: "take (Suc j) ((p1 @ p2)[j := i]) = take j (p1 @ p2) @ [i]"
      "drop (Suc j + length ?os) ((p1 @ p2)[j := i]) = drop (Suc j + length ?os) (p1 @ p2)"
      using j(1) by (simp_all add: take_Suc_conv_app_nth)
    show ?thesis
    proof (cases "j < length p1")
      case True
      then have "p1[j := i] @ p2 = (p1 @ p2)[j := i]" by (simp add: list_update_append)
      with Cons.IH [of "Suc j" "p1[j := i]" p2] True False j step show ?thesis by (simp add: Let_def)
    next
      case far: False
      then have "p1 @ p2[j - length p1 := i] = (p1 @ p2)[j := i]" by (simp add: list_update_append)
      moreover have "idx_upd p2 (int j - int (length p1)) i = Some (p2[j - length p1 := i])"
        using far j(1) by (auto simp: idx_upd_def nat_diff_distrib')
      ultimately show ?thesis
        using Cons.IH [of "Suc j" p1 "p2[j - length p1 := i]"] far False j step by (simp add: Let_def)
    qed
  qed (use Cons in simp)
next
  case Nil
  have "take j (p1 @ p2) @ drop j (p1 @ p2) = p1 @ p2" by (rule append_take_drop_id)
  then show ?case by (simp only: Let_def list.size filter.simps append.left_neutral add_0_right make_partition_loop.simps) simp
qed

lemma length_others:
  assumes "l \<in> set (kt_All cfg)"
  shows "length (filter (\<lambda>i. i \<noteq> l) (kt_All cfg)) = kt_n cfg - 1"
proof -
  have "length (filter (\<lambda>i. i \<noteq> l) (kt_All cfg)) = card (set (filter (\<lambda>i. i \<noteq> l) (kt_All cfg)))"
    by (rule distinct_card [symmetric]) (simp add: kt_All_def)
  also have "set (filter (\<lambda>i. i \<noteq> l) (kt_All cfg)) = set (kt_All cfg) - {l}" by auto
  also have "card \<dots> = kt_n cfg - 1" using assms by (simp add: kt_All_def)
  finally show ?thesis .
qed

lemma make_partition_odd:
  assumes n: "kt_n cfg = 2 * m + 1" "0 < m" and l: "kt_Leader cfg = Some (found, l)"
  shows "make_partition cfg = Some
    (take (m + 1) (filter (\<lambda>i. i \<noteq> l) (kt_All cfg)), drop (m + 1) (filter (\<lambda>i. i \<noteq> l) (kt_All cfg)) @ [l])"
proof -
  let ?os = "filter (\<lambda>i. i \<noteq> l) (kt_All cfg)"
  have "l \<in> set (kt_All cfg)"
    using Leader_loop_range [OF l [unfolded kt_Leader_def]] n by (auto simp: kt_All_def)
  then have os: "length ?os = 2 * m" using length_others [of l cfg] n by simp
  let ?q = "?os @ [0]"
  have "replicate (m + 1) (0::int) @ replicate m 0 = replicate (2 * m) 0 @ [0]"
    using replicate_add [of "2 * m" 1 "0::int"] by (simp add: replicate_add [symmetric] mult_2)
  then have rest: "drop (2 * m) (replicate (m + 1) (0::int) @ replicate m 0) = [0]" by simp
  have "make_partition_loop l (kt_All cfg) 0 (replicate (m + 1) 0) (replicate m 0) = Some (take (m + 1) ?q, drop (m + 1) ?q)"
    using os rest by (subst make_partition_loop_fill) (simp_all add: Let_def del: replicate.simps drop_append take_append)
  moreover have "take (m + 1) ?q = take (m + 1) ?os" "drop (m + 1) ?q = drop (m + 1) ?os @ [0]"
    using os n(2) by simp_all
  moreover have "idx_upd (drop (m + 1) ?os @ [0]) (int (length (drop (m + 1) ?os @ [0])) - 1) l = Some (drop (m + 1) ?os @ [l])"
    using list_update_length [of "drop (m + 1) ?os" 0 "[]" l] by (simp add: idx_upd_def del: length_drop)
  ultimately show ?thesis using l n by (simp add: make_partition_def)
qed

section \<open>Effect on the network\<close>

text \<open>All servers have been started: every row of the table of ends is there, and no name occurs twice.\<close>

definition full :: "'c tester \<Rightarrow> bool" where
  "full cfg \<longleftrightarrow> length (kt_endnames cfg) = kt_n cfg
     \<and> (\<forall>es \<in> set (kt_endnames cfg). \<exists>names. es = Some names \<and> length names = kt_n cfg)
     \<and> (\<forall>i j i' j' e. kt_end cfg i j = Some e \<longrightarrow> kt_end cfg i' j' = Some e \<longrightarrow> i = i' \<and> j = j')"

abbreviation switch :: "'c tester \<Rightarrow> (string \<Rightarrow> bool) \<Rightarrow> 'c tester" where
  "switch cfg f \<equiv> cfg\<lparr>kt_net := (kt_net cfg)\<lparr>enabled := f\<rparr>\<rparr>"

definition link :: "'c tester \<Rightarrow> int \<Rightarrow> int \<Rightarrow> string \<Rightarrow> bool" where
  "link cfg i t e \<longleftrightarrow> kt_end cfg i t = Some e \<or> kt_end cfg t i = Some e"

lemma switch_simps [simp]:
  "kt_end (switch cfg f) i j = kt_end cfg i j" "kt_All (switch cfg f) = kt_All cfg" "full (switch cfg f) = full cfg"
  "link (switch cfg f) i t e = link cfg i t e"
  by (simp_all add: kt_end_def kt_All_def full_def link_def)

lemma kt_Enable_switch: "kt_Enable e b cfg = switch cfg ((enabled (kt_net cfg))(e := b))"
  by (simp add: kt_Enable_def Enable_def)

lemma full_end:
  assumes "full cfg" and "i \<in> set (kt_All cfg)" and "j \<in> set (kt_All cfg)"
  shows "\<exists>e. kt_end cfg i j = Some e"
proof -
  have i: "0 \<le> i" "nat i < length (kt_endnames cfg)" using assms by (auto simp: kt_All_def full_def)
  then obtain names where "kt_endnames cfg ! nat i = Some names" "length names = kt_n cfg"
    using assms(1) nth_mem [OF i(2)] unfolding full_def by metis
  with i assms show ?thesis by (auto simp: kt_end_def idx_def kt_All_def)
qed

lemma full_range:
  assumes "full cfg" and "kt_end cfg i j = Some e"
  shows "i \<in> set (kt_All cfg)" "j \<in> set (kt_All cfg)"
proof -
  from assms(2) obtain names where names: "idx (kt_endnames cfg) i = Some (Some names)" "idx names j = Some e"
    by (auto simp: kt_end_def bind_eq_Some_conv)
  with idx_in_set [OF names(1)] assms(1) have "length names = kt_n cfg" "length (kt_endnames cfg) = kt_n cfg"
    by (auto simp: full_def)
  with names show "i \<in> set (kt_All cfg)" "j \<in> set (kt_All cfg)" by (auto simp: kt_All_def idx_Some_iff)
qed

lemma full_unique: "full cfg \<Longrightarrow> kt_end cfg i j = Some e \<Longrightarrow> kt_end cfg i' j' = Some e \<longleftrightarrow> i' = i \<and> j' = j"
  by (auto simp: full_def)

text \<open>A loop that switches the ends \<open>nm t\<close>.\<close>

lemma run_switch:
  assumes "\<And>t cfg f. nm t (switch cfg f) = nm t cfg" and "\<forall>t \<in> set ts. \<exists>e. nm t cfg = Some e"
  shows "run (\<lambda>t cfg. do { e \<leftarrow> nm t cfg; Some (kt_Enable e b cfg) }) ts cfg
    = Some (switch cfg (\<lambda>e. if \<exists>t \<in> set ts. nm t cfg = Some e then b else enabled (kt_net cfg) e))"
  using assms(2)
proof (induction ts arbitrary: cfg)
  case (Cons t ts)
  then obtain e where e: "nm t cfg = Some e" by auto
  let ?cfg = "switch cfg ((enabled (kt_net cfg))(e := b))"
  have "(\<lambda>x. if \<exists>t \<in> set ts. nm t ?cfg = Some x then b else enabled (kt_net ?cfg) x)
      = (\<lambda>x. if \<exists>t \<in> set (t # ts). nm t cfg = Some x then b else enabled (kt_net cfg) x)"
    using e by (auto simp: assms(1))
  with Cons.IH [of ?cfg] Cons.prems e show ?case
    by (simp add: kt_Enable_switch assms(1))
qed simp

lemma disconnect_in_switch:
  assumes full: "full cfg" and i: "i \<in> set (kt_All cfg)" and ts: "set ts \<subseteq> set (kt_All cfg)"
    and j: "0 \<le> j" "j + int (length ts) \<le> int (kt_n cfg)"
  shows "disconnect_in i j ts cfg
    = Some (switch cfg (\<lambda>e. if \<exists>t \<in> set ts. kt_end cfg t i = Some e then False else enabled (kt_net cfg) e))"
  using full i ts j
proof (induction ts arbitrary: j cfg)
  case (Cons t ts)
  obtain e where e: "kt_end cfg t i = Some e" using full_end [OF Cons.prems(1), of t i] Cons.prems by auto
  have j: "nat j < length (kt_endnames cfg)" "j < int (length (kt_endnames cfg))" using Cons.prems by (auto simp: full_def)
  then have "\<exists>names. idx (kt_endnames cfg) j = Some (Some names)"
    using Cons.prems(1,4) nth_mem [OF j(1)] by (auto simp: full_def idx_def)
  then have "disconnect_in i j (t # ts) cfg = disconnect_in i (j + 1) ts (switch cfg ((enabled (kt_net cfg))(e := False)))"
    using e by (auto simp: kt_Enable_switch)
  also have "\<dots> = Some (switch cfg (\<lambda>x. if \<exists>t \<in> set ts. kt_end cfg t i = Some x then False
      else ((enabled (kt_net cfg))(e := False)) x))"
    using Cons.IH [of "switch cfg ((enabled (kt_net cfg))(e := False))" "j + 1"] Cons.prems
    by (simp add: kt_All_def)
  also have "(\<lambda>x. if \<exists>t \<in> set ts. kt_end cfg t i = Some x then False else ((enabled (kt_net cfg))(e := False)) x)
      = (\<lambda>x. if \<exists>t \<in> set (t # ts). kt_end cfg t i = Some x then False else enabled (kt_net cfg) x)"
    using e by auto
  finally show ?case .
qed simp

lemma connectUnlocked_switch:
  assumes "full cfg" and "i \<in> set (kt_All cfg)" and "set to \<subseteq> set (kt_All cfg)"
  shows "connectUnlocked i to cfg = Some (switch cfg (\<lambda>e. (\<exists>t \<in> set to. link cfg i t e) \<or> enabled (kt_net cfg) e))"
proof -
  have out: "\<forall>t \<in> set to. \<exists>e. kt_end cfg i t = Some e" and inn: "\<forall>t \<in> set to. \<exists>e. kt_end cfg t i = Some e"
    using full_end [OF assms(1)] assms(2,3) by blast+
  let ?f = "\<lambda>e. if \<exists>t \<in> set to. kt_end cfg i t = Some e then True else enabled (kt_net cfg) e"
  have "connectUnlocked i to cfg
      = run (\<lambda>t cfg. do { e \<leftarrow> kt_end cfg t i; Some (kt_Enable e True cfg) }) to (switch cfg ?f)"
    unfolding connectUnlocked_def using run_switch [of "\<lambda>t cfg. kt_end cfg i t", OF _ out] by simp
  also have "\<dots> = Some (switch cfg (\<lambda>e. if \<exists>t \<in> set to. kt_end cfg t i = Some e then True else ?f e))"
    using run_switch [of "\<lambda>t cfg. kt_end cfg t i" to "switch cfg ?f" True] inn by simp
  also have "(\<lambda>e. if \<exists>t \<in> set to. kt_end cfg t i = Some e then True else ?f e)
      = (\<lambda>e. (\<exists>t \<in> set to. link cfg i t e) \<or> enabled (kt_net cfg) e)"
    by (auto simp: link_def)
  finally show ?thesis .
qed

lemma run_row:
  "idx (kt_endnames cfg) i = Some (Some names) \<Longrightarrow>
   run (\<lambda>t cfg. do { es \<leftarrow> idx (kt_endnames cfg) i;
     if es \<noteq> None then do { e \<leftarrow> kt_end cfg i t; Some (kt_Enable e False cfg) } else Some cfg }) ts cfg
   = run (\<lambda>t cfg. do { e \<leftarrow> kt_end cfg i t; Some (kt_Enable e False cfg) }) ts cfg"
proof (induction ts arbitrary: cfg)
  case (Cons t ts)
  show ?case
  proof (cases "kt_end cfg i t")
    case (Some e)
    with Cons.prems Cons.IH [of "kt_Enable e False cfg"] show ?thesis by (simp add: kt_Enable_def)
  qed (use Cons.prems in simp)
qed simp

lemma disconnectUnlocked_switch:
  assumes full: "full cfg" and i: "i \<in> set (kt_All cfg)" and fr: "set fr \<subseteq> set (kt_All cfg)" "length fr \<le> kt_n cfg"
  shows "disconnectUnlocked i fr cfg
    = Some (switch cfg (\<lambda>e. (\<forall>t \<in> set fr. \<not> link cfg i t e) \<and> enabled (kt_net cfg) e))"
proof -
  obtain names where row: "idx (kt_endnames cfg) i = Some (Some names)"
    using full_end [OF full i i] by (auto simp: kt_end_def bind_eq_Some_conv)
  have out: "\<forall>t \<in> set fr. \<exists>e. kt_end cfg i t = Some e"
    using full_end [OF full i] fr by blast
  let ?f = "\<lambda>e. if \<exists>t \<in> set fr. kt_end cfg i t = Some e then False else enabled (kt_net cfg) e"
  have "disconnectUnlocked i fr cfg = disconnect_in i 0 fr (switch cfg ?f)"
    unfolding disconnectUnlocked_def run_row [OF row]
    using run_switch [of "\<lambda>t cfg. kt_end cfg i t", OF _ out] by simp
  also have "\<dots> = Some (switch cfg (\<lambda>e. if \<exists>t \<in> set fr. kt_end cfg t i = Some e then False else ?f e))"
    using disconnect_in_switch [of "switch cfg ?f" i fr 0] full i fr by simp
  also have "(\<lambda>e. if \<exists>t \<in> set fr. kt_end cfg t i = Some e then False else ?f e)
      = (\<lambda>e. (\<forall>t \<in> set fr. \<not> link cfg i t e) \<and> enabled (kt_net cfg) e)"
    by (auto simp: link_def)
  finally show ?thesis .
qed

text \<open>One side of \<open>partition\<close>: each server of \<open>xs\<close> is cut off from \<open>B\<close> and joined to \<open>A\<close>.\<close>

lemma side_switch:
  assumes "full cfg" and "set A \<subseteq> set (kt_All cfg)" "set B \<subseteq> set (kt_All cfg)" "length B \<le> kt_n cfg"
    and "set A \<inter> set B = {}" and "set xs \<subseteq> set A"
  shows "run (\<lambda>i cfg. do { cfg \<leftarrow> disconnectUnlocked i B cfg; connectUnlocked i A cfg }) xs cfg
    = Some (switch cfg (\<lambda>e. (\<exists>i \<in> set xs. \<exists>t \<in> set A. link cfg i t e)
        \<or> (\<forall>i \<in> set xs. \<forall>t \<in> set B. \<not> link cfg i t e) \<and> enabled (kt_net cfg) e))"
  using assms
proof (induction xs arbitrary: cfg)
  case (Cons x xs)
  let ?g = "\<lambda>e. (\<exists>t \<in> set A. link cfg x t e) \<or> (\<forall>t \<in> set B. \<not> link cfg x t e) \<and> enabled (kt_net cfg) e"
  have x: "x \<in> set (kt_All cfg)" using Cons.prems by auto
  have "do { cfg \<leftarrow> disconnectUnlocked x B cfg; connectUnlocked x A cfg } = Some (switch cfg ?g)"
    using disconnectUnlocked_switch [OF Cons.prems(1) x Cons.prems(3,4)] Cons.prems(1,2) x
    by (simp add: connectUnlocked_switch)
  moreover have "run (\<lambda>i cfg. do { cfg \<leftarrow> disconnectUnlocked i B cfg; connectUnlocked i A cfg }) xs (switch cfg ?g)
      = Some (switch cfg (\<lambda>e. (\<exists>i \<in> set xs. \<exists>t \<in> set A. link cfg i t e)
        \<or> (\<forall>i \<in> set xs. \<forall>t \<in> set B. \<not> link cfg i t e) \<and> ?g e))"
    using Cons.IH [of "switch cfg ?g"] Cons.prems by (simp add: kt_All_def)
  moreover have "\<not> link cfg i t e" if "link cfg x u e" "u \<in> set A" "i \<in> set xs" "t \<in> set B" for i t u e
    using that Cons.prems(5,6) full_unique [OF Cons.prems(1)] by (fastforce simp: link_def)
  then have "(\<lambda>e. (\<exists>i \<in> set xs. \<exists>t \<in> set A. link cfg i t e) \<or> (\<forall>i \<in> set xs. \<forall>t \<in> set B. \<not> link cfg i t e) \<and> ?g e)
      = (\<lambda>e. (\<exists>i \<in> set (x # xs). \<exists>t \<in> set A. link cfg i t e)
        \<or> (\<forall>i \<in> set (x # xs). \<forall>t \<in> set B. \<not> link cfg i t e) \<and> enabled (kt_net cfg) e)"
    by (intro ext) auto
  ultimately show ?case by simp
qed simp

lemma kt_partition_splits:
  assumes full: "full cfg" and p: "set p1 \<union> set p2 = set (kt_All cfg)" "set p1 \<inter> set p2 = {}"
    "length p1 \<le> kt_n cfg" "length p2 \<le> kt_n cfg"
  shows "\<exists>f. kt_partition p1 p2 cfg = Some (switch cfg f) \<and> (\<forall>i j e. kt_end cfg i j = Some e \<longrightarrow>
    f e \<longleftrightarrow> i \<in> set p1 \<and> j \<in> set p1 \<or> i \<in> set p2 \<and> j \<in> set p2)"
proof -
  let ?f = "\<lambda>e. (\<exists>i \<in> set p1. \<exists>t \<in> set p1. link cfg i t e)
    \<or> (\<forall>i \<in> set p1. \<forall>t \<in> set p2. \<not> link cfg i t e) \<and> enabled (kt_net cfg) e"
  let ?g = "\<lambda>e. (\<exists>i \<in> set p2. \<exists>t \<in> set p2. link cfg i t e) \<or> (\<forall>i \<in> set p2. \<forall>t \<in> set p1. \<not> link cfg i t e) \<and> ?f e"
  have "kt_partition p1 p2 cfg = Some (switch cfg ?g)"
  proof -
    have "run (\<lambda>i cfg. do { cfg \<leftarrow> disconnectUnlocked i p2 cfg; connectUnlocked i p1 cfg }) p1 cfg = Some (switch cfg ?f)"
      by (rule side_switch) (use full p in auto)
    moreover have "run (\<lambda>i cfg. do { cfg \<leftarrow> disconnectUnlocked i p1 cfg; connectUnlocked i p2 cfg }) p2 (switch cfg ?f)
        = Some (switch (switch cfg ?f) (\<lambda>e. (\<exists>i \<in> set p2. \<exists>t \<in> set p2. link (switch cfg ?f) i t e)
          \<or> (\<forall>i \<in> set p2. \<forall>t \<in> set p1. \<not> link (switch cfg ?f) i t e) \<and> enabled (kt_net (switch cfg ?f)) e))"
      by (rule side_switch) (use full p in auto)
    ultimately show ?thesis by (simp add: kt_partition_def)
  qed
  moreover have "?g e \<longleftrightarrow> i \<in> set p1 \<and> j \<in> set p1 \<or> i \<in> set p2 \<and> j \<in> set p2" if e: "kt_end cfg i j = Some e" for i j e
  proof -
    have lk: "link cfg k t e \<longleftrightarrow> k = i \<and> t = j \<or> t = i \<and> k = j" for k t
      unfolding link_def full_unique [OF full e] by blast
    have "i \<in> set p1 \<union> set p2" "j \<in> set p1 \<union> set p2" using full_range [OF full e] p(1) by auto
    then show ?thesis unfolding lk using p(2) by blast
  qed
  ultimately show ?thesis by blast
qed

section \<open>A partition with the leader in the minority\<close>

text \<open>The servers on the two sides.\<close>

lemma sides:
  assumes n: "kt_n cfg = 2 * m + 1" "0 < m" and l: "kt_Leader cfg = Some (found, l)" "make_partition cfg = Some (p1, p2)"
  shows "set p1 \<union> set p2 = set (kt_All cfg)" "set p1 \<inter> set p2 = {}" "distinct p1" "distinct p2"
    "length p1 = m + 1" "length p2 = m" "l \<in> set p2" "l \<in> set (kt_All cfg)"
proof -
  let ?os = "filter (\<lambda>i. i \<noteq> l) (kt_All cfg)"
  have p: "p1 = take (m + 1) ?os" "p2 = drop (m + 1) ?os @ [l]"
    using make_partition_odd [OF n l(1)] l(2) by auto
  show l_in: "l \<in> set (kt_All cfg)"
    using Leader_loop_range [OF l(1) [unfolded kt_Leader_def]] n by (auto simp: kt_All_def)
  have dist: "distinct (take (m + 1) ?os @ drop (m + 1) ?os)" by (simp add: kt_All_def)
  have sets: "set (take (m + 1) ?os) \<union> set (drop (m + 1) ?os) = set (kt_All cfg) - {l}"
    by (simp flip: set_append) auto
  have len: "length ?os = 2 * m" using length_others [OF l_in] n by simp
  show "set p1 \<union> set p2 = set (kt_All cfg)" using sets l_in by (auto simp: p)
  show "set p1 \<inter> set p2 = {}" using dist sets unfolding distinct_append p by auto
  show "distinct p1" "distinct p2" using dist sets unfolding distinct_append p by auto
  show "length p1 = m + 1" "length p2 = m" using len n by (auto simp: p)
  show "l \<in> set p2" by (simp add: p)
qed

lemma partition_isolates:
  assumes full: "full cfg" and n: "kt_n cfg = 2 * m + 1" "0 < m" and l: "kt_Leader cfg = Some (found, l)"
  shows "\<exists>p1 p2 f. make_partition cfg = Some (p1, p2) \<and> kt_partition p1 p2 cfg = Some (switch cfg f)
    \<and> majority (kt_n cfg) (set p1) \<and> l \<in> set p2 \<and> set p1 \<inter> set p2 = {} \<and> set p1 \<union> set p2 = peer_ids (kt_n cfg)
    \<and> (\<forall>i j e. kt_end cfg i j = Some e \<longrightarrow> f e \<longleftrightarrow> i \<in> set p1 \<and> j \<in> set p1 \<or> i \<in> set p2 \<and> j \<in> set p2)"
proof -
  obtain p1 p2 where p: "make_partition cfg = Some (p1, p2)" using make_partition_odd [OF n l] by blast
  note s = sides [OF n l p]
  have all: "set (kt_All cfg) = peer_ids (kt_n cfg)" by (auto simp: kt_All_def peer_ids_def)
  from kt_partition_splits [OF full s(1,2)] s(5,6) n obtain f where
    "kt_partition p1 p2 cfg = Some (switch cfg f)"
    "\<forall>i j e. kt_end cfg i j = Some e \<longrightarrow> f e \<longleftrightarrow> i \<in> set p1 \<and> j \<in> set p1 \<or> i \<in> set p2 \<and> j \<in> set p2"
    by auto
  moreover have "majority (kt_n cfg) (set p1)"
    using s(1,5) n distinct_card [OF s(3)] unfolding majority_def all [symmetric] by auto
  ultimately show ?thesis using p s all by (intro exI [of _ p1] exI [of _ p2] exI [of _ f]) auto
qed

text \<open>
  C21. A partition of the test network. With an odd number of at least three servers, each of which
  has been given its ends (\<open>full\<close>), and \<open>Leader\<close> returning (no server before the first leader is shut down),
  \<open>make_partition\<close> followed by \<open>partition\<close> does not panic and splits the servers into a majority and a minority that
  contains the server \<open>Leader\<close> reported; afterwards the end from one server to another is enabled
  exactly if both are on the same side.
\<close>

theorem partition_isolates_leader:
  assumes full: "full cfg" and n: "kt_n cfg = 2 * m + 1" "0 < m" and l: "kt_Leader cfg = Some (found, l)"
  shows "\<exists>p1 p2 f. make_partition cfg = Some (p1, p2) \<and> kt_partition p1 p2 cfg = Some (switch cfg f)
    \<and> majority (kt_n cfg) (set p1) \<and> l \<in> set p2 \<and> set p1 \<inter> set p2 = {} \<and> set p1 \<union> set p2 = peer_ids (kt_n cfg)
    \<and> (\<forall>i j e. kt_end cfg i j = Some e \<longrightarrow> f e \<longleftrightarrow> i \<in> set p1 \<and> j \<in> set p1 \<or> i \<in> set p2 \<and> j \<in> set p2)"
  by (rule partition_isolates [OF full n l])

text \<open>
  With an even number of servers the slices do not fit: a slot of the second one keeps its zero. Here
  server 2 of four leads, and server 0 is on both sides.
\<close>

definition kv_with :: "RaftState \<Rightarrow> int \<Rightarrow> int KVServer" where
  "kv_with st i = (let kv = the (StartKVServer sample_codec sample_clock 4 i MakePersister (-1)) in kv\<lparr>kv_rf := (kv_rf kv)\<lparr>state := st\<rparr>\<rparr>)"

definition four_servers :: "int tester" where
  "four_servers = \<lparr>kt_failed = False, kt_net = MakeNetwork, kt_n = 4,
     kvservers = map Some [kv_with Follower 0, kv_with Follower 1, kv_with Leader 2, kv_with Follower 3],
     kt_saved = replicate 4 None, kt_endnames = replicate 4 None, clerks = (\<lambda>c. None), nextClientId = 1004,
     maxraftstate = -1, kt_start = 0, kt_t0 = 0, kt_rpcs0 = 0, kt_ops = 0\<rparr>"

lemma make_partition_even: "make_partition four_servers = Some ([0, 1, 3], [0, 2])"
  by code_simp

definition three_names :: "int \<Rightarrow> nat \<Rightarrow> string" where
  "three_names i j = itoa i @ CHR ''-'' # replicate j CHR ''x''"

definition three_servers :: "int tester option" where
  "three_servers = kt_make_config sample_codec (\<lambda>i. (sample_clock, three_names i, nat i)) 0 3 False (-1)"

section \<open>Started harnesses\<close>

definition named :: "'c tester \<Rightarrow> bool" where
  "named cfg \<longleftrightarrow> length (kt_endnames cfg) = kt_n cfg
     \<and> (\<forall>es \<in> set (kt_endnames cfg). \<forall>names. es = Some names \<longrightarrow> length names = kt_n cfg)
     \<and> (\<forall>i j i' j' e. kt_end cfg i j = Some e \<longrightarrow> kt_end cfg i' j' = Some e \<longrightarrow> i = i' \<and> j = j')
     \<and> (\<forall>i j e. kt_end cfg i j = Some e \<longrightarrow> e \<in> set (ends (kt_net cfg)))"

lemma idx_unique: "distinct xs \<Longrightarrow> idx xs j = Some e \<Longrightarrow> idx xs j' = Some e \<Longrightarrow> j = j'"
  by (auto simp: idx_Some_iff nth_eq_iff_index_eq nat_less_iff eq_nat_nat_iff)

lemma StartServer_named:
  assumes nm: "named cfg" and st: "StartServer C clk draw srv i cfg = Some cfg'"
  shows "named cfg' \<and> kt_n cfg' = kt_n cfg \<and> idx_upd (kt_endnames cfg) i (Some (map draw [0..<kt_n cfg])) = Some (kt_endnames cfg')"
proof -
  let ?names = "map draw [0..<kt_n cfg]"
  from st obtain es rn where row: "idx_upd (kt_endnames cfg) i (Some ?names) = Some es"
    and rn: "make_ends 0 ?names (kt_net cfg) = Some rn"
    and cfg': "kt_endnames cfg' = es" "kt_n cfg' = kt_n cfg" "kt_net cfg' = AddServer (IntName i) srv rn"
    by (auto simp: StartServer_def Let_def bind_eq_Some_conv)
  note eff = make_ends_effect [OF rn]
  have at: "kt_end cfg' k j = (if k = i then idx ?names j else kt_end cfg k j)" for k j
    using idx_upd_at [OF row, of k] by (simp add: kt_end_def cfg')
  have new: "e \<in> set ?names \<and> e \<notin> set (ends (kt_net cfg))" if "idx ?names j = Some e" for e j
    using idx_in_set [OF that] eff by blast
  have old: "e \<in> set (ends (kt_net cfg)) \<and> e \<notin> set ?names" if "kt_end cfg k j = Some e" for k j e
    using nm that eff unfolding named_def by blast
  have uniq: "j = j'" if "idx ?names j = Some e" "idx ?names j' = Some e" for j j' e
    using eff that by (blast intro: idx_unique)
  have "k = k' \<and> j = j'" if "kt_end cfg' k j = Some e" "kt_end cfg' k' j' = Some e" for k j k' j' e
    using that new [of _ e] old [of _ _ e] uniq nm unfolding at named_def
    by (cases "k = i"; cases "k' = i") auto
  moreover have "e \<in> set (ends (kt_net cfg'))" if "kt_end cfg' k j = Some e" for k j e
    using that new [of _ e] old [of _ _ e] eff unfolding at by (auto simp: cfg' AddServer_def split: if_splits)
  moreover have "length es = kt_n cfg" "\<forall>x \<in> set es. \<forall>ns. x = Some ns \<longrightarrow> length ns = kt_n cfg"
    using nm row unfolding named_def
    by (auto simp: idx_upd_Some_iff dest!: set_update_subset_insert [THEN subsetD])
  ultimately show ?thesis using row cfg' by (auto simp: named_def)
qed

lemma start_all:
  assumes "run (\<lambda>i cfg. case inp i of (clk, draw, srv) \<Rightarrow> StartServer C clk draw srv i cfg) js cfg = Some cfg'" and "named cfg"
  shows "named cfg' \<and> kt_n cfg' = kt_n cfg \<and> (\<forall>k. idx (kt_endnames cfg') k = Some None \<longrightarrow> k \<notin> set js \<and> idx (kt_endnames cfg) k = Some None)"
  using assms
proof (induction js arbitrary: cfg)
  case (Cons i js)
  obtain clk draw srv where inp: "inp i = (clk, draw, srv)" by (cases "inp i")
  with Cons.prems(1) obtain cfg1 where st: "StartServer C clk draw srv i cfg = Some cfg1"
    and rest: "run (\<lambda>i cfg. case inp i of (clk, draw, srv) \<Rightarrow> StartServer C clk draw srv i cfg) js cfg1 = Some cfg'"
    by (auto simp: bind_eq_Some_conv)
  note first = StartServer_named [OF Cons.prems(2) st]
  with Cons.IH [OF rest] idx_upd_at [of "kt_endnames cfg" i] show ?case by (auto split: if_splits)
qed simp

lemma run_switches:
  "run g ts cfg = Some cfg' \<Longrightarrow> (\<And>t cfg cfg'. g t cfg = Some cfg' \<Longrightarrow> \<exists>f. cfg' = switch cfg f) \<Longrightarrow> \<exists>f. cfg' = switch cfg f"
proof (induction ts arbitrary: cfg)
  case Nil
  then show ?case by (auto intro: exI [of _ "enabled (kt_net cfg)"])
next
  case (Cons t ts)
  then obtain cfg1 where g: "g t cfg = Some cfg1" "run g ts cfg1 = Some cfg'" by (auto simp: bind_eq_Some_conv)
  from Cons.prems(2) [OF g(1)] Cons.IH [OF g(2) Cons.prems(2)] show ?case by auto
qed

lemma connectUnlocked_only: "connectUnlocked i to cfg = Some cfg' \<Longrightarrow> \<exists>f. cfg' = switch cfg f"
proof -
  assume "connectUnlocked i to cfg = Some cfg'"
  then obtain cfg1 where r: "run (\<lambda>t cfg. do { e \<leftarrow> kt_end cfg i t; Some (kt_Enable e True cfg) }) to cfg = Some cfg1"
    "run (\<lambda>t cfg. do { e \<leftarrow> kt_end cfg t i; Some (kt_Enable e True cfg) }) to cfg1 = Some cfg'"
    by (auto simp: connectUnlocked_def bind_eq_Some_conv)
  have "\<exists>f. cfg1 = switch cfg f" using r(1) by (rule run_switches) (auto simp: bind_eq_Some_conv kt_Enable_switch)
  moreover have "\<exists>f. cfg' = switch cfg1 f" using r(2) by (rule run_switches) (auto simp: bind_eq_Some_conv kt_Enable_switch)
  ultimately show ?thesis by auto
qed

text \<open>\<open>make_config\<close> leaves a full table of ends.\<close>

lemma make_config_full:
  assumes "kt_make_config C inp tm n unrel ms = Some cfg"
  shows "full cfg" "kt_n cfg = n"
proof -
  let ?cfg0 = "\<lparr>kt_failed = False, kt_net = MakeNetwork, kt_n = n, kvservers = replicate n None,
       kt_saved = replicate n None, kt_endnames = replicate n None, clerks = (\<lambda>c. None),
       nextClientId = int n + 1000, maxraftstate = ms, kt_start = tm, kt_t0 = 0, kt_rpcs0 = 0, kt_ops = 0\<rparr> :: 'a tester"
  from assms obtain cfg1 cfg2 where
    st: "run (\<lambda>i cfg. case inp i of (clk, draw, srv) \<Rightarrow> StartServer C clk draw srv i cfg) (kt_All ?cfg0) ?cfg0 = Some cfg1"
    and conn: "ConnectAll cfg1 = Some cfg2" and cfg: "cfg = cfg2\<lparr>kt_net := Reliable (\<not> unrel) (kt_net cfg2)\<rparr>"
    by (auto simp: kt_make_config_def Let_def bind_eq_Some_conv)
  have "named ?cfg0" by (auto simp: named_def kt_end_def bind_eq_Some_conv idx_Some_iff)
  from start_all [OF st this] have nm: "named cfg1" "kt_n cfg1 = n"
    and rows: "\<And>k. idx (kt_endnames cfg1) k = Some None \<Longrightarrow> k \<notin> set (kt_All ?cfg0)" by auto
  have "full cfg1"
    unfolding full_def
  proof (intro conjI ballI)
    fix es assume es: "es \<in> set (kt_endnames cfg1)"
    then obtain k where k: "k < length (kt_endnames cfg1)" "kt_endnames cfg1 ! k = es" by (auto simp: in_set_conv_nth)
    with rows [of "int k"] nm have "es \<noteq> None" by (auto simp: kt_All_def named_def)
    with es nm show "\<exists>names. es = Some names \<and> length names = kt_n cfg1" by (auto simp: named_def)
  qed (use nm in \<open>auto simp: named_def\<close>)
  moreover have "\<exists>f. cfg2 = switch cfg1 f"
    using conn unfolding ConnectAll_def by (rule run_switches) (rule connectUnlocked_only)
  ultimately show "full cfg" "kt_n cfg = n"
    using nm(2) by (auto simp: cfg full_def kt_end_def)
qed

lemma three_servers_leader: "Option.bind three_servers kt_Leader = Some (False, 0)"
  by code_simp

theorem partition_isolates_leader_witness:
  "\<exists>cfg p1 p2 f. three_servers = Some cfg \<and> make_partition cfg = Some (p1, p2) \<and> kt_partition p1 p2 cfg = Some (switch cfg f)
     \<and> majority 3 (set p1) \<and> 0 \<in> set p2"
proof -
  from three_servers_leader obtain cfg where cfg: "three_servers = Some cfg" "kt_Leader cfg = Some (False, 0)"
    by (auto simp: bind_eq_Some_conv)
  note made = make_config_full [OF cfg(1) [unfolded three_servers_def]]
  have n: "kt_n cfg = 2 * 1 + 1" "0 < (1::nat)" using made by simp_all
  from partition_isolates_leader [OF made(1) n cfg(2)] obtain p1 p2 f where
    "make_partition cfg = Some (p1, p2)" "kt_partition p1 p2 cfg = Some (switch cfg f)"
    "majority (kt_n cfg) (set p1)" "0 \<in> set p2" by blast
  with cfg(1) made(2) show ?thesis by auto
qed

end
