(* ===== verification/ShardConfig.thy ===== *)
theory ShardConfig
  imports RaftConfig Clerks
begin

text \<open>
  The shells of the shard controller and of the sharded key-value server, \<open>src/src/shardctrler/server.go\<close>
  and \<open>src/src/shardkv/server.go\<close>, whose service methods are empty in the source, and the test harness
  \<open>src/src/shardkv/config.go\<close> that runs three controllers and three groups on one network. The
  conventions are those of \<open>RaftConfig\<close>.
\<close>

section \<open>Servers\<close>

record 'c ShardCtrler =
  sc_me :: int
  sc_rf :: "'c Raft"
  sc_configs :: "Config list"

definition ShardCtrler_Kill :: "'c ShardCtrler \<Rightarrow> 'c ShardCtrler" where
  "ShardCtrler_Kill sc = sc\<lparr>sc_rf := Kill (sc_rf sc)\<rparr>"

definition ShardCtrler_Raft :: "'c ShardCtrler \<Rightarrow> 'c Raft" where
  "ShardCtrler_Raft sc = sc_rf sc"

text \<open>The zero value of the array of shards has \<open>NShards\<close> zeros.\<close>

definition ShardCtrler_StartServer :: "'c codec \<Rightarrow> clock \<Rightarrow> nat \<Rightarrow> int \<Rightarrow> Persister \<Rightarrow> 'c ShardCtrler option" where
  "ShardCtrler_StartServer C clk peers_n self ps = do {
     rf \<leftarrow> Make C clk peers_n self ps;
     Some \<lparr>sc_me = self, sc_rf = rf,
       sc_configs = [\<lparr>Num = 0, Shards = replicate (nat NShards) 0, Groups = (\<lambda>g. None)\<rparr>]\<rparr>
   }"

record 'c ShardKV =
  sk_me :: int
  sk_rf :: "'c Raft"
  sk_gid :: int
  sk_ctrlers :: "string list"
  sk_maxraftstate :: int

definition ShardKV_Kill :: "'c ShardKV \<Rightarrow> 'c ShardKV" where
  "ShardKV_Kill kv = kv\<lparr>sk_rf := Kill (sk_rf kv)\<rparr>"

definition ShardKV_StartServer ::
  "'c codec \<Rightarrow> clock \<Rightarrow> nat \<Rightarrow> int \<Rightarrow> Persister \<Rightarrow> int \<Rightarrow> int \<Rightarrow> string list \<Rightarrow> 'c ShardKV option" where
  "ShardKV_StartServer C clk peers_n self ps maxstate g ctrlers = do {
     rf \<leftarrow> Make C clk peers_n self ps;
     Some \<lparr>sk_me = self, sk_rf = rf, sk_gid = g, sk_ctrlers = ctrlers, sk_maxraftstate = maxstate\<rparr>
   }"

section \<open>State of the harness\<close>

record 'c group =
  gid :: int
  g_servers :: "'c ShardKV option list"
  g_saved :: "Persister option list"
  g_endnames :: "string list option list"
  mendnames :: "string list option list"

record 'c shard_cfg =
  sf_failed :: bool
  sf_net :: Network
  sf_start :: int
  nctrlers :: nat
  ctrlerservers :: "'c ShardCtrler option list"
  mck :: "string list"
  ngroups :: nat
  sf_n :: nat
  groups :: "'c group list"
  sf_clerks :: "nat \<Rightarrow> string list option"
  sf_nextClientId :: int
  sf_maxraftstate :: int

definition ctrlername :: "int \<Rightarrow> string" where
  "ctrlername i = ''ctrler'' @ itoa i"

definition servername :: "int \<Rightarrow> int \<Rightarrow> string" where
  "servername g i = ''server-'' @ itoa g @ ''-'' @ itoa i"

definition g_saved_at :: "'c group \<Rightarrow> int \<Rightarrow> Persister option option" where
  "g_saved_at gg i = do {
     ps \<leftarrow> idx (g_saved gg) i;
     kv \<leftarrow> idx (g_servers gg) i;
     Some (case (ps, kv) of (Some ps, Some kv) \<Rightarrow> Some (persister (sk_rf kv)) | _ \<Rightarrow> ps)
   }"

definition sf_checkTimeout :: "int \<Rightarrow> 'c shard_cfg \<Rightarrow> 'c shard_cfg option" where
  "sf_checkTimeout tm cfg =
     (if \<not> sf_failed cfg \<and> tm - sf_start cfg > 120 * 1000000000 then None else Some cfg)"

text \<open>\<open>checklogs\<close>: one server, the servers of a group, all groups.\<close>

definition checklog :: "int \<Rightarrow> 'c group \<Rightarrow> int \<Rightarrow> unit option" where
  "checklog maxstate gg i = do {
     p \<leftarrow> g_saved_at gg i;
     ps \<leftarrow> p;
     let raft = int (RaftStateSize ps);
     let snap = length (ReadSnapshot ps);
     if maxstate \<ge> 0 \<and> raft > 8 * maxstate then None
     else if maxstate < 0 \<and> snap > 0 then None
     else Some ()
   }"

definition checklogs :: "'c shard_cfg \<Rightarrow> unit option" where
  "checklogs cfg = do {
     _ \<leftarrow> mapM (\<lambda>gi. do {
         gg \<leftarrow> idx (groups cfg) gi;
         mapM (checklog (sf_maxraftstate cfg) gg) [0..int (sf_n cfg) - 1]
       }) [0..int (ngroups cfg) - 1];
     Some ()
   }"

section \<open>Ends\<close>

text \<open>Make an end, connect it to a server and enable it.\<close>

definition open_end :: "string \<Rightarrow> string \<Rightarrow> Network \<Rightarrow> Network option" where
  "open_end e s rn = do { rn \<leftarrow> MakeEnd e rn; Some (Enable e True (Connect e (StrName s) rn)) }"

definition open_ends :: "(string \<times> string) list \<Rightarrow> Network \<Rightarrow> Network option" where
  "open_ends = run (\<lambda>(e, s). open_end e s)"

definition close_ends :: "string list \<Rightarrow> Network \<Rightarrow> Network" where
  "close_ends names rn = fold (\<lambda>e rn. Enable e False rn) names rn"

text \<open>
  \<open>makeClient\<close>: the slice of names has length \<open>n\<close>, the loop runs over the controllers. The function
  that it hands to the clerk is \<open>open_end\<close> with a random name.
\<close>

fun client_loop :: "(nat \<Rightarrow> string) \<Rightarrow> nat list \<Rightarrow> string list \<Rightarrow> Network \<Rightarrow> (string list \<times> Network) option" where
  "client_loop draw [] names rn = Some (names, rn)"
| "client_loop draw (j # js) names rn = do {
     names \<leftarrow> idx_upd names (int j) (draw j);
     rn \<leftarrow> open_end (draw j) (ctrlername (int j)) rn;
     client_loop draw js names rn
   }"

definition sf_makeClient :: "(nat \<Rightarrow> string) \<Rightarrow> nat \<Rightarrow> 'c shard_cfg \<Rightarrow> (string list \<times> 'c shard_cfg) option" where
  "sf_makeClient draw ck cfg = do {
     (names, rn) \<leftarrow> client_loop draw [0..<nctrlers cfg] (replicate (sf_n cfg) []) (sf_net cfg);
     Some (map draw [0..<nctrlers cfg],
       cfg\<lparr>sf_net := rn, sf_clerks := (sf_clerks cfg)(ck \<mapsto> names), sf_nextClientId := sf_nextClientId cfg + 1\<rparr>)
   }"

definition sf_deleteClient :: "nat \<Rightarrow> 'c shard_cfg \<Rightarrow> 'c shard_cfg" where
  "sf_deleteClient ck cfg = cfg\<lparr>sf_clerks := (sf_clerks cfg)(ck := None)\<rparr>"

section \<open>Groups\<close>

definition sf_ShutdownServer :: "int \<Rightarrow> int \<Rightarrow> 'c shard_cfg \<Rightarrow> 'c shard_cfg option" where
  "sf_ShutdownServer gi i cfg = do {
     gg \<leftarrow> idx (groups cfg) gi;
     names \<leftarrow> mapM (\<lambda>j. do { row \<leftarrow> idx (g_endnames gg) i; names \<leftarrow> row; idx names j }) [0..int (length (g_servers gg)) - 1];
     let rn = close_ends names (sf_net cfg);
     mrow \<leftarrow> idx (mendnames gg) i;
     let rn = close_ends (case mrow of None \<Rightarrow> [] | Some ms \<Rightarrow> ms) rn;
     let rn = DeleteServer (StrName (servername (gid gg) i)) rn;
     ps \<leftarrow> g_saved_at gg i;
     sv \<leftarrow> idx_upd (g_saved gg) i (map_option Persister_Copy ps);
     kvs \<leftarrow> idx_upd (g_servers gg) i None;
     gs \<leftarrow> idx_upd (groups cfg) gi (gg\<lparr>g_saved := sv, g_servers := kvs\<rparr>);
     Some (cfg\<lparr>sf_net := rn, groups := gs\<rparr>)
   }"

definition ShutdownGroup :: "int \<Rightarrow> 'c shard_cfg \<Rightarrow> 'c shard_cfg option" where
  "ShutdownGroup gi cfg = run (sf_ShutdownServer gi) [0..int (sf_n cfg) - 1] cfg"

text \<open>\<open>draw\<close> and \<open>mdraw\<close> give the random names of the ends to the group and to the controllers.\<close>

definition sf_StartServer ::
  "'c codec \<Rightarrow> clock \<Rightarrow> (nat \<Rightarrow> string) \<Rightarrow> (nat \<Rightarrow> string) \<Rightarrow> nat \<Rightarrow> int \<Rightarrow> int \<Rightarrow> 'c shard_cfg \<Rightarrow> 'c shard_cfg option" where
  "sf_StartServer C clk draw mdraw srv gi i cfg = do {
     gg \<leftarrow> idx (groups cfg) gi;
     let names = map draw [0..<sf_n cfg];
     es \<leftarrow> idx_upd (g_endnames gg) i (Some names);
     rn \<leftarrow> open_ends (map (\<lambda>j. (draw j, servername (gid gg) (int j))) [0..<sf_n cfg]) (sf_net cfg);
     let mnames = map mdraw [0..<nctrlers cfg];
     ms \<leftarrow> idx_upd (mendnames gg) i (Some mnames);
     rn \<leftarrow> open_ends (map (\<lambda>j. (mdraw j, ctrlername (int j))) [0..<nctrlers cfg]) rn;
     p \<leftarrow> g_saved_at gg i;
     let ps = (case p of Some ps \<Rightarrow> Persister_Copy ps | None \<Rightarrow> MakePersister);
     sv \<leftarrow> idx_upd (g_saved gg) i (Some ps);
     kv \<leftarrow> ShardKV_StartServer C clk (length names) i ps (sf_maxraftstate cfg) (gid gg) mnames;
     kvs \<leftarrow> idx_upd (g_servers gg) i (Some kv);
     gs \<leftarrow> idx_upd (groups cfg) gi (gg\<lparr>g_endnames := es, mendnames := ms, g_saved := sv, g_servers := kvs\<rparr>);
     Some (cfg\<lparr>sf_net := AddServer (StrName (servername (gid gg) i)) srv rn, groups := gs\<rparr>)
   }"

text \<open>\<open>inp i\<close> are the arguments of the call of \<open>StartServer\<close> for server \<open>i\<close>.\<close>

definition StartGroup ::
  "'c codec \<Rightarrow> (int \<Rightarrow> clock \<times> (nat \<Rightarrow> string) \<times> (nat \<Rightarrow> string) \<times> nat) \<Rightarrow> int \<Rightarrow> 'c shard_cfg \<Rightarrow> 'c shard_cfg option" where
  "StartGroup C inp gi cfg = run (\<lambda>i cfg. case inp i of (clk, draw, mdraw, srv) \<Rightarrow>
     sf_StartServer C clk draw mdraw srv gi i cfg) [0..int (sf_n cfg) - 1] cfg"

definition StartCtrlerserver :: "'c codec \<Rightarrow> clock \<Rightarrow> (nat \<Rightarrow> string) \<Rightarrow> nat \<Rightarrow> int \<Rightarrow> 'c shard_cfg \<Rightarrow> 'c shard_cfg option" where
  "StartCtrlerserver C clk draw srv i cfg = do {
     rn \<leftarrow> open_ends (map (\<lambda>j. (draw j, ctrlername (int j))) [0..<nctrlers cfg]) (sf_net cfg);
     sc \<leftarrow> ShardCtrler_StartServer C clk (nctrlers cfg) i MakePersister;
     scs \<leftarrow> idx_upd (ctrlerservers cfg) i (Some sc);
     Some (cfg\<lparr>ctrlerservers := scs, sf_net := AddServer (StrName (ctrlername i)) srv rn\<rparr>)
   }"

definition shardclerk :: "(nat \<Rightarrow> string) \<Rightarrow> 'c shard_cfg \<Rightarrow> (string list \<times> 'c shard_cfg) option" where
  "shardclerk draw cfg = do {
     rn \<leftarrow> open_ends (map (\<lambda>j. (draw j, ctrlername (int j))) [0..<nctrlers cfg]) (sf_net cfg);
     Some (map draw [0..<nctrlers cfg], cfg\<lparr>sf_net := rn\<rparr>)
   }"

text \<open>The map \<open>joinm\<close> sends and the list \<open>leavem\<close> sends; the calls are those of the controller's clerk.\<close>

fun joinm_loop :: "'c shard_cfg \<Rightarrow> int list \<Rightarrow> (int \<Rightarrow> string list option) \<Rightarrow> (int \<Rightarrow> string list option) option" where
  "joinm_loop cfg [] m = Some m"
| "joinm_loop cfg (g # gis) m = do {
     gg \<leftarrow> idx (groups cfg) g;
     joinm_loop cfg gis (m(gid gg \<mapsto> map (\<lambda>i. servername (gid gg) (int i)) [0..<sf_n cfg]))
   }"

definition joinm :: "(nat \<Rightarrow> string \<Rightarrow> JoinArgs \<Rightarrow> CtrlReply option) \<Rightarrow> int list \<Rightarrow> nat \<Rightarrow> 'c shard_cfg \<Rightarrow> (unit \<times> nat) option" where
  "joinm call gis t cfg = do { m \<leftarrow> joinm_loop cfg gis (\<lambda>g. None); Join call (mck cfg) m t }"

definition join_group :: "(nat \<Rightarrow> string \<Rightarrow> JoinArgs \<Rightarrow> CtrlReply option) \<Rightarrow> int \<Rightarrow> nat \<Rightarrow> 'c shard_cfg \<Rightarrow> (unit \<times> nat) option" where
  "join_group call gi = joinm call [gi]"

definition leavem :: "(nat \<Rightarrow> string \<Rightarrow> LeaveArgs \<Rightarrow> CtrlReply option) \<Rightarrow> int list \<Rightarrow> nat \<Rightarrow> 'c shard_cfg \<Rightarrow> (unit \<times> nat) option" where
  "leavem call gis t cfg = do {
     gids \<leftarrow> mapM (\<lambda>g. map_option gid (idx (groups cfg) g)) gis;
     Leave call (mck cfg) gids t
   }"

definition leave_group :: "(nat \<Rightarrow> string \<Rightarrow> LeaveArgs \<Rightarrow> CtrlReply option) \<Rightarrow> int \<Rightarrow> nat \<Rightarrow> 'c shard_cfg \<Rightarrow> (unit \<times> nat) option" where
  "leave_group call gi = leavem call [gi]"

definition blank_group :: "nat \<Rightarrow> nat \<Rightarrow> int \<Rightarrow> 'c group" where
  "blank_group n nc g = \<lparr>gid = g, g_servers = replicate n None, g_saved = replicate n None,
     g_endnames = replicate n None, mendnames = replicate nc None\<rparr>"

text \<open>
  \<open>make_config\<close>; \<open>cin i\<close> are the arguments of the start of controller \<open>i\<close>, \<open>mdraw\<close> the names of the ends
  of \<open>mck\<close>, \<open>gin gi i\<close> the arguments of the start of server \<open>i\<close> of group \<open>gi\<close>.
\<close>

definition sf_make_config ::
  "'c codec \<Rightarrow> (int \<Rightarrow> clock \<times> (nat \<Rightarrow> string) \<times> nat) \<Rightarrow> (nat \<Rightarrow> string)
     \<Rightarrow> (int \<Rightarrow> int \<Rightarrow> clock \<times> (nat \<Rightarrow> string) \<times> (nat \<Rightarrow> string) \<times> nat) \<Rightarrow> int \<Rightarrow> nat \<Rightarrow> bool \<Rightarrow> int \<Rightarrow> 'c shard_cfg option" where
  "sf_make_config C cin mdraw gin tm n unreliable maxstate = do {
     let cfg = \<lparr>sf_failed = False, sf_net = MakeNetwork, sf_start = tm, nctrlers = 3, ctrlerservers = replicate 3 None,
       mck = [], ngroups = 0, sf_n = 0, groups = [], sf_clerks = (\<lambda>c. None), sf_nextClientId = 0,
       sf_maxraftstate = maxstate\<rparr>;
     cfg \<leftarrow> run (\<lambda>i cfg. case cin i of (clk, draw, srv) \<Rightarrow> StartCtrlerserver C clk draw srv i cfg) [0, 1, 2] cfg;
     (ck, cfg) \<leftarrow> shardclerk mdraw cfg;
     let cfg = cfg\<lparr>mck := ck, ngroups := 3, sf_n := n\<rparr>;
     cfg \<leftarrow> run (\<lambda>gi cfg. StartGroup C (gin gi) gi
       (cfg\<lparr>groups := groups cfg @ [blank_group (sf_n cfg) (nctrlers cfg) (100 + gi)]\<rparr>)) [0, 1, 2] cfg;
     let cfg = cfg\<lparr>sf_nextClientId := int (sf_n cfg) + 1000\<rparr>;
     Some (cfg\<lparr>sf_net := Reliable (\<not> unreliable) (sf_net cfg)\<rparr>)
   }"

definition sf_cleanup :: "int \<Rightarrow> 'c shard_cfg \<Rightarrow> 'c shard_cfg option" where
  "sf_cleanup tm cfg = do {
     cfg \<leftarrow> run ShutdownGroup [0..int (ngroups cfg) - 1] cfg;
     scs \<leftarrow> mapM (\<lambda>i. do { p \<leftarrow> idx (ctrlerservers cfg) i; sc \<leftarrow> p; Some (Some (ShardCtrler_Kill sc)) })
       [0..int (nctrlers cfg) - 1];
     rn \<leftarrow> Cleanup (sf_net cfg);
     sf_checkTimeout tm (cfg\<lparr>ctrlerservers := scs, sf_net := rn\<rparr>)
   }"

end
