(* ===== verification/ShardConfigCorrect.thy ===== *)
theory ShardConfigCorrect
  imports ShardConfig RaftConfigCorrect
begin

text \<open>
  The sharded test harness: the names it gives to servers never clash, the servers it announces to the
  controllers are registered on the network, and it only works for groups of three servers.
\<close>

section \<open>Names\<close>

lemma servername_inject:
  "0 \<le> g \<Longrightarrow> 0 \<le> i \<Longrightarrow> 0 \<le> h \<Longrightarrow> 0 \<le> j \<Longrightarrow> servername g i = servername h j \<longleftrightarrow> g = h \<and> i = j"
  using digits_minus_inject [of "nat g" "nat i" "nat h" "nat j"] by (auto simp: servername_def itoa_def)

lemma ctrlername_inject [simp]: "ctrlername i = ctrlername j \<longleftrightarrow> i = j"
  by (simp add: ctrlername_def)

lemma servername_ctrlername [simp]: "servername g i \<noteq> ctrlername j" "ctrlername j \<noteq> servername g i"
  by (simp_all add: servername_def ctrlername_def)

lemma open_end_servers: "open_end e s rn = Some rn' \<Longrightarrow> servers rn' = servers rn"
  by (auto simp: open_end_def bind_eq_Some_conv MakeEnd_def Enable_def Connect_def split: if_splits)

lemma open_ends_servers: "open_ends xs rn = Some rn' \<Longrightarrow> servers rn' = servers rn"
  unfolding open_ends_def
proof (induction xs arbitrary: rn)
  case (Cons x xs)
  then show ?case by (cases x) (auto simp: bind_eq_Some_conv dest: open_end_servers)
qed simp

section \<open>Starting servers\<close>

text \<open>What a group needs to be started: its identifier and a row for each server.\<close>

definition group_ok :: "int \<Rightarrow> 'c shard_cfg \<Rightarrow> bool" where
  "group_ok gi cfg \<longleftrightarrow> (\<exists>gg. idx (groups cfg) gi = Some gg \<and> gid gg = 100 + gi \<and> length (mendnames gg) = nctrlers cfg)"

text \<open>The slot of server \<open>i\<close> of the group at \<open>gi\<close> holds a server of that group and number.\<close>

definition runs_as :: "'c shard_cfg \<Rightarrow> int \<Rightarrow> int \<Rightarrow> bool" where
  "runs_as cfg gi i \<longleftrightarrow> (\<exists>gg kv. idx (groups cfg) gi = Some gg \<and> idx (g_servers gg) i = Some (Some kv)
     \<and> sk_gid kv = 100 + gi \<and> sk_me kv = i)"

lemma sf_StartServer_facts:
  assumes "sf_StartServer C clk draw mdraw srv gi i cfg = Some cfg'"
  shows "sf_n cfg' = sf_n cfg" "nctrlers cfg' = nctrlers cfg" "length (groups cfg') = length (groups cfg)"
    "group_ok k cfg \<Longrightarrow> group_ok k cfg'" "group_ok gi cfg \<Longrightarrow> 0 \<le> i \<and> i < int (nctrlers cfg)"
    "group_ok gi cfg \<Longrightarrow> servers (sf_net cfg') = (servers (sf_net cfg))(StrName (servername (100 + gi) i) \<mapsto> srv)"
    "runs_as cfg k j \<Longrightarrow> group_ok gi cfg \<Longrightarrow> runs_as cfg' k j" "group_ok gi cfg \<Longrightarrow> runs_as cfg' gi i"
proof -
  from assms obtain gg es rn ms rn' ps sv kv kvs gs where gg: "idx (groups cfg) gi = Some gg"
    and rn: "open_ends (map (\<lambda>j. (draw j, servername (gid gg) (int j))) [0..<sf_n cfg]) (sf_net cfg) = Some rn"
    and ms: "idx_upd (mendnames gg) i (Some (map mdraw [0..<nctrlers cfg])) = Some ms"
    and rn': "open_ends (map (\<lambda>j. (mdraw j, ctrlername (int j))) [0..<nctrlers cfg]) rn = Some rn'"
    and kv: "ShardKV_StartServer C clk (sf_n cfg) i ps (sf_maxraftstate cfg) (gid gg) (map mdraw [0..<nctrlers cfg]) = Some kv"
    and kvs: "idx_upd (g_servers gg) i (Some kv) = Some kvs"
    and gs: "idx_upd (groups cfg) gi (gg\<lparr>g_endnames := es, mendnames := ms, g_saved := sv, g_servers := kvs\<rparr>) = Some gs"
    and cfg': "cfg' = cfg\<lparr>sf_net := AddServer (StrName (servername (gid gg) i)) srv rn', groups := gs\<rparr>"
    by (auto simp: sf_StartServer_def Let_def bind_eq_Some_conv)
  have made: "sk_gid kv = gid gg" "sk_me kv = i" using kv by (auto simp: ShardKV_StartServer_def bind_eq_Some_conv)
  show "runs_as cfg k j \<Longrightarrow> group_ok gi cfg \<Longrightarrow> runs_as cfg' k j"
    using gg idx_upd_at [OF gs, of k] idx_upd_at [OF kvs, of j] made by (auto simp: runs_as_def group_ok_def cfg')
  show "group_ok gi cfg \<Longrightarrow> runs_as cfg' gi i"
    using gg idx_upd_at [OF gs, of gi] idx_upd_at [OF kvs, of i] made by (auto simp: runs_as_def group_ok_def cfg')
  show "sf_n cfg' = sf_n cfg" "nctrlers cfg' = nctrlers cfg" by (simp_all add: cfg')
  show "length (groups cfg') = length (groups cfg)" using gs by (auto simp: cfg' idx_upd_Some_iff)
  have len: "length ms = length (mendnames gg)" using ms by (auto simp: idx_upd_Some_iff)
  show "group_ok k cfg \<Longrightarrow> group_ok k cfg'"
    using gg len idx_upd_at [OF gs, of k] by (auto simp: group_ok_def cfg')
  show "group_ok gi cfg \<Longrightarrow> 0 \<le> i \<and> i < int (nctrlers cfg)"
    using gg ms by (auto simp: group_ok_def idx_upd_Some_iff)
  show "group_ok gi cfg \<Longrightarrow> servers (sf_net cfg') = (servers (sf_net cfg))(StrName (servername (100 + gi) i) \<mapsto> srv)"
    using gg open_ends_servers [OF rn] open_ends_servers [OF rn'] by (auto simp: group_ok_def cfg' AddServer_def)
qed

text \<open>The loop of a group: every server gets a row of ends to the controllers and a name.\<close>

abbreviation address :: "clock \<times> (nat \<Rightarrow> string) \<times> (nat \<Rightarrow> string) \<times> nat \<Rightarrow> nat" where
  "address a \<equiv> snd (snd (snd a))"

lemma start_servers:
  assumes "run (\<lambda>i cfg. case inp i of (clk, draw, mdraw, srv) \<Rightarrow> sf_StartServer C clk draw mdraw srv gi i cfg) js cfg = Some cfg'"
    and "group_ok gi cfg" and "0 \<le> gi" and "\<forall>i \<in> set js. 0 \<le> i"
  shows "sf_n cfg' = sf_n cfg \<and> nctrlers cfg' = nctrlers cfg \<and> length (groups cfg') = length (groups cfg)
    \<and> (\<forall>k. group_ok k cfg \<longrightarrow> group_ok k cfg') \<and> (\<forall>i \<in> set js. i < int (nctrlers cfg))
    \<and> (\<forall>k j. runs_as cfg k j \<longrightarrow> runs_as cfg' k j) \<and> (\<forall>i \<in> set js. runs_as cfg' gi i)
    \<and> (\<forall>i \<in> set js. servers (sf_net cfg') (StrName (servername (100 + gi) i)) = Some (address (inp i)))
    \<and> (\<forall>s. s \<notin> (\<lambda>i. StrName (servername (100 + gi) i)) ` set js \<longrightarrow> servers (sf_net cfg') s = servers (sf_net cfg) s)"
  using assms
proof (induction js arbitrary: cfg)
  case (Cons i js)
  obtain clk draw mdraw srv where inp: "inp i = (clk, draw, mdraw, srv)" by (cases "inp i")
  with Cons.prems(1) obtain cfg1 where st: "sf_StartServer C clk draw mdraw srv gi i cfg = Some cfg1"
    and rest: "run (\<lambda>i cfg. case inp i of (clk, draw, mdraw, srv) \<Rightarrow> sf_StartServer C clk draw mdraw srv gi i cfg) js cfg1 = Some cfg'"
    by (auto simp: bind_eq_Some_conv)
  note f = sf_StartServer_facts [OF st]
  note g = f(6) [OF Cons.prems(2)]
  have js: "\<forall>i \<in> set js. 0 \<le> i" using Cons.prems(4) by simp
  note r = Cons.IH [OF rest f(4) [OF Cons.prems(2)] Cons.prems(3) js]
  have "servers (sf_net cfg') (StrName (servername (100 + gi) i)) = Some (address (inp i))"
  proof (cases "i \<in> set js")
    case False
    then have "StrName (servername (100 + gi) i) \<notin> (\<lambda>i. StrName (servername (100 + gi) i)) ` set js"
      using Cons.prems(3,4) by (auto simp: servername_inject)
    with r have "servers (sf_net cfg') (StrName (servername (100 + gi) i)) = servers (sf_net cfg1) (StrName (servername (100 + gi) i))"
      by blast
    with g inp show ?thesis by simp
  qed (use r in blast)
  moreover have "servers (sf_net cfg') s = servers (sf_net cfg) s"
    if "s \<notin> (\<lambda>i. StrName (servername (100 + gi) i)) ` set (i # js)" for s
    using r g that by simp
  moreover have "runs_as cfg' gi i" using r f(8) [OF Cons.prems(2)] by blast
  moreover have "runs_as cfg' k j" if "runs_as cfg k j" for k j using r f(7) [OF that Cons.prems(2)] by blast
  ultimately show ?case using r f(1-5) Cons.prems(2) by simp
qed simp

section \<open>The whole configuration\<close>

text \<open>The first \<open>k\<close> groups run: their servers are registered on the network under their names.\<close>

definition groups_run :: "(int \<Rightarrow> int \<Rightarrow> clock \<times> (nat \<Rightarrow> string) \<times> (nat \<Rightarrow> string) \<times> nat) \<Rightarrow> nat \<Rightarrow> nat \<Rightarrow> 'c shard_cfg \<Rightarrow> bool" where
  "groups_run gin k n cfg \<longleftrightarrow> length (groups cfg) = k \<and> sf_n cfg = n \<and> nctrlers cfg = 3
     \<and> (\<forall>g < k. group_ok (int g) cfg \<and> (\<forall>i < n. i < 3 \<and> runs_as cfg (int g) (int i)
          \<and> servers (sf_net cfg) (StrName (servername (100 + int g) (int i))) = Some (address (gin (int g) (int i)))))"

lemma blank_group_ok:
  assumes "groups_run gin k n cfg"
  defines "cfg' \<equiv> cfg\<lparr>groups := groups cfg @ [blank_group (sf_n cfg) (nctrlers cfg) (100 + int k)]\<rparr>"
  shows "group_ok (int k) cfg'" "g < k \<Longrightarrow> group_ok (int g) cfg'" "runs_as cfg (int g) i \<Longrightarrow> runs_as cfg' (int g) i"
  using assms by (auto simp: groups_run_def group_ok_def runs_as_def blank_group_def idx_Some_iff nth_append)

lemma StartGroup_runs:
  assumes run: "groups_run gin k n cfg"
    and st: "StartGroup C (gin (int k)) (int k) (cfg\<lparr>groups := groups cfg @ [blank_group (sf_n cfg) (nctrlers cfg) (100 + int k)]\<rparr>) = Some cfg'"
  shows "groups_run gin (Suc k) n cfg'"
proof -
  note ok = blank_group_ok [OF run]
  note s = start_servers [OF st [unfolded StartGroup_def] ok(1)]
  have js: "i < n \<Longrightarrow> int i \<in> set [0..int (sf_n cfg) - 1]" for i using run by (simp add: groups_run_def)
  have "group_ok (int g) cfg' \<and> (\<forall>i < n. i < 3 \<and> runs_as cfg' (int g) (int i)
      \<and> servers (sf_net cfg') (StrName (servername (100 + int g) (int i))) = Some (address (gin (int g) (int i))))"
    if "g < Suc k" for g
  proof (cases "g = k")
    case True
    with s ok(1) js run show ?thesis by (force simp: groups_run_def)
  next
    case False
    then have g: "g < k" using that by simp
    have other: "StrName (servername (100 + int g) (int i)) \<notin> (\<lambda>i. StrName (servername (100 + int k) i)) ` {0..int (sf_n cfg) - 1}" for i
      using g by (auto simp: servername_inject)
    show ?thesis
    proof (intro conjI allI impI)
      show "group_ok (int g) cfg'" using s ok(2) [OF g] by simp
      fix i assume i: "i < n"
      have old: "i < 3" "runs_as cfg (int g) (int i)"
        "servers (sf_net cfg) (StrName (servername (100 + int g) (int i))) = Some (address (gin (int g) (int i)))"
        using run g i by (auto simp: groups_run_def)
      show "i < 3" by (rule old(1))
      show "runs_as cfg' (int g) (int i)" using s ok(3) [OF old(2)] by simp
      show "servers (sf_net cfg') (StrName (servername (100 + int g) (int i))) = Some (address (gin (int g) (int i)))"
        using s other old(3) by simp
    qed
  qed
  with s run show ?thesis by (simp add: groups_run_def)
qed

lemma StartCtrlerserver_frame:
  "StartCtrlerserver C clk draw srv i cfg = Some cfg' \<Longrightarrow> groups cfg' = groups cfg \<and> nctrlers cfg' = nctrlers cfg"
  by (auto simp: StartCtrlerserver_def bind_eq_Some_conv)

lemma shardclerk_frame:
  "shardclerk draw cfg = Some (ck, cfg') \<Longrightarrow> groups cfg' = groups cfg \<and> nctrlers cfg' = nctrlers cfg"
  by (auto simp: shardclerk_def bind_eq_Some_conv)

lemma start_ctrlers_frame:
  "run (\<lambda>i cfg. case cin i of (clk, draw, srv) \<Rightarrow> StartCtrlerserver C clk draw srv i cfg) js cfg = Some cfg'
     \<Longrightarrow> groups cfg' = groups cfg \<and> nctrlers cfg' = nctrlers cfg"
proof (induction js arbitrary: cfg)
  case (Cons j js)
  then show ?case by (cases "cin j") (fastforce simp: bind_eq_Some_conv dest: StartCtrlerserver_frame)
qed simp

lemma start_groups_run:
  assumes "run (\<lambda>gi cfg. StartGroup C (gin gi) gi
      (cfg\<lparr>groups := groups cfg @ [blank_group (sf_n cfg) (nctrlers cfg) (100 + gi)]\<rparr>)) (map int [k..<k + j]) cfg = Some cfg'"
    and "groups_run gin k n cfg"
  shows "groups_run gin (k + j) n cfg'"
  using assms
proof (induction j arbitrary: k cfg)
  case (Suc j)
  have "map int [k..<k + Suc j] = int k # map int [Suc k..<Suc k + j]" by (simp add: upt_conv_Cons del: upt_Suc)
  with Suc.prems(1) obtain cfg1 where
    st: "StartGroup C (gin (int k)) (int k)
      (cfg\<lparr>groups := groups cfg @ [blank_group (sf_n cfg) (nctrlers cfg) (100 + int k)]\<rparr>) = Some cfg1"
    and rest: "run (\<lambda>gi cfg. StartGroup C (gin gi) gi
      (cfg\<lparr>groups := groups cfg @ [blank_group (sf_n cfg) (nctrlers cfg) (100 + gi)]\<rparr>)) (map int [Suc k..<Suc k + j]) cfg1 = Some cfg'"
    unfolding bind_eq_Some_conv by (auto simp: bind_eq_Some_conv)
  from Suc.IH [OF rest StartGroup_runs [OF Suc.prems(2) st]] show ?case by simp
qed simp

lemma make_config_runs:
  assumes "sf_make_config C cin mdraw gin tm n unreliable maxstate = Some cfg"
  shows "groups_run gin 3 n cfg"
proof -
  define cfg0 :: "'a shard_cfg" where "cfg0 = \<lparr>sf_failed = False, sf_net = MakeNetwork, sf_start = tm, nctrlers = 3,
    ctrlerservers = replicate 3 None, mck = [], ngroups = 0, sf_n = 0, groups = [], sf_clerks = (\<lambda>c. None),
    sf_nextClientId = 0, sf_maxraftstate = maxstate\<rparr>"
  from assms [unfolded sf_make_config_def Let_def, folded cfg0_def] obtain cfg1 ck cfg2 cfg3 where
    1: "run (\<lambda>i cfg. case cin i of (clk, draw, srv) \<Rightarrow> StartCtrlerserver C clk draw srv i cfg) [0, 1, 2] cfg0 = Some cfg1"
    and 2: "shardclerk mdraw cfg1 = Some (ck, cfg2)"
    and 3: "run (\<lambda>gi cfg. StartGroup C (gin gi) gi
       (cfg\<lparr>groups := groups cfg @ [blank_group (sf_n cfg) (nctrlers cfg) (100 + gi)]\<rparr>)) [0, 1, 2]
       (cfg2\<lparr>mck := ck, ngroups := 3, sf_n := n\<rparr>) = Some cfg3"
    and cfg: "cfg = cfg3\<lparr>sf_nextClientId := int (sf_n cfg3) + 1000,
       sf_net := Reliable (\<not> unreliable) (sf_net (cfg3\<lparr>sf_nextClientId := int (sf_n cfg3) + 1000\<rparr>))\<rparr>"
    by (auto simp only: bind_eq_Some_conv split_paired_all prod.case option.inject)
  have "[0, 1, 2] = map int [0..<0 + 3]" by (simp add: upt_rec)
  with start_groups_run [OF 3 [unfolded this], of n] start_ctrlers_frame [OF 1] shardclerk_frame [OF 2]
  have "groups_run gin 3 n cfg3" by (simp add: groups_run_def cfg0_def)
  then show ?thesis by (auto simp: groups_run_def group_ok_def runs_as_def cfg Reliable_def)
qed

text \<open>What the controllers are told: each group under its identifier, with the names of its \<open>n\<close> servers.\<close>

lemma joinm_loop_value:
  assumes "groups_run gin k n cfg" "set gis \<subseteq> {0..<int k}"
  shows "joinm_loop cfg gis m = Some (\<lambda>g. if g - 100 \<in> set gis then Some (map (\<lambda>i. servername g (int i)) [0..<n]) else m g)"
  using assms(2)
proof (induction gis arbitrary: m)
  case (Cons g gis)
  then have "g = int (nat g)" "nat g < k" by auto
  with assms(1) obtain gg where "idx (groups cfg) g = Some gg" "gid gg = 100 + g"
    by (metis groups_run_def group_ok_def)
  with Cons assms(1) show ?case by (auto simp: groups_run_def fun_eq_iff)
qed simp

text \<open>
  C38. The shard test harness only starts for groups of at most three servers, because the rows of ends
  to the controllers are as many as there are controllers. When it starts, what \<open>joinm\<close> tells the
  controllers is exactly, under the identifier \<open>100 + gi\<close> of each group asked for, the list of the names
  \<open>server-<gid>-<i>\<close> of its \<open>n\<close> servers in order. On the network each of these names leads to the very server object that
  was started for that group and number, the group's slot holds a server with that identifier and number, and
  no two servers share a name.
\<close>

theorem announced_servers_run:
  assumes "sf_make_config C cin mdraw gin tm n unreliable maxstate = Some cfg" and "set gis \<subseteq> {0, 1, 2}"
  shows "n \<le> 3
    \<and> joinm_loop cfg gis (\<lambda>g. None) = Some (\<lambda>g. if g - 100 \<in> set gis
         then Some (map (\<lambda>i. ''server-'' @ itoa g @ ''-'' @ itoa (int i)) [0..<n]) else None)
    \<and> (\<forall>g < 3. \<forall>i < n. runs_as cfg (int g) (int i)
         \<and> servers (sf_net cfg) (StrName (''server-'' @ itoa (100 + int g) @ ''-'' @ itoa (int i))) = Some (address (gin (int g) (int i))))
    \<and> inj_on (\<lambda>(g, i). servername (100 + int g) (int i)) ({..<3} \<times> {..<n})"
proof (intro conjI)
  note run = make_config_runs [OF assms(1)]
  have "\<forall>i < n. i < 3" using run by (fastforce simp: groups_run_def)
  then show "n \<le> 3" by (metis not_le order_less_irrefl)
  have sub: "set gis \<subseteq> {0..<int 3}" using assms(2) by auto
  show "joinm_loop cfg gis (\<lambda>g. None) = Some (\<lambda>g. if g - 100 \<in> set gis
         then Some (map (\<lambda>i. ''server-'' @ itoa g @ ''-'' @ itoa (int i)) [0..<n]) else None)"
    using joinm_loop_value [OF run sub, of "\<lambda>g. None"] by (simp only: servername_def)
  show "\<forall>g < 3. \<forall>i < n. runs_as cfg (int g) (int i)
      \<and> servers (sf_net cfg) (StrName (''server-'' @ itoa (100 + int g) @ ''-'' @ itoa (int i))) = Some (address (gin (int g) (int i)))"
    using run unfolding groups_run_def servername_def by blast
  show "inj_on (\<lambda>(g, i). servername (100 + int g) (int i)) ({..<3} \<times> {..<n})"
    by (rule inj_onI) (auto simp: servername_inject)
qed

text \<open>A harness of three groups of one server each; \<open>a\<close>, \<open>b\<close>, \<open>c\<close> and \<open>m\<close> begin the names of the ends.\<close>

definition one_server_groups :: "int shard_cfg option" where
  "one_server_groups = sf_make_config sample_codec
     (\<lambda>i. (sample_clock, \<lambda>j. ''a'' @ itoa i @ itoa (int j), 0)) (\<lambda>j. ''m'' @ itoa (int j))
     (\<lambda>gi i. (sample_clock, \<lambda>j. ''b'' @ itoa gi @ itoa (int j), \<lambda>j. ''c'' @ itoa gi @ itoa (int j), nat gi)) 0 1 False (- 1)"

lemma one_server_groups_start: "map_option sf_n one_server_groups = Some 1"
  by code_simp

theorem announced_servers_run_witness:
  "\<exists>cfg m. one_server_groups = Some cfg \<and> joinm_loop cfg [0, 2] (\<lambda>g. None) = Some m
     \<and> m 102 = Some [''server-102-0''] \<and> m 101 = None \<and> servers (sf_net cfg) (StrName ''server-102-0'') = Some 2"
proof -
  from one_server_groups_start obtain cfg where cfg: "one_server_groups = Some cfg" by auto
  have gis: "set [0, 2] \<subseteq> {0, 1, 2 :: int}" by simp
  have names: "''server-'' @ itoa 102 @ ''-'' @ itoa (int 0) = ''server-102-0''" by code_simp
  note ran = announced_servers_run [OF cfg [unfolded one_server_groups_def] gis]
  from ran [THEN conjunct2, THEN conjunct2, THEN conjunct1, rule_format, of 2 0]
  have "servers (sf_net cfg) (StrName ''server-102-0'') = Some 2" by (simp add: names [simplified])
  with ran [THEN conjunct2, THEN conjunct1] cfg show ?thesis
    by (intro exI conjI) (assumption | simp add: names [simplified])+
qed

end
