(* ===== verification/CtrlConfig.thy ===== *)
theory CtrlConfig
  imports KvConfig ShardConfig
begin

text \<open>
  The test harness of the shard controller, \<open>src/src/shardctrler/config.go\<close>. The code repeats that of
  \<open>kvraft/config.go\<close> for \<open>ShardCtrler\<close> servers; the definitions follow it in the same order, with the
  conventions of \<open>KvConfig\<close>. Unlike the original, \<open>Leader\<close> skips servers that were shut down.
\<close>

section \<open>State\<close>

record 'c ctester =
  ct_failed :: bool
  ct_net :: Network
  ct_n :: nat
  ct_servers :: "'c ShardCtrler option list"
  ct_saved :: "Persister option list"
  ct_endnames :: "string list option list"
  ct_clerks :: "nat \<Rightarrow> string list option"
  ct_nextClientId :: int
  ct_start :: int

definition ct_All :: "'c ctester \<Rightarrow> int list" where
  "ct_All cfg = [0..int (ct_n cfg) - 1]"

definition ct_saved_at :: "'c ctester \<Rightarrow> int \<Rightarrow> Persister option option" where
  "ct_saved_at cfg i = do {
     ps \<leftarrow> idx (ct_saved cfg) i;
     sc \<leftarrow> idx (ct_servers cfg) i;
     Some (case (ps, sc) of (Some ps, Some sc) \<Rightarrow> Some (persister (sc_rf sc)) | _ \<Rightarrow> ps)
   }"

definition ct_end :: "'c ctester \<Rightarrow> int \<Rightarrow> int \<Rightarrow> string option" where
  "ct_end cfg i j = do { es \<leftarrow> idx (ct_endnames cfg) i; names \<leftarrow> es; idx names j }"

definition ct_checkTimeout :: "int \<Rightarrow> 'c ctester \<Rightarrow> 'c ctester option" where
  "ct_checkTimeout tm cfg =
     (if \<not> ct_failed cfg \<and> tm - ct_start cfg > 120 * 1000000000 then None else Some cfg)"

definition ct_cleanup :: "int \<Rightarrow> 'c ctester \<Rightarrow> 'c ctester option" where
  "ct_cleanup tm cfg = do {
     let cfg = cfg\<lparr>ct_servers := map (map_option ShardCtrler_Kill) (ct_servers cfg)\<rparr>;
     rn \<leftarrow> Cleanup (ct_net cfg);
     ct_checkTimeout tm (cfg\<lparr>ct_net := rn\<rparr>)
   }"

fun ct_size_loop :: "'c ctester \<Rightarrow> int list \<Rightarrow> nat \<Rightarrow> nat option" where
  "ct_size_loop cfg [] logsize = Some logsize"
| "ct_size_loop cfg (i # js) logsize = do {
     p \<leftarrow> ct_saved_at cfg i;
     ps \<leftarrow> p;
     ct_size_loop cfg js (if RaftStateSize ps > logsize then RaftStateSize ps else logsize)
   }"

definition ct_LogSize :: "'c ctester \<Rightarrow> nat option" where
  "ct_LogSize cfg = ct_size_loop cfg (ct_All cfg) 0"

section \<open>Connections\<close>

definition ct_Enable :: "string \<Rightarrow> bool \<Rightarrow> 'c ctester \<Rightarrow> 'c ctester" where
  "ct_Enable e b cfg = cfg\<lparr>ct_net := Enable e b (ct_net cfg)\<rparr>"

definition ct_connectUnlocked :: "int \<Rightarrow> int list \<Rightarrow> 'c ctester \<Rightarrow> 'c ctester option" where
  "ct_connectUnlocked i to cfg = do {
     cfg \<leftarrow> run (\<lambda>t cfg. do { e \<leftarrow> ct_end cfg i t; Some (ct_Enable e True cfg) }) to cfg;
     run (\<lambda>t cfg. do { e \<leftarrow> ct_end cfg t i; Some (ct_Enable e True cfg) }) to cfg
   }"

definition ct_connect :: "int \<Rightarrow> int list \<Rightarrow> 'c ctester \<Rightarrow> 'c ctester option" where
  "ct_connect i to cfg = ct_connectUnlocked i to cfg"

fun ct_disconnect_in :: "int \<Rightarrow> int \<Rightarrow> int list \<Rightarrow> 'c ctester \<Rightarrow> 'c ctester option" where
  "ct_disconnect_in i j [] cfg = Some cfg"
| "ct_disconnect_in i j (t # from) cfg = do {
     es \<leftarrow> idx (ct_endnames cfg) j;
     cfg \<leftarrow> (if es \<noteq> None then do { e \<leftarrow> ct_end cfg t i; Some (ct_Enable e False cfg) } else Some cfg);
     ct_disconnect_in i (j + 1) from cfg
   }"

definition ct_disconnectUnlocked :: "int \<Rightarrow> int list \<Rightarrow> 'c ctester \<Rightarrow> 'c ctester option" where
  "ct_disconnectUnlocked i from cfg = do {
     cfg \<leftarrow> run (\<lambda>t cfg. do {
         es \<leftarrow> idx (ct_endnames cfg) i;
         if es \<noteq> None then do { e \<leftarrow> ct_end cfg i t; Some (ct_Enable e False cfg) } else Some cfg
       }) from cfg;
     ct_disconnect_in i 0 from cfg
   }"

definition ct_disconnect :: "int \<Rightarrow> int list \<Rightarrow> 'c ctester \<Rightarrow> 'c ctester option" where
  "ct_disconnect i from cfg = ct_disconnectUnlocked i from cfg"

definition ct_ConnectAll :: "'c ctester \<Rightarrow> 'c ctester option" where
  "ct_ConnectAll cfg = run (\<lambda>i cfg. ct_connectUnlocked i (ct_All cfg) cfg) (ct_All cfg) cfg"

definition ct_partition :: "int list \<Rightarrow> int list \<Rightarrow> 'c ctester \<Rightarrow> 'c ctester option" where
  "ct_partition p1 p2 cfg = do {
     cfg \<leftarrow> run (\<lambda>i cfg. do { cfg \<leftarrow> ct_disconnectUnlocked i p2 cfg; ct_connectUnlocked i p1 cfg }) p1 cfg;
     run (\<lambda>i cfg. do { cfg \<leftarrow> ct_disconnectUnlocked i p1 cfg; ct_connectUnlocked i p2 cfg }) p2 cfg
   }"

section \<open>Clients\<close>

fun ct_shuffle_loop :: "(nat \<Rightarrow> nat) \<Rightarrow> nat list \<Rightarrow> 'a list \<Rightarrow> 'a list" where
  "ct_shuffle_loop r [] sa = sa"
| "ct_shuffle_loop r (i # js) sa = ct_shuffle_loop r js (sa[i := sa ! r i, r i := sa ! i])"

definition ct_random_handles :: "(nat \<Rightarrow> nat) \<Rightarrow> 'a list \<Rightarrow> 'a list" where
  "ct_random_handles r kvh = ct_shuffle_loop r [0..<length kvh] kvh"

definition ct_ConnectClientUnlocked :: "nat \<Rightarrow> int list \<Rightarrow> 'c ctester \<Rightarrow> 'c ctester option" where
  "ct_ConnectClientUnlocked ck to cfg = (let names = (case ct_clerks cfg ck of None \<Rightarrow> [] | Some es \<Rightarrow> es) in
     run (\<lambda>t cfg. do { s \<leftarrow> idx names t; Some (ct_Enable s True cfg) }) to cfg)"

definition ct_ConnectClient :: "nat \<Rightarrow> int list \<Rightarrow> 'c ctester \<Rightarrow> 'c ctester option" where
  "ct_ConnectClient ck to cfg = ct_ConnectClientUnlocked ck to cfg"

definition ct_DisconnectClientUnlocked :: "nat \<Rightarrow> int list \<Rightarrow> 'c ctester \<Rightarrow> 'c ctester option" where
  "ct_DisconnectClientUnlocked ck from cfg = (let names = (case ct_clerks cfg ck of None \<Rightarrow> [] | Some es \<Rightarrow> es) in
     run (\<lambda>t cfg. do { s \<leftarrow> idx names t; Some (ct_Enable s False cfg) }) from cfg)"

definition ct_DisconnectClient :: "nat \<Rightarrow> int list \<Rightarrow> 'c ctester \<Rightarrow> 'c ctester option" where
  "ct_DisconnectClient ck from cfg = ct_DisconnectClientUnlocked ck from cfg"

definition ct_makeClient :: "(nat \<Rightarrow> string) \<Rightarrow> (nat \<Rightarrow> nat) \<Rightarrow> nat \<Rightarrow> int list \<Rightarrow> 'c ctester \<Rightarrow> (string list \<times> 'c ctester) option" where
  "ct_makeClient draw r ck to cfg = do {
     let names = map draw [0..<ct_n cfg];
     rn \<leftarrow> make_ends 0 names (ct_net cfg);
     let cfg = cfg\<lparr>ct_net := rn, ct_clerks := (ct_clerks cfg)(ck \<mapsto> names), ct_nextClientId := ct_nextClientId cfg + 1\<rparr>;
     cfg \<leftarrow> ct_ConnectClientUnlocked ck to cfg;
     Some (ct_random_handles r names, cfg)
   }"

definition ct_deleteClient :: "nat \<Rightarrow> 'c ctester \<Rightarrow> 'c ctester" where
  "ct_deleteClient ck cfg = cfg\<lparr>ct_clerks := (ct_clerks cfg)(ck := None)\<rparr>"

section \<open>Servers\<close>

definition ct_ShutdownServer :: "int \<Rightarrow> 'c ctester \<Rightarrow> 'c ctester option" where
  "ct_ShutdownServer i cfg = do {
     cfg \<leftarrow> ct_disconnectUnlocked i (ct_All cfg) cfg;
     let cfg = cfg\<lparr>ct_net := DeleteServer (IntName i) (ct_net cfg)\<rparr>;
     ps \<leftarrow> ct_saved_at cfg i;
     sv \<leftarrow> idx_upd (ct_saved cfg) i (map_option Persister_Copy ps);
     scs \<leftarrow> idx_upd (ct_servers cfg) i None;
     Some (cfg\<lparr>ct_saved := sv, ct_servers := scs\<rparr>)
   }"

definition ct_StartServer :: "'c codec \<Rightarrow> clock \<Rightarrow> (nat \<Rightarrow> string) \<Rightarrow> nat \<Rightarrow> int \<Rightarrow> 'c ctester \<Rightarrow> 'c ctester option" where
  "ct_StartServer C clk draw srv i cfg = do {
     let names = map draw [0..<ct_n cfg];
     es \<leftarrow> idx_upd (ct_endnames cfg) i (Some names);
     rn \<leftarrow> make_ends 0 names (ct_net cfg);
     let cfg = cfg\<lparr>ct_endnames := es, ct_net := rn\<rparr>;
     p \<leftarrow> ct_saved_at cfg i;
     let ps = (case p of Some ps \<Rightarrow> Persister_Copy ps | None \<Rightarrow> MakePersister);
     sv \<leftarrow> idx_upd (ct_saved cfg) i (Some ps);
     sc \<leftarrow> ShardCtrler_StartServer C clk (length names) i ps;
     scs \<leftarrow> idx_upd (ct_servers cfg) i (Some sc);
     Some (cfg\<lparr>ct_saved := sv, ct_servers := scs, ct_net := AddServer (IntName i) srv (ct_net cfg)\<rparr>)
   }"

fun ct_Leader_loop :: "'c ctester \<Rightarrow> int list \<Rightarrow> (bool \<times> int) option" where
  "ct_Leader_loop cfg [] = Some (False, 0)"
| "ct_Leader_loop cfg (i # js) = do {
     p \<leftarrow> idx (ct_servers cfg) i;
     (case p of
        None \<Rightarrow> ct_Leader_loop cfg js
      | Some sc \<Rightarrow> if snd (GetState (sc_rf sc)) then Some (True, i) else ct_Leader_loop cfg js)
   }"

definition ct_Leader :: "'c ctester \<Rightarrow> (bool \<times> int) option" where
  "ct_Leader cfg = ct_Leader_loop cfg (ct_All cfg)"

fun ct_make_partition_loop :: "int \<Rightarrow> int list \<Rightarrow> nat \<Rightarrow> int list \<Rightarrow> int list \<Rightarrow> (int list \<times> int list) option" where
  "ct_make_partition_loop l [] j p1 p2 = Some (p1, p2)"
| "ct_make_partition_loop l (i # is) j p1 p2 =
     (if i \<noteq> l
      then if j < length p1 then ct_make_partition_loop l is (j + 1) (p1[j := i]) p2
        else do { p2 \<leftarrow> idx_upd p2 (int j - int (length p1)) i; ct_make_partition_loop l is (j + 1) p1 p2 }
      else ct_make_partition_loop l is j p1 p2)"

definition ct_make_partition :: "'c ctester \<Rightarrow> (int list \<times> int list) option" where
  "ct_make_partition cfg = do {
     (found, l) \<leftarrow> ct_Leader cfg;
     (p1, p2) \<leftarrow> ct_make_partition_loop l (ct_All cfg) 0 (replicate (ct_n cfg div 2 + 1) 0) (replicate (ct_n cfg div 2) 0);
     p2 \<leftarrow> idx_upd p2 (int (length p2) - 1) l;
     Some (p1, p2)
   }"

definition ct_make_config ::
  "'c codec \<Rightarrow> (int \<Rightarrow> clock \<times> (nat \<Rightarrow> string) \<times> nat) \<Rightarrow> int \<Rightarrow> nat \<Rightarrow> bool \<Rightarrow> 'c ctester option" where
  "ct_make_config C inp tm n unreliable = do {
     let cfg = \<lparr>ct_failed = False, ct_net = MakeNetwork, ct_n = n, ct_servers = replicate n None,
       ct_saved = replicate n None, ct_endnames = replicate n None, ct_clerks = (\<lambda>c. None),
       ct_nextClientId = int n + 1000, ct_start = tm\<rparr>;
     cfg \<leftarrow> run (\<lambda>i cfg. case inp i of (clk, draw, srv) \<Rightarrow> ct_StartServer C clk draw srv i cfg) (ct_All cfg) cfg;
     cfg \<leftarrow> ct_ConnectAll cfg;
     Some (cfg\<lparr>ct_net := Reliable (\<not> unreliable) (ct_net cfg)\<rparr>)
   }"

end
