(* ===== verification/CtrlConfigCorrect.thy ===== *)
theory CtrlConfigCorrect
  imports CtrlConfig KvConfigCorrect
begin

text \<open>
  The harness of the shard controller is the harness of the key-value servers, \<open>Leader\<close> apart: under the view
  that forgets which kind of server runs, every operation of one does what the same operation of the other
  does, a panic included. \<open>Leader\<close> of the key-value harness panics at a server that is shut down, and that of the
  controller skips it.
\<close>

section \<open>Simulations\<close>

text \<open>Two step functions that agree under a view of the state agree on all runs.\<close>

locale simulation =
  fixes step1 :: "'x \<Rightarrow> 's \<Rightarrow> 's option" and step2 :: "'x \<Rightarrow> 't \<Rightarrow> 't option" and view :: "'s \<Rightarrow> 't"
  assumes sim_step: "step2 x (view s) = map_option view (step1 x s)"
begin

lemma sim_run: "run step2 xs (view s) = map_option view (run step1 xs s)"
proof (induction xs arbitrary: s)
  case (Cons x xs)
  then show ?case by (cases "step1 x s") (simp_all add: sim_step)
qed simp

end

lemma bind_view: "Option.bind (map_option h m) g = map_option k (Option.bind m f) \<longleftrightarrow> (\<forall>x. m = Some x \<longrightarrow> g (h x) = map_option k (f x))"
  by (cases m) simp_all

lemma idx_map: "idx (map h xs) i = map_option h (idx xs i)"
  by (simp add: idx_def nat_less_iff)

lemma idx_upd_map: "idx_upd (map h xs) i (h v) = map_option (map h) (idx_upd xs i v)"
  by (simp add: idx_upd_def map_update)

section \<open>The view\<close>

text \<open>A controller has no flag of its own; its view is killed when its Raft server is.\<close>

definition kv_view :: "'c ShardCtrler \<Rightarrow> 'c KVServer" where
  "kv_view sc = \<lparr>kv_me = sc_me sc, kv_rf = sc_rf sc, kv_dead = dead (sc_rf sc), kv_maxraftstate = -1\<rparr>"

definition kv_tester :: "'c ctester \<Rightarrow> 'c tester" where
  "kv_tester cfg = \<lparr>kt_failed = ct_failed cfg, kt_net = ct_net cfg, kt_n = ct_n cfg,
     kvservers = map (map_option kv_view) (ct_servers cfg), kt_saved = ct_saved cfg, kt_endnames = ct_endnames cfg,
     clerks = ct_clerks cfg, nextClientId = ct_nextClientId cfg, maxraftstate = -1, kt_start = ct_start cfg,
     kt_t0 = 0, kt_rpcs0 = 0, kt_ops = 0\<rparr>"

lemma kv_tester_simps [simp]:
  "kt_failed (kv_tester cfg) = ct_failed cfg" "kt_net (kv_tester cfg) = ct_net cfg" "kt_n (kv_tester cfg) = ct_n cfg"
  "kvservers (kv_tester cfg) = map (map_option kv_view) (ct_servers cfg)" "kt_saved (kv_tester cfg) = ct_saved cfg"
  "kt_endnames (kv_tester cfg) = ct_endnames cfg" "clerks (kv_tester cfg) = ct_clerks cfg"
  "nextClientId (kv_tester cfg) = ct_nextClientId cfg" "maxraftstate (kv_tester cfg) = -1"
  "kt_All (kv_tester cfg) = ct_All cfg" "kt_end (kv_tester cfg) i j = ct_end cfg i j"
  by (simp_all add: kv_tester_def kt_All_def ct_All_def kt_end_def ct_end_def)

lemma kv_tester_upd [simp]:
  "kt_Enable e b (kv_tester cfg) = kv_tester (ct_Enable e b cfg)"
  "(kv_tester cfg)\<lparr>kt_net := rn\<rparr> = kv_tester (cfg\<lparr>ct_net := rn\<rparr>)"
  "(kv_tester cfg)\<lparr>kt_saved := sv\<rparr> = kv_tester (cfg\<lparr>ct_saved := sv\<rparr>)"
  "(kv_tester cfg)\<lparr>kt_endnames := es\<rparr> = kv_tester (cfg\<lparr>ct_endnames := es\<rparr>)"
  "(kv_tester cfg)\<lparr>clerks := cs\<rparr> = kv_tester (cfg\<lparr>ct_clerks := cs\<rparr>)"
  "(kv_tester cfg)\<lparr>nextClientId := k\<rparr> = kv_tester (cfg\<lparr>ct_nextClientId := k\<rparr>)"
  "(kv_tester cfg)\<lparr>kvservers := map (map_option kv_view) scs\<rparr> = kv_tester (cfg\<lparr>ct_servers := scs\<rparr>)"
  by (simp_all add: kv_tester_def kt_Enable_def ct_Enable_def)

lemma kt_saved_at_view [simp]: "kt_saved_at (kv_tester cfg) i = ct_saved_at cfg i"
  by (cases "idx (ct_saved cfg) i"; cases "idx (ct_servers cfg) i")
    (auto simp: kt_saved_at_def ct_saved_at_def idx_map kv_view_def split: option.splits)

lemma kt_start_view: "kt_start (kv_tester cfg) = ct_start cfg"
  by (simp add: kv_tester_def)

section \<open>Operations\<close>

interpretation out_on: simulation "\<lambda>t cfg. do { e \<leftarrow> ct_end cfg i t; Some (ct_Enable e True cfg) }"
    "\<lambda>t cfg. do { e \<leftarrow> kt_end cfg i t; Some (kt_Enable e True cfg) }" kv_tester for i
  by unfold_locales (simp split: Option.bind_splits)

interpretation in_on: simulation "\<lambda>t cfg. do { e \<leftarrow> ct_end cfg t i; Some (ct_Enable e True cfg) }"
    "\<lambda>t cfg. do { e \<leftarrow> kt_end cfg t i; Some (kt_Enable e True cfg) }" kv_tester for i
  by unfold_locales (simp split: Option.bind_splits)

interpretation out_off: simulation
    "\<lambda>t cfg. do { es \<leftarrow> idx (ct_endnames cfg) i; if es \<noteq> None then do { e \<leftarrow> ct_end cfg i t; Some (ct_Enable e False cfg) } else Some cfg }"
    "\<lambda>t cfg. do { es \<leftarrow> idx (kt_endnames cfg) i; if es \<noteq> None then do { e \<leftarrow> kt_end cfg i t; Some (kt_Enable e False cfg) } else Some cfg }"
    kv_tester for i
  by unfold_locales (simp split: Option.bind_splits)

interpretation clerk_ends: simulation "\<lambda>t cfg. do { s \<leftarrow> idx names t; Some (ct_Enable s b cfg) }"
    "\<lambda>t cfg. do { s \<leftarrow> idx names t; Some (kt_Enable s b cfg) }" kv_tester for names b
  by unfold_locales (simp split: Option.bind_splits)

lemma connectUnlocked_view: "connectUnlocked i to (kv_tester cfg) = map_option kv_tester (ct_connectUnlocked i to cfg)"
  unfolding connectUnlocked_def ct_connectUnlocked_def out_on.sim_run bind_view by (simp add: in_on.sim_run)

lemma disconnect_in_view: "disconnect_in i j from (kv_tester cfg) = map_option kv_tester (ct_disconnect_in i j from cfg)"
proof (induction "from" arbitrary: j cfg)
  case (Cons t "from")
  then show ?case by (simp split: Option.bind_splits)
qed simp

lemma disconnectUnlocked_view: "disconnectUnlocked i from (kv_tester cfg) = map_option kv_tester (ct_disconnectUnlocked i from cfg)"
  unfolding disconnectUnlocked_def ct_disconnectUnlocked_def out_off.sim_run bind_view by (simp add: disconnect_in_view)

interpretation side: simulation
    "\<lambda>i cfg. do { cfg \<leftarrow> ct_disconnectUnlocked i q cfg; ct_connectUnlocked i p cfg }"
    "\<lambda>i cfg. do { cfg \<leftarrow> disconnectUnlocked i q cfg; connectUnlocked i p cfg }" kv_tester for p q
  by unfold_locales (simp add: disconnectUnlocked_view bind_view connectUnlocked_view)

lemma kt_partition_view: "kt_partition p1 p2 (kv_tester cfg) = map_option kv_tester (ct_partition p1 p2 cfg)"
  unfolding kt_partition_def ct_partition_def side.sim_run bind_view by (simp add: side.sim_run)

interpretation connect_all: simulation "\<lambda>i cfg. ct_connectUnlocked i (ct_All cfg) cfg"
    "\<lambda>i cfg. connectUnlocked i (kt_All cfg) cfg" kv_tester
  by unfold_locales (simp add: connectUnlocked_view)

lemma ConnectAll_view: "ConnectAll (kv_tester cfg) = map_option kv_tester (ct_ConnectAll cfg)"
  by (simp add: ConnectAll_def ct_ConnectAll_def connect_all.sim_run)

lemma ConnectClientUnlocked_view:
  "ConnectClientUnlocked ck to (kv_tester cfg) = map_option kv_tester (ct_ConnectClientUnlocked ck to cfg)"
  "DisconnectClientUnlocked ck to (kv_tester cfg) = map_option kv_tester (ct_DisconnectClientUnlocked ck to cfg)"
  by (simp_all add: ConnectClientUnlocked_def ct_ConnectClientUnlocked_def DisconnectClientUnlocked_def
      ct_DisconnectClientUnlocked_def Let_def clerk_ends.sim_run)

lemma random_handles_view: "ct_random_handles r xs = random_handles r xs"
proof -
  have "ct_shuffle_loop r js ys = shuffle_loop r js ys" for js ys by (induction js arbitrary: ys) simp_all
  then show ?thesis by (simp add: random_handles_def ct_random_handles_def)
qed

lemma makeClient_view:
  "kt_makeClient draw r ck to (kv_tester cfg) = map_option (apsnd kv_tester) (ct_makeClient draw r ck to cfg)"
  by (simp add: kt_makeClient_def ct_makeClient_def Let_def ConnectClientUnlocked_view random_handles_view split: Option.bind_splits)

lemma ShutdownServer_view: "ShutdownServer i (kv_tester cfg) = map_option kv_tester (ct_ShutdownServer i cfg)"
proof -
  have upd: "idx_upd (map (map_option kv_view) xs) i None = map_option (map (map_option kv_view)) (idx_upd xs i None)"
    for xs :: "'a ShardCtrler option list"
    using idx_upd_map [of "map_option kv_view" xs i None] by simp
  show ?thesis
    unfolding ShutdownServer_def ct_ShutdownServer_def
    by (simp add: disconnectUnlocked_view bind_view Let_def upd split: Option.bind_splits)
qed

lemma Make_dead: "Make C clk n i ps = Some rf \<Longrightarrow> dead rf = 0"
  by (auto simp: Make_def Let_def readPersist_def resetElectionTimer_def split: if_splits list.splits gobval.splits)

lemma cleanup_view: "kt_cleanup tm (kv_tester cfg) = map_option kv_tester (ct_cleanup tm cfg)"
proof -
  have "map (map_option KVServer_Kill) (map (map_option kv_view) xs) = map (map_option kv_view) (map (map_option ShardCtrler_Kill) xs)"
    for xs :: "'a ShardCtrler option list"
    by (simp add: option.map_comp o_def KVServer_Kill_def ShardCtrler_Kill_def kv_view_def Kill_def)
  then show ?thesis
    by (simp add: kt_cleanup_def ct_cleanup_def kt_checkTimeout_def ct_checkTimeout_def Let_def kt_start_view
        del: map_map split: Option.bind_splits)
qed

lemma StartServer_view: "StartServer C clk draw srv i (kv_tester cfg) = map_option kv_tester (ct_StartServer C clk draw srv i cfg)"
proof -
  have new: "StartKVServer C clk n i ps (-1) = map_option kv_view (ShardCtrler_StartServer C clk n i ps)" for n ps
    by (auto simp: StartKVServer_def ShardCtrler_StartServer_def kv_view_def Make_dead split: Option.bind_splits)
  have upd: "idx_upd (map (map_option kv_view) xs) i (Some (kv_view sc)) = map_option (map (map_option kv_view)) (idx_upd xs i (Some sc))" for xs sc
    using idx_upd_map [of "map_option kv_view" xs i "Some sc"] by simp
  show ?thesis
    unfolding StartServer_def ct_StartServer_def
    by (simp add: Let_def new upd bind_view split: Option.bind_splits)
qed

section \<open>Sequences of operations\<close>

datatype 'c harness_op =
    HConnect int "int list" | HDisconnect int "int list" | HConnectAll | HPartition "int list" "int list"
  | HMakeClient "nat \<Rightarrow> string" "nat \<Rightarrow> nat" nat "int list" | HDeleteClient nat
  | HConnectClient nat "int list" | HDisconnectClient nat "int list"
  | HCleanup int | HShutdown int | HStart "'c codec" clock "nat \<Rightarrow> string" nat int

fun kt_exec :: "'c harness_op \<Rightarrow> 'c tester \<Rightarrow> 'c tester option" where
  "kt_exec (HConnect i to) cfg = kt_connect i to cfg"
| "kt_exec (HDisconnect i ns) cfg = kt_disconnect i ns cfg"
| "kt_exec HConnectAll cfg = ConnectAll cfg"
| "kt_exec (HPartition p1 p2) cfg = kt_partition p1 p2 cfg"
| "kt_exec (HMakeClient draw r ck to) cfg = map_option snd (kt_makeClient draw r ck to cfg)"
| "kt_exec (HDeleteClient ck) cfg = Some (kt_deleteClient ck cfg)"
| "kt_exec (HConnectClient ck to) cfg = ConnectClient ck to cfg"
| "kt_exec (HDisconnectClient ck ns) cfg = DisconnectClient ck ns cfg"
| "kt_exec (HCleanup tm) cfg = kt_cleanup tm cfg"
| "kt_exec (HShutdown i) cfg = ShutdownServer i cfg"
| "kt_exec (HStart C clk draw srv i) cfg = StartServer C clk draw srv i cfg"

fun ct_exec :: "'c harness_op \<Rightarrow> 'c ctester \<Rightarrow> 'c ctester option" where
  "ct_exec (HConnect i to) cfg = ct_connect i to cfg"
| "ct_exec (HDisconnect i ns) cfg = ct_disconnect i ns cfg"
| "ct_exec HConnectAll cfg = ct_ConnectAll cfg"
| "ct_exec (HPartition p1 p2) cfg = ct_partition p1 p2 cfg"
| "ct_exec (HMakeClient draw r ck to) cfg = map_option snd (ct_makeClient draw r ck to cfg)"
| "ct_exec (HDeleteClient ck) cfg = Some (ct_deleteClient ck cfg)"
| "ct_exec (HConnectClient ck to) cfg = ct_ConnectClient ck to cfg"
| "ct_exec (HDisconnectClient ck ns) cfg = ct_DisconnectClient ck ns cfg"
| "ct_exec (HCleanup tm) cfg = ct_cleanup tm cfg"
| "ct_exec (HShutdown i) cfg = ct_ShutdownServer i cfg"
| "ct_exec (HStart C clk draw srv i) cfg = ct_StartServer C clk draw srv i cfg"

lemmas harness_views = connectUnlocked_view disconnectUnlocked_view ConnectAll_view kt_partition_view makeClient_view
  ConnectClientUnlocked_view cleanup_view ShutdownServer_view StartServer_view

interpretation testers: simulation ct_exec kt_exec kv_tester
proof unfold_locales
  show "kt_exec x (kv_tester s) = map_option kv_tester (ct_exec x s)" for x :: "'a harness_op" and s
    by (cases x) (simp_all add: harness_views kt_connect_def ct_connect_def kt_disconnect_def ct_disconnect_def
        ConnectClient_def ct_ConnectClient_def DisconnectClient_def ct_DisconnectClient_def kt_deleteClient_def
        ct_deleteClient_def option.map_comp o_def)
qed

interpretation starts: simulation "\<lambda>i cfg. case inp i of (clk, draw, srv) \<Rightarrow> ct_StartServer C clk draw srv i cfg"
    "\<lambda>i cfg. case inp i of (clk, draw, srv) \<Rightarrow> StartServer C clk draw srv i cfg" kv_tester for inp C
  by unfold_locales (simp add: StartServer_view split: prod.splits)

lemma make_config_view:
  "kt_make_config C inp tm n unreliable (-1) = map_option kv_tester (ct_make_config C inp tm n unreliable)"
proof -
  let ?c = "\<lparr>ct_failed = False, ct_net = MakeNetwork, ct_n = n, ct_servers = replicate n None,
       ct_saved = replicate n None, ct_endnames = replicate n None, ct_clerks = (\<lambda>c. None),
       ct_nextClientId = int n + 1000, ct_start = tm\<rparr> :: 'a ctester"
  have "\<lparr>kt_failed = False, kt_net = MakeNetwork, kt_n = n, kvservers = replicate n None,
       kt_saved = replicate n None, kt_endnames = replicate n None, clerks = (\<lambda>c. None),
       nextClientId = int n + 1000, maxraftstate = -1, kt_start = tm, kt_t0 = 0, kt_rpcs0 = 0, kt_ops = 0\<rparr> = kv_tester ?c"
    by (simp add: kv_tester_def)
  then show ?thesis
    by (simp add: kt_make_config_def ct_make_config_def Let_def starts.sim_run bind_view ConnectAll_view split: Option.bind_splits)
qed

section \<open>Leaders\<close>

definition ct_leads :: "'c ctester \<Rightarrow> int \<Rightarrow> bool" where
  "ct_leads cfg i = (case idx (ct_servers cfg) i of Some (Some sc) \<Rightarrow> snd (GetState (sc_rf sc)) | _ \<Rightarrow> False)"

definition ct_down :: "'c ctester \<Rightarrow> int \<Rightarrow> bool" where
  "ct_down cfg i = (case idx (ct_servers cfg) i of Some None \<Rightarrow> True | _ \<Rightarrow> False)"

text \<open>A server that is shut down, with no leader among the servers before it.\<close>

definition down_before_leader :: "'c ctester \<Rightarrow> int list \<Rightarrow> bool" where
  "down_before_leader cfg js \<longleftrightarrow> (\<exists>i \<in> set js. ct_down cfg i \<and> (\<forall>j \<in> set js. j < i \<longrightarrow> \<not> ct_leads cfg j))"

lemma down_before_leader_Cons:
  assumes "sorted_wrt (<) (j # js)"
  shows "down_before_leader cfg (j # js) \<longleftrightarrow> ct_down cfg j \<or> \<not> ct_leads cfg j \<and> down_before_leader cfg js"
proof -
  have "\<forall>k \<in> set js. j < k" using assms by simp
  then have "\<not> k < j" if "k \<in> set (j # js)" for k using that by auto
  then show ?thesis using assms by (auto simp: down_before_leader_def)
qed

lemma Leader_loop_view:
  "sorted_wrt (<) js \<Longrightarrow> Leader_loop (kv_tester cfg) js = (if down_before_leader cfg js then None else ct_Leader_loop cfg js)"
proof (induction js)
  case (Cons j js)
  note down = down_before_leader_Cons [OF Cons.prems, of cfg]
  have rest: "sorted_wrt (<) js" using Cons.prems by simp
  show ?case
  proof (cases "idx (ct_servers cfg) j")
    case (Some p)
    then show ?thesis using Cons.IH [OF rest] by (cases p) (auto simp: idx_map kv_view_def down ct_leads_def ct_down_def)
  qed (simp add: idx_map)
qed (simp add: down_before_leader_def)

lemma Leader_view:
  "kt_Leader (kv_tester cfg) = (if down_before_leader cfg (ct_All cfg) then None else ct_Leader cfg)"
  by (simp add: kt_Leader_def ct_Leader_def Leader_loop_view ct_All_def sorted_wrt_upto)

lemma make_partition_view:
  "make_partition (kv_tester cfg) = (if down_before_leader cfg (ct_All cfg) then None else ct_make_partition cfg)"
proof -
  have loop: "ct_make_partition_loop x js j p1 p2 = make_partition_loop x js j p1 p2" for x js j p1 p2
    by (induction x js j p1 p2 rule: make_partition_loop.induct) (simp_all split: Option.bind_splits)
  show ?thesis by (simp add: make_partition_def ct_make_partition_def Leader_view loop)
qed

lemma LogSize_view: "kt_LogSize (kv_tester cfg) = ct_LogSize cfg"
proof -
  have "size_loop RaftStateSize (kv_tester cfg) js k = ct_size_loop cfg js k" for js k
    by (induction js arbitrary: k) (simp_all split: Option.bind_splits)
  then show ?thesis by (simp add: kt_LogSize_def ct_LogSize_def)
qed

text \<open>
  C39. The controller's test harness and the key-value one, compared on all their operations. Started with the
  same names and clocks, and put through the same operations on connections, clients and servers and
  \<open>cleanup\<close>, either both panic or both reach states that differ only in the kind of server they hold. In these
  states \<open>LogSize\<close> agrees. \<open>Leader\<close> and \<open>make_partition\<close> agree as well, except that those of the key-value harness
  panic exactly if a server is shut down and no server before it leads, where those of the controller go on.
\<close>

theorem harnesses_agree:
  "case Option.bind (ct_make_config C inp tm n unreliable) (run ct_exec ops) of
     None \<Rightarrow> Option.bind (kt_make_config C inp tm n unreliable (-1)) (run kt_exec ops) = None
   | Some cfg \<Rightarrow> Option.bind (kt_make_config C inp tm n unreliable (-1)) (run kt_exec ops) = Some (kv_tester cfg)
       \<and> kt_LogSize (kv_tester cfg) = ct_LogSize cfg
       \<and> kt_Leader (kv_tester cfg) = (if down_before_leader cfg (ct_All cfg) then None else ct_Leader cfg)
       \<and> make_partition (kv_tester cfg) = (if down_before_leader cfg (ct_All cfg) then None else ct_make_partition cfg)"
proof -
  have "Option.bind (kt_make_config C inp tm n unreliable (-1)) (run kt_exec ops)
     = map_option kv_tester (Option.bind (ct_make_config C inp tm n unreliable) (run ct_exec ops))"
    by (simp add: make_config_view bind_view testers.sim_run)
  then show ?thesis
    by (simp add: LogSize_view Leader_view make_partition_view split: option.splits)
qed

text \<open>Three controllers, of which the first is shut down: only the key-value harness panics.\<close>

definition ctrl_down :: "int ctester option" where
  "ctrl_down = Option.bind (ct_make_config sample_codec (\<lambda>i. (sample_clock, three_names i, nat i)) 0 3 False)
     (run ct_exec [HShutdown 0])"

lemma ctrl_down_Leader:
  "map_option (\<lambda>cfg. (ct_Leader cfg, down_before_leader cfg (ct_All cfg))) ctrl_down = Some (Some (False, 0), True)"
  by code_simp

theorem harnesses_agree_witness:
  "\<exists>cfg. ctrl_down = Some cfg \<and> ct_Leader cfg = Some (False, 0) \<and> kt_Leader (kv_tester cfg) = None
     \<and> Option.bind (kt_make_config sample_codec (\<lambda>i. (sample_clock, three_names i, nat i)) 0 3 False (-1))
         (run kt_exec [HShutdown 0]) = Some (kv_tester cfg)"
proof -
  from ctrl_down_Leader obtain cfg where cfg: "ctrl_down = Some cfg" "ct_Leader cfg = Some (False, 0)"
    "down_before_leader cfg (ct_All cfg)" by auto
  with harnesses_agree [of sample_codec "\<lambda>i. (sample_clock, three_names i, nat i)" 0 3 False "[HShutdown 0]"]
  show ?thesis by (simp add: ctrl_down_def)
qed

text \<open>While all servers run, a partition isolates the controller's leader too.\<close>

lemma ctrl_partition_isolates:
  assumes full: "full (kv_tester cfg)" and n: "ct_n cfg = 2 * m + 1" "0 < m"
    and all: "\<forall>i \<in> set (ct_All cfg). \<exists>sc. idx (ct_servers cfg) i = Some (Some sc)" and l: "ct_Leader cfg = Some (found, l)"
  shows "\<exists>p1 p2 cfg'. ct_make_partition cfg = Some (p1, p2) \<and> ct_partition p1 p2 cfg = Some cfg'
    \<and> majority (ct_n cfg) (set p1) \<and> l \<in> set p2 \<and> set p1 \<inter> set p2 = {}"
proof -
  have up: "\<not> down_before_leader cfg (ct_All cfg)" using all by (fastforce simp: down_before_leader_def ct_down_def)
  with l have "kt_Leader (kv_tester cfg) = Some (found, l)" by (simp add: Leader_view)
  with partition_isolates [OF full _ n(2)] n up show ?thesis by (auto simp: kt_partition_view make_partition_view)
qed

end
