(* ===== verification/Visualization.thy ===== *)
theory Visualization
  imports CheckerApi
begin

text \<open>
  The data of a visualization, \<open>src/src/porcupine/visualization.go\<close>: for each partition the operations
  with their times and descriptions, the partial linearizations with the states they pass through, and
  for each operation the largest partial linearization that contains it.

  A description of an operation, like a step, needs an input and an output and fails on anything else.
  \<open>sort.Slice\<close> is the argument \<open>srt\<close>; it sorts the partial linearizations in place, so they are part of
  the result. Sizes that are missing in \<open>largestSize\<close> read as zero. The page is a string constant with a
  place for the data: what \<open>Fprintf\<close> makes of it, \<open>json.Marshal\<close> and the writer are arguments.
\<close>

section \<open>visualization.go\<close>

record historyElement =
  he_ClientId :: int
  he_Start :: int
  he_End :: int
  he_Description :: string

record linearizationStep =
  ls_Index :: int
  StateDescription :: string

record partitionVisualizationData =
  History :: "historyElement list"
  PartialLinearizations :: "linearizationStep list list"
  Largest :: "int \<Rightarrow> nat option"

text \<open>\<open>model.DescribeOperation\<close> on two values of the history.\<close>

definition model_Describe ::
  "('i, 'o, 's) Model \<Rightarrow> ('i, 'o) interface option \<Rightarrow> ('i, 'o) interface option \<Rightarrow> string option" where
  "model_Describe model v w = do {
     d \<leftarrow> DescribeOperation model;
     (case (v, w) of (Some (InV i), Some (OutV out)) \<Rightarrow> Some (d i out) | _ \<Rightarrow> None)
   }"

text \<open>One entry of the history; the state is \<open>history\<close>, \<open>callValue\<close> and \<open>returnValue\<close>.\<close>

type_synonym ('i, 'o) vis_state =
  "historyElement list \<times> (int \<Rightarrow> ('i, 'o) interface option) \<times> (int \<Rightarrow> ('i, 'o) interface option)"

definition history_entry ::
  "('i, 'o, 's) Model \<Rightarrow> ('i, 'o) entry \<Rightarrow> ('i, 'o) vis_state \<Rightarrow> ('i, 'o) vis_state option" where
  "history_entry model elem = (\<lambda>(history, callValue, returnValue).
     (case e_kind elem of
        callEntry \<Rightarrow> do {
          h \<leftarrow> idx history (e_id elem);
          history \<leftarrow> idx_upd history (e_id elem) (h\<lparr>he_ClientId := e_clientId elem, he_Start := e_time elem\<rparr>);
          Some (history, callValue(e_id elem \<mapsto> e_value elem), returnValue)
        }
      | returnEntry \<Rightarrow> do {
          h \<leftarrow> idx history (e_id elem);
          desc \<leftarrow> model_Describe model (callValue (e_id elem)) (Some (e_value elem));
          history \<leftarrow> idx_upd history (e_id elem) (h\<lparr>he_End := e_time elem, he_Description := desc\<rparr>);
          Some (history, callValue, returnValue(e_id elem \<mapsto> e_value elem))
        }))"

text \<open>The loop over one partial linearization, the \<open>i\<close>-th of \<open>len\<close> operations.\<close>

fun partial_loop ::
  "('i, 'o, 's) Model \<Rightarrow> (int \<Rightarrow> ('i, 'o) interface option) \<Rightarrow> (int \<Rightarrow> ('i, 'o) interface option) \<Rightarrow> nat \<Rightarrow> nat
     \<Rightarrow> int list \<Rightarrow> 's \<Rightarrow> (int \<Rightarrow> nat option) \<Rightarrow> (int \<Rightarrow> nat)
     \<Rightarrow> (linearizationStep list \<times> (int \<Rightarrow> nat option) \<times> (int \<Rightarrow> nat)) option" where
  "partial_loop model callValue returnValue i len [] st largestIndex largestSize = Some ([], largestIndex, largestSize)"
| "partial_loop model callValue returnValue i len (histId # ids) st largestIndex largestSize = do {
     (ok, st) \<leftarrow> model_Step model st (callValue histId) (returnValue histId);
     if ok \<noteq> True then None
     else do {
       describe \<leftarrow> DescribeState model;
       let larger = largestSize histId < len;
       (steps, largestIndex, largestSize) \<leftarrow> partial_loop model callValue returnValue i len ids st
         (if larger then largestIndex(histId \<mapsto> i) else largestIndex)
         (if larger then largestSize(histId := len) else largestSize);
       Some (\<lparr>ls_Index = histId, StateDescription = describe st\<rparr> # steps, largestIndex, largestSize)
     }
   }"

fun partials_loop ::
  "('i, 'o, 's) Model \<Rightarrow> (int \<Rightarrow> ('i, 'o) interface option) \<Rightarrow> (int \<Rightarrow> ('i, 'o) interface option) \<Rightarrow> nat
     \<Rightarrow> int list list \<Rightarrow> (int \<Rightarrow> nat option) \<Rightarrow> (int \<Rightarrow> nat)
     \<Rightarrow> (linearizationStep list list \<times> (int \<Rightarrow> nat option)) option" where
  "partials_loop model callValue returnValue i [] largestIndex largestSize = Some ([], largestIndex)"
| "partials_loop model callValue returnValue i (part # partials) largestIndex largestSize = do {
     (steps, largestIndex, largestSize) \<leftarrow>
       partial_loop model callValue returnValue i (length part) part (Init model) largestIndex largestSize;
     (rest, largestIndex) \<leftarrow> partials_loop model callValue returnValue (i + 1) partials largestIndex largestSize;
     Some (steps # rest, largestIndex)
   }"

definition visualize_partition ::
  "(int list list \<Rightarrow> int list list) \<Rightarrow> ('i, 'o, 's) Model \<Rightarrow> ('i, 'o) entry list \<Rightarrow> int list list
     \<Rightarrow> (partitionVisualizationData \<times> int list list) option" where
  "visualize_partition srt model entries partials = do {
     let n = length entries div 2;
     let blank = \<lparr>he_ClientId = 0, he_Start = 0, he_End = 0, he_Description = []\<rparr>;
     (history, callValue, returnValue) \<leftarrow>
       run (history_entry model) entries (replicate n blank, (\<lambda>k. None), (\<lambda>k. None));
     let partials = srt partials;
     (linearizations, largest) \<leftarrow> partials_loop model callValue returnValue 0 partials (\<lambda>k. None) (\<lambda>k. 0);
     Some (\<lparr>History = history, PartialLinearizations = linearizations, Largest = largest\<rparr>, partials)
   }"

definition computeVisualizationData ::
  "('i \<Rightarrow> 'o \<Rightarrow> string) \<Rightarrow> ('s \<Rightarrow> string) \<Rightarrow> (int list list \<Rightarrow> int list list) \<Rightarrow> ('i, 'o, 's) Model
     \<Rightarrow> ('i, 'o) linearizationInfo \<Rightarrow> (partitionVisualizationData list \<times> ('i, 'o) linearizationInfo) option" where
  "computeVisualizationData dop dst srt model info = do {
     let model = fillDefault dop dst model;
     rs \<leftarrow> mapM (\<lambda>p. do {
         entries \<leftarrow> idx (li_history info) p;
         partials \<leftarrow> idx (partialLinearizations info) p;
         visualize_partition srt model entries partials
       }) [0..int (length (li_history info)) - 1];
     Some (map fst rs, info\<lparr>partialLinearizations := map snd rs @ drop (length rs) (partialLinearizations info)\<rparr>)
   }"

text \<open>
  \<open>Visualize\<close>: the error, if any, and what the writer got. \<open>marshal\<close> is \<open>json.Marshal\<close>, \<open>page\<close> the HTML
  with the data in it, \<open>out\<close> one call of the writer. \<open>VisualizePath\<close> first creates the file.
\<close>

definition Visualize ::
  "('i \<Rightarrow> 'o \<Rightarrow> string) \<Rightarrow> ('s \<Rightarrow> string) \<Rightarrow> (int list list \<Rightarrow> int list list)
     \<Rightarrow> (partitionVisualizationData list \<Rightarrow> 'e + string) \<Rightarrow> (string \<Rightarrow> string) \<Rightarrow> (string \<Rightarrow> 'w \<Rightarrow> 'e option \<times> 'w)
     \<Rightarrow> ('i, 'o, 's) Model \<Rightarrow> ('i, 'o) linearizationInfo \<Rightarrow> 'w \<Rightarrow> ('e option \<times> 'w) option" where
  "Visualize dop dst srt marshal page out model info w = do {
     (data, _) \<leftarrow> computeVisualizationData dop dst srt model info;
     Some (case marshal data of Inl err \<Rightarrow> (Some err, w) | Inr jsonData \<Rightarrow> out (page jsonData) w)
   }"

definition VisualizePath ::
  "('i \<Rightarrow> 'o \<Rightarrow> string) \<Rightarrow> ('s \<Rightarrow> string) \<Rightarrow> (int list list \<Rightarrow> int list list)
     \<Rightarrow> (partitionVisualizationData list \<Rightarrow> 'e + string) \<Rightarrow> (string \<Rightarrow> string) \<Rightarrow> (string \<Rightarrow> 'w \<Rightarrow> 'e option \<times> 'w)
     \<Rightarrow> (string \<Rightarrow> 'e + 'w) \<Rightarrow> ('i, 'o, 's) Model \<Rightarrow> ('i, 'o) linearizationInfo \<Rightarrow> string \<Rightarrow> ('e option \<times> 'w option) option" where
  "VisualizePath dop dst srt marshal page out create model info fname =
     (case create fname of
        Inl err \<Rightarrow> Some (Some err, None)
      | Inr f \<Rightarrow> map_option (apsnd Some) (Visualize dop dst srt marshal page out model info f))"

section \<open>The history\<close>

text \<open>What the loop over the first entries \<open>xs\<close> of a history has stored.\<close>

definition element_of :: "('i \<Rightarrow> 'o \<Rightarrow> string) \<Rightarrow> ('i, 'o) Operation \<Rightarrow> historyElement" where
  "element_of d v = \<lparr>he_ClientId = ClientId v, he_Start = Call v, he_End = Return v, he_Description = d (Input v) (Output v)\<rparr>"

definition seen_at ::
  "('i \<Rightarrow> 'o \<Rightarrow> string) \<Rightarrow> ('i, 'o) Operation \<Rightarrow> bool \<Rightarrow> bool \<Rightarrow> historyElement \<Rightarrow> ('i, 'o) interface option
     \<Rightarrow> ('i, 'o) interface option \<Rightarrow> bool" where
  "seen_at d v called returned h c r \<longleftrightarrow> c = (if called then Some (InV (Input v)) else None)
     \<and> r = (if returned then Some (OutV (Output v)) else None)
     \<and> h = \<lparr>he_ClientId = (if called then ClientId v else 0), he_Start = (if called then Call v else 0),
         he_End = (if returned then Return v else 0), he_Description = (if returned then d (Input v) (Output v) else [])\<rparr>"

definition seen :: "('i \<Rightarrow> 'o \<Rightarrow> string) \<Rightarrow> ('i, 'o) Operation list \<Rightarrow> ('i, 'o) entry list \<Rightarrow> ('i, 'o) vis_state \<Rightarrow> bool" where
  "seen d ops xs = (\<lambda>(history, cv, rv). length history = length ops \<and> (\<forall>k < length ops.
     seen_at d (ops ! k) (call_of (ops ! k) (int k) \<in> set xs) (return_of (ops ! k) (int k) \<in> set xs)
       (history ! k) (cv (int k)) (rv (int k))))"

lemma entry_neq [simp]:
  "call_of v k \<noteq> return_of w j" "return_of w j \<noteq> call_of v k"
  "k \<noteq> j \<Longrightarrow> call_of v k \<noteq> call_of w j" "k \<noteq> j \<Longrightarrow> return_of v k \<noteq> return_of w j"
  by (simp_all add: call_of_def return_of_def)

lemma seen_update:
  assumes old: "seen d ops xs (hs, cv, rv)" and k: "k < length ops"
    and new: "seen_at d (ops ! k) (call_of (ops ! k) (int k) \<in> set (xs @ [e])) (return_of (ops ! k) (int k) \<in> set (xs @ [e])) h c r"
    and e: "e = call_of (ops ! k) (int k) \<or> e = return_of (ops ! k) (int k)"
  shows "seen d ops (xs @ [e]) (hs[k := h], cv(int k := c), rv(int k := r))"
proof -
  have "seen_at d (ops ! j) (call_of (ops ! j) (int j) \<in> set (xs @ [e])) (return_of (ops ! j) (int j) \<in> set (xs @ [e]))
      (hs[k := h] ! j) ((cv(int k := c)) (int j)) ((rv(int k := r)) (int j))" if j: "j < length ops" for j
  proof (cases "j = k")
    case True
    with new k old show ?thesis by (simp add: seen_def)
  next
    case False
    then have "call_of (ops ! j) (int j) \<noteq> e" "return_of (ops ! j) (int j) \<noteq> e" using e by auto
    with False j old show ?thesis by (simp add: seen_def)
  qed
  with old show ?thesis by (simp add: seen_def)
qed

lemma seen_call:
  assumes old: "seen d ops xs st" and k: "k < length ops"
  shows "\<exists>st'. history_entry M (call_of (ops ! k) (int k)) st = Some st' \<and> seen d ops (xs @ [call_of (ops ! k) (int k)]) st'"
proof -
  obtain hs cv rv where st: "st = (hs, cv, rv)" by (cases st)
  let ?v = "ops ! k"
  let ?h = "(hs ! k)\<lparr>he_ClientId := ClientId ?v, he_Start := Call ?v\<rparr>"
  have len: "length hs = length ops"
    and at: "seen_at d ?v (call_of ?v (int k) \<in> set xs) (return_of ?v (int k) \<in> set xs) (hs ! k) (cv (int k)) (rv (int k))"
    using old k by (auto simp: seen_def st)
  have "history_entry M (call_of ?v (int k)) st = Some (hs[k := ?h], cv(int k \<mapsto> InV (Input ?v)), rv)"
    using k len by (simp add: history_entry_def st call_of_def idx_upd_def)
  moreover have "seen d ops (xs @ [call_of ?v (int k)]) (hs[k := ?h], cv(int k \<mapsto> InV (Input ?v)), rv(int k := rv (int k)))"
    using at by (intro seen_update [OF old [unfolded st] k]) (auto simp: seen_at_def)
  ultimately show ?thesis by auto
qed

lemma seen_return:
  assumes old: "seen d ops xs st" and k: "k < length ops" and call: "call_of (ops ! k) (int k) \<in> set xs"
    and d: "DescribeOperation M = Some d"
  shows "\<exists>st'. history_entry M (return_of (ops ! k) (int k)) st = Some st' \<and> seen d ops (xs @ [return_of (ops ! k) (int k)]) st'"
proof -
  obtain hs cv rv where st: "st = (hs, cv, rv)" by (cases st)
  let ?v = "ops ! k"
  let ?h = "(hs ! k)\<lparr>he_End := Return ?v, he_Description := d (Input ?v) (Output ?v)\<rparr>"
  have len: "length hs = length ops"
    and at: "seen_at d ?v True (return_of ?v (int k) \<in> set xs) (hs ! k) (cv (int k)) (rv (int k))"
    using old k call by (auto simp: seen_def st)
  have "history_entry M (return_of ?v (int k)) st = Some (hs[k := ?h], cv, rv(int k \<mapsto> OutV (Output ?v)))"
    using k len at d by (simp add: history_entry_def st return_of_def idx_upd_def model_Describe_def seen_at_def)
  moreover have "seen d ops (xs @ [return_of ?v (int k)]) (hs[k := ?h], cv(int k := cv (int k)), rv(int k \<mapsto> OutV (Output ?v)))"
    using at call by (intro seen_update [OF old [unfolded st] k]) (auto simp: seen_at_def)
  ultimately show ?thesis by auto
qed

text \<open>In a history of operations every entry is a call or a return behind its call.\<close>

lemma run_history:
  assumes f: "sort_ok f" and times: "\<forall>v \<in> set ops. Call v \<le> Return v" and d: "DescribeOperation M = Some d"
    and st: "seen d ops [] st" and m: "m \<le> length (makeEntries f ops)"
  shows "\<exists>st'. run (history_entry M) (take m (makeEntries f ops)) st = Some st' \<and> seen d ops (take m (makeEntries f ops)) st'"
  using m
proof (induction m)
  case 0
  then show ?case using st by simp
next
  case (Suc m)
  let ?H = "makeEntries f ops"
  have wf: "wf_history (length ops) ?H" using wf_makeEntries [OF f times] .
  from Suc obtain st1 where st1: "run (history_entry M) (take m ?H) st = Some st1" "seen d ops (take m ?H) st1" by auto
  have m: "m < length ?H" using Suc by simp
  define k where "k = nat (e_id (?H ! m))"
  have k: "k < length ops" and e: "?H ! m = call_of (ops ! k) (int k) \<or> ?H ! m = return_of (ops ! k) (int k)"
    using makeEntries_entry [OF f nth_mem [OF m]] by (auto simp: k_def nat_less_iff split: if_splits)
  have "call_of (ops ! k) (int k) \<in> set (take m ?H)" if r: "?H ! m = return_of (ops ! k) (int k)"
  proof -
    obtain i where i: "i < length ?H" "?H ! i = call_of (ops ! k) (int k)"
      using makeEntries_has(1) [OF f k] by (auto simp: in_set_conv_nth)
    with wf_history_call_before [OF wf i(1) m] r have "i < m" by (simp add: call_of_def return_of_def)
    with i show ?thesis by (metis in_set_conv_nth length_take min_less_iff_conj nth_take)
  qed
  with e seen_call [OF st1(2) k] seen_return [OF st1(2) k _ d]
  obtain st2 where "history_entry M (?H ! m) st1 = Some st2" "seen d ops (take m ?H @ [?H ! m]) st2" by metis
  with st1(1) show ?case using m by (auto simp: take_Suc_conv_app_nth run_append)
qed

lemma run_history_all:
  assumes "sort_ok f" and "\<forall>v \<in> set ops. Call v \<le> Return v" and "DescribeOperation M = Some d"
  obtains cv rv where "run (history_entry M) (makeEntries f ops)
      (replicate (length ops) \<lparr>he_ClientId = 0, he_Start = 0, he_End = 0, he_Description = []\<rparr>, (\<lambda>k. None), (\<lambda>k. None))
      = Some (map (element_of d) ops, cv, rv)"
    and "\<forall>k < length ops. cv (int k) = Some (InV (Input (ops ! k))) \<and> rv (int k) = Some (OutV (Output (ops ! k)))"
proof -
  let ?H = "makeEntries f ops"
  let ?s = "(replicate (length ops) \<lparr>he_ClientId = 0, he_Start = 0, he_End = 0, he_Description = []\<rparr>, (\<lambda>k. None), (\<lambda>k. None)) :: ('a, 'b) vis_state"
  have "seen d ops [] ?s" by (simp add: seen_def seen_at_def)
  from run_history [OF assms this order_refl] obtain hs cv rv where
    run: "run (history_entry M) ?H ?s = Some (hs, cv, rv)" and seen: "seen d ops ?H (hs, cv, rv)" by auto
  note has = makeEntries_has [OF assms(1)]
  have "hs = map (element_of d) ops"
    using seen has by (intro nth_equalityI) (auto simp: seen_def seen_at_def element_of_def)
  moreover have "\<forall>k < length ops. cv (int k) = Some (InV (Input (ops ! k))) \<and> rv (int k) = Some (OutV (Output (ops ! k)))"
    using seen has by (auto simp: seen_def seen_at_def)
  ultimately show thesis using that run by blast
qed

section \<open>Partial linearizations\<close>

text \<open>The step of an operation, and the states a sequence of operations passes through.\<close>

definition op_step :: "('i, 'o, 's) Model \<Rightarrow> ('i, 'o) Operation list \<Rightarrow> 's \<Rightarrow> int \<Rightarrow> bool \<times> 's" where
  "op_step M ops s k = Step M s (Input (ops ! nat k)) (Output (ops ! nat k))"

fun trace :: "('s \<Rightarrow> int \<Rightarrow> bool \<times> 's) \<Rightarrow> 's \<Rightarrow> int list \<Rightarrow> (int \<times> 's) list" where
  "trace stp s [] = []"
| "trace stp s (k # ks) = (k, snd (stp s k)) # trace stp (snd (stp s k)) ks"

definition drawn :: "('i, 'o, 's) Model \<Rightarrow> ('s \<Rightarrow> string) \<Rightarrow> ('i, 'o) Operation list \<Rightarrow> 's \<Rightarrow> int list \<Rightarrow> linearizationStep list" where
  "drawn M ds ops s ks = map (\<lambda>(k, t). \<lparr>ls_Index = k, StateDescription = ds t\<rparr>) (trace (op_step M ops) s ks)"

definition legal_ops :: "('i, 'o, 's) Model \<Rightarrow> ('i, 'o) Operation list \<Rightarrow> 's \<Rightarrow> int list \<Rightarrow> bool" where
  "legal_ops M ops s ks \<longleftrightarrow> set ks \<subseteq> {0..<int (length ops)} \<and> legal (op_step M ops) s ks"

lemma partial_loop_ok:
  assumes vals: "\<forall>k < length ops. cv (int k) = Some (InV (Input (ops ! k))) \<and> rv (int k) = Some (OutV (Output (ops ! k)))"
    and ds: "DescribeState M = Some ds" and "legal_ops M ops s ks"
  shows "partial_loop M cv rv i len ks s li ls = Some (drawn M ds ops s ks,
    (\<lambda>k. if k \<in> set ks \<and> ls k < len then Some i else li k), (\<lambda>k. if k \<in> set ks \<and> ls k < len then len else ls k))"
  using assms(3)
proof (induction ks arbitrary: s li ls)
  case (Cons k ks)
  have "nat k < length ops" "int (nat k) = k" using Cons.prems by (auto simp: legal_ops_def nat_less_iff)
  with vals have "cv k = Some (InV (Input (ops ! nat k)))" "rv k = Some (OutV (Output (ops ! nat k)))" by metis+
  moreover have "fst (op_step M ops s k)" "legal_ops M ops (snd (op_step M ops s k)) ks"
    using Cons.prems by (auto simp: legal_ops_def)
  ultimately show ?case
    using Cons.IH ds
    by (auto simp: model_Step_def op_step_def drawn_def Let_def fun_eq_iff split: prod.splits)
qed (simp add: drawn_def)

text \<open>The largest partial linearization of each operation among those that were visited.\<close>

definition largest_inv :: "int list list \<Rightarrow> (int \<Rightarrow> nat option) \<Rightarrow> (int \<Rightarrow> nat) \<Rightarrow> bool" where
  "largest_inv ps li ls \<longleftrightarrow> (\<forall>k. case li k of
     None \<Rightarrow> ls k = 0 \<and> (\<forall>p \<in> set ps. k \<notin> set p)
   | Some i \<Rightarrow> i < length ps \<and> k \<in> set (ps ! i) \<and> ls k = length (ps ! i) \<and> (\<forall>p \<in> set ps. k \<in> set p \<longrightarrow> length p \<le> length (ps ! i)))"

lemma largest_inv_snoc:
  assumes "largest_inv ps li ls"
  shows "largest_inv (ps @ [p]) (\<lambda>k. if k \<in> set p \<and> ls k < length p then Some (length ps) else li k)
    (\<lambda>k. if k \<in> set p \<and> ls k < length p then length p else ls k)"
  unfolding largest_inv_def
proof
  fix k
  have old: "case li k of None \<Rightarrow> ls k = 0 \<and> (\<forall>p \<in> set ps. k \<notin> set p)
    | Some i \<Rightarrow> i < length ps \<and> k \<in> set (ps ! i) \<and> ls k = length (ps ! i) \<and> (\<forall>p \<in> set ps. k \<in> set p \<longrightarrow> length p \<le> length (ps ! i))"
    using assms unfolding largest_inv_def by (rule spec)
  have pos: "k \<in> set p \<Longrightarrow> 0 < length p" by (cases p) auto
  show "case if k \<in> set p \<and> ls k < length p then Some (length ps) else li k of
      None \<Rightarrow> (if k \<in> set p \<and> ls k < length p then length p else ls k) = 0 \<and> (\<forall>p \<in> set (ps @ [p]). k \<notin> set p)
    | Some i \<Rightarrow> i < length (ps @ [p]) \<and> k \<in> set ((ps @ [p]) ! i)
        \<and> (if k \<in> set p \<and> ls k < length p then length p else ls k) = length ((ps @ [p]) ! i)
        \<and> (\<forall>q \<in> set (ps @ [p]). k \<in> set q \<longrightarrow> length q \<le> length ((ps @ [p]) ! i))"
  proof (cases "k \<in> set p \<and> ls k < length p")
    case True
    then show ?thesis using old by (fastforce split: option.splits)
  next
    case False
    then show ?thesis using old pos by (cases "li k") (auto simp: nth_append)
  qed
qed

lemma partials_loop_ok:
  assumes vals: "\<forall>k < length ops. cv (int k) = Some (InV (Input (ops ! k))) \<and> rv (int k) = Some (OutV (Output (ops ! k)))"
    and ds: "DescribeState M = Some ds" and "\<forall>p \<in> set ps. legal_ops M ops (Init M) p" and "largest_inv qs li ls"
  shows "\<exists>li' ls'. partials_loop M cv rv (length qs) ps li ls = Some (map (drawn M ds ops (Init M)) ps, li')
    \<and> largest_inv (qs @ ps) li' ls'"
  using assms(3,4)
proof (induction ps arbitrary: qs li ls)
  case (Cons p ps)
  from Cons.IH [OF _ largest_inv_snoc [OF Cons.prems(2), of p]] Cons.prems(1) obtain li' ls' where
    "partials_loop M cv rv (length (qs @ [p])) ps (\<lambda>k. if k \<in> set p \<and> ls k < length p then Some (length qs) else li k)
      (\<lambda>k. if k \<in> set p \<and> ls k < length p then length p else ls k) = Some (map (drawn M ds ops (Init M)) ps, li')"
    "largest_inv ((qs @ [p]) @ ps) li' ls'" by auto
  then show ?case using partial_loop_ok [OF vals ds, of "Init M" p] Cons.prems(1) by auto
qed auto

section \<open>The whole visualization\<close>

text \<open>
  What \<open>range\<close> over a map and \<open>sort.Slice\<close> promise: only entries of the map are visited, and the slice
  is reordered so that longer partial linearizations come first.
\<close>

definition iter_ok :: "((nat \<times> int list) list \<Rightarrow> (nat \<times> int list) list) \<Rightarrow> bool" where
  "iter_ok iter \<longleftrightarrow> (\<forall>xs. set (iter xs) = set xs)"

definition slice_sort_ok :: "(int list list \<Rightarrow> int list list) \<Rightarrow> bool" where
  "slice_sort_ok srt \<longleftrightarrow> (\<forall>ps. mset (srt ps) = mset ps \<and> sorted_wrt (\<lambda>p q. length q \<le> length p) (srt ps))"

lemma hpath_legal_ops:
  assumes f: "sort_ok f" and times: "\<forall>v \<in> set ops. Call v \<le> Return v" and path: "hpath M (makeEntries f ops) seq"
  shows "legal_ops M ops (Init M) seq"
proof -
  have wf: "wf_history (length ops) (makeEntries f ops)" using wf_makeEntries [OF f times] .
  have sub: "set seq \<subseteq> {0..<int (length ops)}" using path_distinct [OF path] length_wf_history [OF wf] by auto
  have "legal (hstep M (makeEntries f ops)) (Init M) seq = legal (op_step M ops) (Init M) seq"
    using hstep_makeEntries [OF f wf, of _ M] subsetD [OF sub] by (intro legal_cong) (simp add: op_step_def)
  with sub path_legal [OF path] show ?thesis by (simp add: legal_ops_def)
qed

lemma verbose_info:
  assumes f: "sort_ok f" and eq: "Equal M = None \<or> equal_ok M" and iter: "iter_ok iter"
    and times: "\<forall>p \<in> set (parts M ops). \<forall>v \<in> set p. Call v \<le> Return v"
    and run: "CheckOperationsVerbose dop dst f iter arr sight M ops timeout = Some (res, info)"
  shows "\<exists>pls. info = Some \<lparr>li_history = map (makeEntries f) (parts M ops), partialLinearizations = pls\<rparr>
    \<and> length pls = length (parts M ops) \<and> (\<forall>i < length (parts M ops). \<forall>seq \<in> set (pls ! i). legal_ops M (parts M ops ! i) (Init M) seq)"
proof -
  let ?M = "fillDefault dop dst M" and ?Hs = "map (makeEntries f) (parts M ops)"
  have "(case Partition M of None \<Rightarrow> NoPartition | Some f \<Rightarrow> f) ops = parts M ops"
    by (auto simp: parts_def NoPartition_def split: option.splits)
  then have cp: "checkParallel iter arr sight ?M ?Hs True timeout = Some (res, info)"
    using run by (simp add: CheckOperationsVerbose_def checkOperations_def)
  have wf: "\<forall>H \<in> set ?Hs. \<exists>n. wf_history n H" using wf_makeEntries [OF f] times by fastforce
  obtain flags rs0 where fl: "mapM (\<lambda>i. goroutine ?M ?Hs True sight i flags) [0..<length ?Hs] = Some rs0"
      "info = Some \<lparr>li_history = ?Hs, partialLinearizations = map (unique_partials iter \<circ> snd) rs0\<rparr>"
    using cp by (fastforce simp: checkParallel_def bind_eq_Some_conv)
  obtain rs where rs: "mapM (\<lambda>i. goroutine ?M ?Hs True sight i flags) [0..<length ?Hs] = Some rs" "length rs = length ?Hs"
    and one: "\<forall>i < length ?Hs. result_ok ?M (?Hs ! i) (\<forall>r. \<not> flag_at flags (sight i r)) (rs ! i)"
    using mapM_goroutine [OF wf equal_ok_fillDefault [OF eq]] by blast
  let ?pls = "map (unique_partials iter \<circ> snd) rs"
  have "info = Some \<lparr>li_history = ?Hs, partialLinearizations = ?pls\<rparr>"
    using fl rs(1) by simp
  moreover have "legal_ops M (parts M ops ! i) (Init M) seq" if i: "i < length (parts M ops)" and seq: "seq \<in> set (?pls ! i)" for i seq
  proof -
    obtain r where "Some (r, seq) \<in> set (snd (rs ! i))"
      using seq i rs(2) iter by (auto simp: unique_partials_def iter_ok_def List.map_filter_def)
    moreover have "longest_ok ?M (?Hs ! i) (snd (rs ! i))" using one i by (simp add: result_ok_def)
    ultimately have "hpath ?M (makeEntries f (parts M ops ! i)) seq" using i by (auto simp: longest_ok_def)
    from hpath_legal_ops [OF f _ this] times nth_mem [OF i] have "legal_ops ?M (parts M ops ! i) (Init ?M) seq" by blast
    then show ?thesis by (simp add: legal_ops_def op_step_def [abs_def])
  qed
  ultimately show ?thesis using rs(2) by (intro exI [of _ ?pls]) auto
qed

text \<open>What is shown of one partition: its operations, its partial linearizations and the largest ones.\<close>

definition shows_partition ::
  "('i \<Rightarrow> 'o \<Rightarrow> string) \<Rightarrow> ('s \<Rightarrow> string) \<Rightarrow> ('i, 'o, 's) Model \<Rightarrow> ('i, 'o) Operation list \<Rightarrow> int list list
     \<Rightarrow> partitionVisualizationData \<Rightarrow> bool" where
  "shows_partition d ds M ops ps data \<longleftrightarrow> History data = map (element_of d) ops
     \<and> PartialLinearizations data = map (drawn M ds ops (Init M)) ps
     \<and> (\<forall>k. case Largest data k of
          None \<Rightarrow> \<forall>p \<in> set ps. k \<notin> set p
        | Some i \<Rightarrow> i < length ps \<and> k \<in> set (ps ! i) \<and> (\<forall>p \<in> set ps. k \<in> set p \<longrightarrow> length p \<le> length (ps ! i)))"

lemma visualize_partition_ok:
  assumes f: "sort_ok f" and times: "\<forall>v \<in> set ops. Call v \<le> Return v" and srt: "slice_sort_ok srt"
    and d: "DescribeOperation M = Some d" and ds: "DescribeState M = Some ds" and legal: "\<forall>p \<in> set ps. legal_ops M ops (Init M) p"
  shows "\<exists>data. visualize_partition srt M (makeEntries f ops) ps = Some (data, srt ps) \<and> shows_partition d ds M ops (srt ps) data"
proof -
  have n: "length (makeEntries f ops) div 2 = length ops"
    using length_wf_history [OF wf_makeEntries [OF f times]] by simp
  obtain cv rv where hist: "run (history_entry M) (makeEntries f ops)
      (replicate (length ops) \<lparr>he_ClientId = 0, he_Start = 0, he_End = 0, he_Description = []\<rparr>, (\<lambda>k. None), (\<lambda>k. None))
      = Some (map (element_of d) ops, cv, rv)"
    and vals: "\<forall>k < length ops. cv (int k) = Some (InV (Input (ops ! k))) \<and> rv (int k) = Some (OutV (Output (ops ! k)))"
    by (rule run_history_all [OF f times d])
  have "set (srt ps) = set ps" using srt unfolding slice_sort_ok_def by (metis set_mset_mset)
  then have "\<forall>p \<in> set (srt ps). legal_ops M ops (Init M) p" using legal by simp
  moreover have "largest_inv [] (\<lambda>k. None) (\<lambda>k. 0)" by (simp add: largest_inv_def)
  ultimately obtain li ls where part: "partials_loop M cv rv 0 (srt ps) (\<lambda>k. None) (\<lambda>k. 0) = Some (map (drawn M ds ops (Init M)) (srt ps), li)"
    and li: "largest_inv (srt ps) li ls"
    using partials_loop_ok [OF vals ds, of "srt ps" "[]"] by fastforce
  let ?data = "\<lparr>History = map (element_of d) ops, PartialLinearizations = map (drawn M ds ops (Init M)) (srt ps), Largest = li\<rparr>"
  have "case li k of None \<Rightarrow> \<forall>p \<in> set (srt ps). k \<notin> set p
      | Some i \<Rightarrow> i < length (srt ps) \<and> k \<in> set (srt ps ! i) \<and> (\<forall>p \<in> set (srt ps). k \<in> set p \<longrightarrow> length p \<le> length (srt ps ! i))" for k
    using li [unfolded largest_inv_def, rule_format, of k] by (simp split: option.splits)
  then have "shows_partition d ds M ops (srt ps) ?data" by (simp add: shows_partition_def)
  moreover have "visualize_partition srt M (makeEntries f ops) ps = Some (?data, srt ps)"
    using hist part by (simp add: visualize_partition_def n Let_def)
  ultimately show ?thesis by blast
qed

text \<open>
  C25. Visualizing a verdict never panics and shows what was checked. Given the information that
  \<open>CheckOperationsVerbose\<close> returned, for any order in which the goroutines finished and whether or not it
  timed out, \<open>computeVisualizationData\<close> returns for each partition its operations with their times and
  descriptions, each partial linearization with the states it passes through, and for each operation a
  longest partial linearization that contains it, if there is one.
\<close>

theorem visualization_faithful:
  assumes f: "sort_ok f" and eq: "Equal M = None \<or> equal_ok M" and iter: "iter_ok iter" and srt: "slice_sort_ok srt"
    and times: "\<forall>p \<in> set (parts M ops). \<forall>v \<in> set p. Call v \<le> Return v"
    and run: "CheckOperationsVerbose dop dst f iter arr sight M ops timeout = Some (res, Some info)"
  defines "d \<equiv> (case DescribeOperation M of None \<Rightarrow> dop | Some d \<Rightarrow> d)"
    and "ds \<equiv> (case DescribeState M of None \<Rightarrow> dst | Some d \<Rightarrow> d)"
  shows "\<exists>data info'. computeVisualizationData dop dst srt M info = Some (data, info') \<and> length data = length (parts M ops)
    \<and> (\<forall>i < length (parts M ops). partialLinearizations info' ! i = srt (partialLinearizations info ! i)
         \<and> shows_partition d ds M (parts M ops ! i) (partialLinearizations info' ! i) (data ! i))"
proof -
  let ?M = "fillDefault dop dst M" and ?n = "length (parts M ops)"
  from verbose_info [OF f eq iter times run] obtain pls where
    info: "info = \<lparr>li_history = map (makeEntries f) (parts M ops), partialLinearizations = pls\<rparr>" and len: "length pls = ?n"
    and legal: "\<forall>i < ?n. \<forall>seq \<in> set (pls ! i). legal_ops M (parts M ops ! i) (Init M) seq"
    by blast
  have legal_M: "legal_ops ?M = legal_ops M" and drawn_M: "drawn ?M = drawn M"
    by (simp_all add: legal_ops_def drawn_def op_step_def [abs_def] fun_eq_iff)
  have shows_M: "shows_partition d ds ?M = shows_partition d ds M"
    by (intro ext) (simp add: shows_partition_def drawn_M)
  have "\<forall>i < ?n. \<exists>data. visualize_partition srt ?M (makeEntries f (parts M ops ! i)) (pls ! i) = Some (data, srt (pls ! i))
      \<and> shows_partition d ds M (parts M ops ! i) (srt (pls ! i)) data"
  proof (intro allI impI)
    fix i assume i: "i < ?n"
    have "\<exists>data. visualize_partition srt ?M (makeEntries f (parts M ops ! i)) (pls ! i) = Some (data, srt (pls ! i))
        \<and> shows_partition d ds ?M (parts M ops ! i) (srt (pls ! i)) data"
      using legal i times nth_mem [OF i] by (intro visualize_partition_ok [OF f _ srt]) (auto simp: d_def ds_def legal_M)
    then show "\<exists>data. visualize_partition srt ?M (makeEntries f (parts M ops ! i)) (pls ! i) = Some (data, srt (pls ! i))
        \<and> shows_partition d ds M (parts M ops ! i) (srt (pls ! i)) data" by (simp add: shows_M)
  qed
  then obtain D where D: "\<forall>i < ?n. visualize_partition srt ?M (makeEntries f (parts M ops ! i)) (pls ! i) = Some (D i, srt (pls ! i))
      \<and> shows_partition d ds M (parts M ops ! i) (srt (pls ! i)) (D i)" by metis
  let ?rs = "map (\<lambda>i. (D (nat i), srt (pls ! nat i))) [0..int ?n - 1]"
  have "mapM (\<lambda>p. do {
         entries \<leftarrow> idx (li_history info) p;
         partials \<leftarrow> idx (partialLinearizations info) p;
         visualize_partition srt ?M entries partials
       }) [0..int ?n - 1] = Some ?rs"
    unfolding info by (rule mapM_map_Some) (use D len in \<open>auto simp: idx_def nat_less_iff\<close>)
  then have "computeVisualizationData dop dst srt M info = Some (map fst ?rs, info\<lparr>partialLinearizations := map snd ?rs @ drop (length ?rs) pls\<rparr>)"
    by (simp add: computeVisualizationData_def info)
  then show ?thesis using D len by (intro exI conjI) (auto simp: info nth_append nth_upto)
qed

lemma verbose_returns:
  assumes "sort_ok f" and "Equal M = None \<or> equal_ok M"
    and "\<forall>p \<in> set (parts M ops). \<forall>v \<in> set p. Call v \<le> Return v" and "parts M ops \<noteq> []"
    and "arrivals_ok (length (parts M ops)) arr" "arrived arr = {..<length (parts M ops)}"
  shows "CheckOperationsVerbose dop dst f iter arr sight M ops timeout \<noteq> None"
proof -
  let ?M = "fillDefault dop dst M" and ?Hs = "map (makeEntries f) (parts M ops)"
  have "(case Partition M of None \<Rightarrow> NoPartition | Some f \<Rightarrow> f) ops = parts M ops"
    by (auto simp: parts_def NoPartition_def split: option.splits)
  moreover have "\<forall>H \<in> set ?Hs. \<exists>n. wf_history n H" using wf_makeEntries [OF assms(1)] assms(3) by fastforce
  moreover note checkParallel_verdict [of ?Hs ?M arr iter sight True timeout]
  ultimately show ?thesis
    using equal_ok_fillDefault [OF assms(2), of dop dst] assms(4-6)
    by (cases "checkParallel iter arr sight ?M ?Hs True timeout") (simp_all add: CheckOperationsVerbose_def checkOperations_def)
qed

text \<open>The history of \<open>CheckerApi\<close> on two keys, checked and visualized.\<close>

definition sample_slice_sort :: "int list list \<Rightarrow> int list list" where
  "sample_slice_sort = sort_key (\<lambda>p. - int (length p))"

lemma sample_slice_sort_ok: "slice_sort_ok sample_slice_sort"
proof -
  have "sorted_wrt (\<lambda>p q. length q \<le> length p) (sort_key (\<lambda>p. - int (length p)) ps)" for ps :: "int list list"
    using sorted_sort_key [of "\<lambda>p. - int (length p)" ps] by (simp add: sorted_map)
  then show ?thesis by (simp add: slice_sort_ok_def sample_slice_sort_def)
qed

definition ex_verdict :: "(CheckResult \<times> (KvInput, KvOutput) linearizationInfo option) option" where
  "ex_verdict = CheckOperationsVerbose (\<lambda>_ _. '''') (\<lambda>st. st) sample_sort (\<lambda>xs. xs) [Result 1, Result 0] (\<lambda>_ r. r) KvModel ex_history 0"

lemma ex_parts: "length (parts KvModel ex_history) = 2" "\<forall>p \<in> set (parts KvModel ex_history). \<forall>v \<in> set p. Call v \<le> Return v"
  using ex_times by (auto simp: parts_KvModel ex_keys)

theorem visualization_faithful_witness:
  "\<exists>res info data info'. ex_verdict = Some (res, Some info)
     \<and> computeVisualizationData (\<lambda>_ _. '''') (\<lambda>st. st) sample_slice_sort KvModel info = Some (data, info') \<and> length data = 2
     \<and> History (data ! 0) = map (element_of KvDescribeOperation) (parts KvModel ex_history ! 0)"
proof -
  have eq: "Equal KvModel = None \<or> equal_ok KvModel" by (simp add: KvModel_def)
  have "ex_verdict \<noteq> None"
    unfolding ex_verdict_def
  proof (rule verbose_returns [OF sample_sort_ok eq ex_parts(2)])
    show "parts KvModel ex_history \<noteq> []" using ex_parts(1) by auto
    show "arrivals_ok (length (parts KvModel ex_history)) [Result 1, Result 0]"
      "arrived [Result 1, Result 0] = {..<length (parts KvModel ex_history)}"
      unfolding ex_parts(1) by (rule ex_arrivals)+
  qed
  then obtain res oinfo where v: "ex_verdict = Some (res, oinfo)" by auto
  have it: "iter_ok (\<lambda>xs. xs)" by (simp add: iter_ok_def)
  from verbose_info [OF sample_sort_ok eq it ex_parts(2) v [unfolded ex_verdict_def]] obtain info where "oinfo = Some info"
    by blast
  with v have v: "ex_verdict = Some (res, Some info)" by simp
  note vis = visualization_faithful [OF sample_sort_ok eq it sample_slice_sort_ok ex_parts(2) v [unfolded ex_verdict_def]]
  then obtain data info' where
    "computeVisualizationData (\<lambda>_ _. '''') (\<lambda>st. st) sample_slice_sort KvModel info = Some (data, info')" "length data = 2"
    and all: "\<forall>i < 2. shows_partition KvDescribeOperation (\<lambda>st. st) KvModel (parts KvModel ex_history ! i)
      (partialLinearizations info' ! i) (data ! i)"
    unfolding ex_parts(1) by (auto simp: KvModel_def)
  moreover from all have "History (data ! 0) = map (element_of KvDescribeOperation) (parts KvModel ex_history ! 0)"
    by (simp add: shows_partition_def)
  ultimately show ?thesis using v by blast
qed

end
