(* ===== verification/Spec2Isabelle.thy ===== *)
theory Spec2Isabelle
  imports RaftSystem RaftReplication RaftScenarios RaftRecovery RaftCommit RaftMatching CheckerApi
    MRApps MainPrograms KvClient LabRpcCorrect ClerksCorrect LabGob RaftConfigCorrect KvConfigCorrect ShardConfigCorrect
    CtrlConfigCorrect Visualization
begin

text \<open>
  A verification development for the 6.824 lab set: a Raft library, the network simulator it is tested
  on, the test harnesses, the clients of the sharded store, a MapReduce system, and the Porcupine
  linearizability checker.

  \<^bold>\<open>The program and its models.\<close> Paths are relative to \<open>src/src\<close>.

  \<^item> Raft (\<open>raft/\<close>). \<open>RaftLog\<close> is \<open>log.go\<close>; \<open>Persister\<close> is \<open>persister.go\<close>; \<open>Raft\<close> holds the server
    state and every handler of \<open>raft.go\<close>, \<open>vote.go\<close>, \<open>leaderElection.go\<close> and \<open>entry.go\<close>, each one a
    function from the state to the state and the messages it sends. \<open>RaftNode\<close> composes the handlers
    to one server that reacts to events; \<open>RaftSystem\<close> is a cluster of servers with messages in
    flight; \<open>RaftMatching\<close> adds the replication requests to the cluster. \<open>SampleCodec\<close> is a concrete
    encoding for witnesses.
  \<^item> Test harnesses. \<open>RaftConfig\<close> is \<open>raft/config.go\<close>: servers on the simulated network, what they applied,
    crashes and restarts, and the checks of the tests. \<open>KvConfig\<close> is \<open>kvraft/server.go\<close> and
    \<open>kvraft/config.go\<close>; \<open>ShardConfig\<close> is \<open>shardctrler/server.go\<close>, \<open>shardkv/server.go\<close> and
    \<open>shardkv/config.go\<close>; \<open>CtrlConfig\<close> is \<open>shardctrler/config.go\<close>. They use \<open>Raft\<close> and \<open>LabRpc\<close> as the code does; their lemmas are in
    \<open>RaftConfigCorrect\<close>, \<open>KvConfigCorrect\<close>, \<open>ShardConfigCorrect\<close> and \<open>CtrlConfigCorrect\<close>.
  \<^item> Clients (\<open>shardctrler/client.go\<close>, \<open>shardkv/client.go\<close>). \<open>Clerks\<close> has their calls with the loops that
    try one server after the other; \<open>ClerksCorrect\<close> shows when they return. \<open>KvClient\<close> is \<open>kvraft/client.go\<close>, a stub.
  \<^item> Porcupine (\<open>porcupine/\<close>, \<open>models/\<close>). \<open>Bitset\<close> is \<open>bitset.go\<close>; \<open>PorcModel\<close> is \<open>model.go\<close> and
    \<open>models/kv.go\<close>; \<open>Checker\<close> is the search of \<open>checker.go\<close> on a heap of list nodes; \<open>CheckerApi\<close> is
    the parallel part of \<open>checker.go\<close> and the exported functions of \<open>porcupine.go\<close>; \<open>Visualization\<close> is
    \<open>visualization.go\<close>.
    \<open>Linearizability\<close> is the specification: an order of the operations that respects real time and
    that the sequential model accepts.
  \<^item> MapReduce (\<open>mr/\<close>, \<open>mrapps/\<close>, \<open>main/mrsequential.go\<close>). \<open>MRWorker\<close> is \<open>worker.go\<close> and the sequential
    program over a map from absolute paths to files; \<open>MRApps\<close> are the applications; \<open>MRCoordinator\<close> is \<open>coordinator.go\<close> with
    its bounded channel, its goroutines and its timeouts; \<open>MRSystem\<close> puts master, workers and files together.
    \<open>MainPrograms\<close> has the programs under \<open>main/\<close>: arguments, plugins, and what they start.
  \<^item> Network simulator (\<open>labrpc/labrpc.go\<close>). \<open>LabRpc\<close> has the network, servers and services, and one
    request as a record that moves in the steps between which other goroutines can intervene.
    \<open>LabGob\<close> is \<open>labgob/labgob.go\<close>, the checks that wrap \<open>encoding/gob\<close>.
  \<^item> \<open>Prelude\<close> holds Go's slice expressions, the option-valued loops and the locale of machines with an
    invariant; \<open>GoText\<close> holds decimal numbers, UTF-8 decoding and \<open>strings.FieldsFunc\<close>.

  \<^bold>\<open>Conventions.\<close> A panic and a \<open>log.Fatal\<close> are \<open>None\<close>; in \<open>MRCoordinator\<close> an operation may also block.
  A mutex makes each definition atomic. What starts a goroutine or sends a message returns it, and step
  relations interleave. Random numbers, clocks, process ids, encoders, \<open>sort.Sort\<close>, the Unicode tables
  and the order of a range over a map are arguments, with their documented behaviour as hypotheses and
  a concrete instance in the witnesses.

  \<^bold>\<open>What the theorems show.\<close>

  \<^item> Raft: one leader per term in every reachable state (C1); logs that share an entry agree up to it and
    all logs are well-formed (C2, C3). These three, and C17, are about clusters without the snapshot RPC, whose
    handler breaks them (C8). A follower's log after \<open>AppendEntries\<close> is the one the specification
    prescribes, also when a message is delivered again, and every rejection is described (C4 to C6); a
    restart restores what was saved and no vote is given twice in a term (C10, C11); the effect of a success
    reply (C9), commit (C12), backing up after a conflict (C13), delivery and snapshots (C14 to C16) are
    given on every branch. C7, C8, C9 and C13 also show where the code fails: a panic below the log
    window of follower and leader, a second vote after a snapshot RPC, acknowledgements of an earlier
    term. \<open>RaftScenarios\<close> has runs of five servers with two leaders and with a minority commit;
    \<open>RaftRecovery\<close> has the snapshots that are ignored after a restart.
  \<^item> Harnesses: the leader check of the tests never fails on a reachable state of the cluster of C2 (C17);
    a test that passes has seen agreement (C18); after a restart server and harness resume at the same
    index, that of the last snapshot taken (C19); current ends are enabled exactly between connected
    servers and replaced ones never (C20); partitions isolate the leader (C21); the sharded harness
    announces the names of exactly the servers that run (C38); the controller's harness is the key-value
    one with another kind of server but for \<open>Leader\<close>, whose difference C39 describes.
  \<^item> Porcupine: the search ends and decides linearizability (C22), the exported function decides it for
    every partition, for every order in which the results arrive and whenever the goroutines see the
    kill flag, and waits for ever without a partition (C23, C24); what it reports can always be
    visualized (C25).
  \<^item> MapReduce: a map task splits its pairs by the FNV-1a hash of their keys (C26); distributed and
    sequential runs print the same lines, each in the file its key belongs to (C27); word count and index compute
    what they say (C28, C29). The master never panics or blocks without timeouts (C30); results that
    wait when the last map task is marked completed are lost (C31), and \<open>MRCoordCorrect\<close> has runs with timeouts in
    which results are duplicated or the master blocks. When they are processed one at a time, the
    whole system of master, workers and files leaves the lines of the sequential program when it is done
    (C32), and it can always be brought to that point (C33). \<open>MainPrograms\<close> says the same of the
    commands \<open>mrcoordinator\<close>, \<open>mrworker\<close> and \<open>mrsequential\<close>, and that the arguments of \<open>diskvd\<close> are read as
    they were printed.
  \<^item> Network: at most one run of a handler per request and only honest replies (C34), no success from a
    deleted server (C35), delivery on a reliable network (C36).
  \<^item> Clients: the calls return once a leader answers, with what a leader sent (C37, and \<open>ClerksCorrect\<close> for
    the controller's).
  \<^item> Gob: the check of types ends on recursive types and visits everything (C40).

  \<^bold>\<open>Bounds and fuel.\<close> \<open>checkSingle_loop\<close> and \<open>LoopCommit\<close> may run for ever and are \<open>partial_function\<close>s or
  take fuel; C14 and C22 prove that they return. \<open>mrcoordinator_wait\<close> returns once a poll finds the master done. The other loops are structural or have a measure:
  \<open>reduce_loop\<close> and \<open>seq_reduce_loop\<close> the rest of the list, \<open>runes\<close> the rest of the string. C33 goes by a rank that every useful
  step lowers. Go's \<open>int\<close> is \<open>int\<close>; hashes, bit sets and the counters of the network are words.

  \<^bold>\<open>Not modelled.\<close> Timers, sleeping and the scheduling of goroutines beyond what the step relations allow;
  steps of the snapshot RPC in the clusters of C1 to C3 (its handlers are modelled and C8 is about them); paths that
  are not clean, and links;
  sockets; the HTML page of \<open>porcupine/visualization.go\<close>, a string constant with JavaScript; debug
  printing; the service methods of \<open>kvraft\<close>, \<open>shardctrler\<close> and \<open>shardkv\<close>, which are empty in the source; the
  packages that some programs under \<open>main/\<close> import and the repository does not have.
\<close>

end
